(* ===== verification/Prelude.thy ===== *)
theory Prelude
  imports Main "HOL-Library.Word" "HOL-Library.AList" "HOL-Library.Sublist"
    "HOL-Library.Char_ord" "HOL-Library.List_Lexorder"
begin

text \<open>
  What the components share: Go strings as byte lists with the functions of package
  \<open>strings\<close> the relay calls, decimal printing (\<open>%d\<close>), UTF-8 runes, Go errors as
  values, Go maps as association lists with distinct keys, and durations as 64-bit
  words. The collections \<open>go_string\<close>, \<open>go_map\<close> and \<open>frame\<close> gather the facts the
  component proofs hand to the simplifier.
\<close>

named_theorems go_string \<open>characteristic facts of the string functions\<close>
named_theorems go_map \<open>lookup facts of association-list maps\<close>
named_theorems frame \<open>what an operation leaves unchanged\<close>

subsection \<open>Errors\<close>

text \<open>
  An error made by \<open>fmt.Errorf\<close> keeps the format and its string arguments
  (\<open>EMsg\<close>); \<open>EWrap\<close> also keeps the error behind a \<open>%w\<close> or \<open>%v\<close>. \<open>EEnv\<close> is the text
  of an error the operating system or the network returned, \<open>EJson\<close> an error of
  \<open>encoding/json\<close> (its text is not modelled). \<open>EFanOut\<close> is the combined error of the
  router, one pair of adapter name and error per failure, and \<open>EJoin\<close> the one of
  \<open>joinErrs\<close>.
\<close>

datatype go_error =
    EMsg string "string list"
  | EWrap string "string list" go_error
  | EEnv string
  | EJson
  | EFanOut "(string \<times> go_error) list"
  | EJoin "go_error list"

type_synonym 'a result = "go_error + 'a"

text \<open>A Go function that returns only an \<open>error\<close>: \<open>None\<close> is \<open>nil\<close>.\<close>

type_synonym err = "go_error option"

definition is_ok :: "'a result \<Rightarrow> bool" where
  "is_ok r = (case r of Inl _ \<Rightarrow> False | Inr _ \<Rightarrow> True)"

lemma is_ok_simps [simp]: "is_ok (Inl e) = False" "is_ok (Inr x) = True"
  by (simp_all add: is_ok_def)

subsection \<open>Strings\<close>

definition has_prefix :: "string \<Rightarrow> string \<Rightarrow> bool" where
  "has_prefix s p = (take (length p) s = p)"

fun contains :: "string \<Rightarrow> string \<Rightarrow> bool" where
  "contains [] sub = (sub = [])"
| "contains (c # s) sub = (has_prefix (c # s) sub \<or> contains s sub)"

definition trim_prefix :: "string \<Rightarrow> string \<Rightarrow> string" where
  "trim_prefix s p = (if has_prefix s p then drop (length p) s else s)"

definition trim_right :: "string \<Rightarrow> char \<Rightarrow> string" where
  "trim_right s c = rev (dropWhile (\<lambda>x. x = c) (rev s))"

text \<open>\<open>strings.SplitN(s, sep, 2)\<close> for a one-byte separator.\<close>

definition split_n2 :: "string \<Rightarrow> char \<Rightarrow> string list" where
  "split_n2 s c =
     (case dropWhile (\<lambda>x. x \<noteq> c) s of
        [] \<Rightarrow> [s]
      | _ # after \<Rightarrow> [takeWhile (\<lambda>x. x \<noteq> c) s, after])"

lemma has_prefix_iff [go_string]: "has_prefix s p \<longleftrightarrow> (\<exists>r. s = p @ r)"
proof
  assume "has_prefix s p"
  then have "s = p @ drop (length p) s"
    by (metis append_take_drop_id has_prefix_def)
  then show "\<exists>r. s = p @ r" ..
qed (auto simp: has_prefix_def)

lemma has_prefix_prefix: "has_prefix s p \<longleftrightarrow> prefix p s"
  by (simp add: has_prefix_iff prefix_def)

lemma has_prefix_append [simp]: "has_prefix (p @ s) p"
  by (simp add: has_prefix_def)

lemma has_prefix_Nil [simp]: "has_prefix s []"
  by (simp add: has_prefix_def)

lemma has_prefix_self [simp]: "has_prefix s s"
  by (simp add: has_prefix_def)

lemma contains_Cons: "contains (c # s) sub \<longleftrightarrow> (\<exists>b. c # s = sub @ b) \<or> contains s sub"
  by (simp add: has_prefix_iff)

lemma contains_iff [go_string]: "contains s sub \<longleftrightarrow> sublist sub s"
proof (induction s)
  case Nil
  then show ?case by simp
next
  case (Cons c s)
  then show ?case
    by (simp only: contains_Cons sublist_Cons_right prefix_def)
qed

lemma has_prefix_contains: "has_prefix s p \<Longrightarrow> contains s p"
  by (auto simp: has_prefix_iff contains_iff)

lemma trim_prefix_append [simp]: "trim_prefix (p @ s) p = s"
  by (simp add: trim_prefix_def)

lemma hd_dropWhile_not: "dropWhile P xs \<noteq> [] \<Longrightarrow> \<not> P (hd (dropWhile P xs))"
  by (induction xs) auto

lemma trim_right_no_suffix: "trim_right s c = [] \<or> last (trim_right s c) \<noteq> c"
  using hd_dropWhile_not [of "\<lambda>x. x = c" "rev s"] by (auto simp: trim_right_def last_rev)

lemma trim_right_idem [simp]: "trim_right (trim_right s c) c = trim_right s c"
  by (simp add: trim_right_def)

lemma split_n2_present [go_string]: "c \<notin> set a \<Longrightarrow> split_n2 (a @ c # b) c = [a, b]"
  by (induction a) (auto simp: split_n2_def split: list.splits)

lemma split_n2_absent [go_string]: "c \<notin> set s \<Longrightarrow> split_n2 s c = [s]"
proof -
  assume "c \<notin> set s"
  then have "dropWhile (\<lambda>x. x \<noteq> c) s = []" by auto
  then show ?thesis by (simp only: split_n2_def list.case)
qed

subsection \<open>Decimal numbers\<close>

definition digit_char :: "nat \<Rightarrow> char" where
  "digit_char d = char_of (48 + d :: nat)"

fun show_nat :: "nat \<Rightarrow> string" where
  "show_nat n = (if n < 10 then [digit_char n] else show_nat (n div 10) @ [digit_char (n mod 10)])"

declare show_nat.simps [simp del]

text \<open>\<open>fmt.Sprintf("%d", i)\<close>\<close>

definition itoa :: "int \<Rightarrow> string" where
  "itoa i = (if i < 0 then CHR ''-'' # show_nat (nat (- i)) else show_nat (nat i))"

text \<open>\<open>strconv.ParseInt(s, 10, 64)\<close> as \<open>encoding/json\<close> calls it on a number literal.\<close>

definition is_digit :: "char \<Rightarrow> bool" where
  "is_digit c = (48 \<le> (of_char c :: nat) \<and> (of_char c :: nat) \<le> 57)"

fun read_digits :: "nat \<Rightarrow> string \<Rightarrow> nat option" where
  "read_digits acc [] = Some acc"
| "read_digits acc (c # cs) =
     (if is_digit c then read_digits (acc * 10 + (of_char c - 48)) cs else None)"

definition parse_int64 :: "string \<Rightarrow> int option" where
  "parse_int64 s =
     (case s of
        [] \<Rightarrow> None
      | c # cs \<Rightarrow>
          (if c = CHR ''-'' then
             (case (if cs = [] then None else read_digits 0 cs) of
                None \<Rightarrow> None
              | Some n \<Rightarrow> (if int n \<le> 2 ^ 63 then Some (- int n) else None))
           else
             (case read_digits 0 s of
                None \<Rightarrow> None
              | Some n \<Rightarrow> (if int n < 2 ^ 63 then Some (int n) else None))))"

lemma of_char_digit [simp]: "d < 10 \<Longrightarrow> (of_char (digit_char d) :: nat) = 48 + d"
  by (simp add: digit_char_def)

lemma is_digit_digit_char [simp]: "d < 10 \<Longrightarrow> is_digit (digit_char d)"
  by (simp add: is_digit_def)

lemma show_nat_digits: "\<forall>c \<in> set (show_nat n). is_digit c"
proof (induction n rule: show_nat.induct)
  case (1 n)
  then show ?case by (subst show_nat.simps) auto
qed

lemma show_nat_not_Nil [simp]: "show_nat n \<noteq> []"
  by (subst show_nat.simps) simp

lemma read_digits_append:
  "read_digits acc (xs @ ys) =
     (case read_digits acc xs of None \<Rightarrow> None | Some n \<Rightarrow> read_digits n ys)"
  by (induction xs arbitrary: acc) auto

lemma read_digits_show_nat: "read_digits 0 (show_nat n) = Some n"
proof (induction n rule: show_nat.induct)
  case (1 n)
  show ?case
  proof (cases "n < 10")
    case True
    then show ?thesis by (subst show_nat.simps) simp
  next
    case False
    then have "read_digits 0 (show_nat (n div 10)) = Some (n div 10)"
      using "1.IH" by simp
    with False show ?thesis
      by (subst show_nat.simps) (simp add: read_digits_append)
  qed
qed

lemma show_nat_hd: "hd (show_nat n) \<noteq> CHR ''-''"
proof
  assume eq: "hd (show_nat n) = CHR ''-''"
  have "is_digit (hd (show_nat n))"
    using show_nat_digits [of n] by (simp add: hd_in_set)
  with eq show False by (simp add: is_digit_def)
qed

lemma parse_int64_itoa: "- (2 ^ 63) \<le> i \<Longrightarrow> i < 2 ^ 63 \<Longrightarrow> parse_int64 (itoa i) = Some i"
proof (cases "i < 0")
  case True
  assume "- (2 ^ 63) \<le> i"
  with True show ?thesis
    by (simp add: parse_int64_def itoa_def read_digits_show_nat)
next
  case False
  assume "i < 2 ^ 63"
  obtain c cs where c: "show_nat (nat i) = c # cs"
    by (cases "show_nat (nat i)") auto
  with show_nat_hd [of "nat i"] have "c \<noteq> CHR ''-''" by simp
  with c False \<open>i < 2 ^ 63\<close> show ?thesis
    using read_digits_show_nat [of "nat i"] by (simp add: parse_int64_def itoa_def)
qed

subsection \<open>Maps with string keys\<close>

text \<open>
  A Go \<open>map[string]T\<close> is unordered, so it has one canonical form here: the association
  list of its entries in increasing key order, which is also the order in which
  \<open>encoding/json\<close> prints a map. \<open>map_of\<close> is the lookup, \<open>map_set\<close> the assignment
  \<open>m[k] = v\<close>.
\<close>

type_synonym 'v gmap = "(string \<times> 'v) list"

fun map_set :: "string \<Rightarrow> 'v \<Rightarrow> 'v gmap \<Rightarrow> 'v gmap" where
  "map_set k v [] = [(k, v)]"
| "map_set k v ((k', v') # m) =
     (if k = k' then (k, v) # m
      else if k < k' then (k, v) # (k', v') # m
      else (k', v') # map_set k v m)"

lemma list_all_map_set: "P (k, v) \<Longrightarrow> list_all P m \<Longrightarrow> list_all P (map_set k v m)"
  by (induction k v m rule: map_set.induct) auto

definition map_sets :: "(string \<times> 'v) list \<Rightarrow> 'v gmap \<Rightarrow> 'v gmap" where
  "map_sets kvs m = fold (\<lambda>(k, v). map_set k v) kvs m"

text \<open>A map literal, and a read of a \<open>map[string]string\<close> (the zero value when absent).\<close>

definition map_lit :: "(string \<times> 'v) list \<Rightarrow> 'v gmap" where
  "map_lit kvs = map_sets kvs []"

definition map_get :: "string gmap \<Rightarrow> string \<Rightarrow> string" where
  "map_get m k = (case map_of m k of None \<Rightarrow> [] | Some v \<Rightarrow> v)"

definition wf_map :: "'v gmap \<Rightarrow> bool" where
  "wf_map m = sorted_wrt (<) (map fst m)"

lemma map_of_map_set [simp, go_map]: "map_of (map_set k v m) = (map_of m)(k \<mapsto> v)"
  by (induction k v m rule: map_set.induct) (auto simp: fun_upd_twist)

lemma map_sets_Nil [simp]: "map_sets [] m = m"
  by (simp add: map_sets_def)

lemma map_sets_Cons [simp]: "map_sets ((k, v) # kvs) m = map_sets kvs (map_set k v m)"
  by (simp add: map_sets_def)

lemma map_of_map_sets [go_map]: "map_of (map_sets kvs m) = map_of m ++ map_of (rev kvs)"
  by (induction kvs arbitrary: m) (auto simp: map_add_upds map_add_def split: option.splits)

lemma keys_map_set [simp]: "fst ` set (map_set k v m) = insert k (fst ` set m)"
  by (induction k v m rule: map_set.induct) auto

lemma wf_map_Nil [simp]: "wf_map []"
  by (simp add: wf_map_def)

lemma wf_map_Cons: "wf_map ((k, v) # m) \<longleftrightarrow> (\<forall>k' \<in> fst ` set m. k < k') \<and> wf_map m"
  by (auto simp: wf_map_def)

lemma wf_map_set [simp]: "wf_map m \<Longrightarrow> wf_map (map_set k v m)"
  by (induction k v m rule: map_set.induct) (auto simp: wf_map_Cons less_imp_neq)

lemma wf_map_sets [simp]: "wf_map m \<Longrightarrow> wf_map (map_sets kvs m)"
  by (induction kvs arbitrary: m) auto

lemma wf_map_lit [simp]: "wf_map (map_lit kvs)"
  by (simp add: map_lit_def)

lemma wf_map_distinct: "wf_map m \<Longrightarrow> distinct (map fst m)"
  unfolding wf_map_def using strict_sorted_iff by blast

lemma map_of_map_lit [go_map]: "map_of (map_lit kvs) = map_of (rev kvs)"
  by (simp add: map_lit_def map_of_map_sets)

text \<open>Two maps in canonical form with the same lookups are the same list.\<close>

lemma wf_map_ext:
  assumes "wf_map m" "wf_map m'" "map_of m = map_of m'"
  shows "m = m'"
proof (rule map_sorted_distinct_set_unique [of fst])
  note d = wf_map_distinct [OF assms(1)] wf_map_distinct [OF assms(2)]
  show "distinct (map fst m)" "distinct (map fst m')" by (rule d)+
  show eq: "set m = set m'"
    using assms(3) d by (simp add: map_of_inject_set)
  show "inj_on fst (set m \<union> set m')"
    using d(1) eq by (simp add: distinct_map)
  show "sorted (map fst m)" "sorted (map fst m')"
    using assms(1,2) unfolding wf_map_def by (simp_all add: strict_sorted_iff)
qed

lemma map_of_rev_distinct: "distinct (map fst m) \<Longrightarrow> map_of (rev m) = map_of m"
  by (metis distinct_rev map_of_inject_set rev_map set_rev)

lemma map_lit_wf:
  assumes "wf_map m"
  shows "map_lit m = m"
proof (rule wf_map_ext)
  show "map_of (map_lit m) = map_of m"
    using map_of_rev_distinct wf_map_distinct [OF assms] by (simp add: map_of_map_lit)
qed (use assms in simp_all)

lemma keys_map_sets: "fst ` set (map_sets kvs m) = fst ` set kvs \<union> fst ` set m"
proof (induction kvs arbitrary: m)
  case (Cons kv kvs)
  then show ?case by (cases kv) simp
qed simp

lemma map_lit_None_iff: "map_of (map_lit kvs) k = None \<longleftrightarrow> k \<notin> set (map fst kvs)"
  by (simp add: map_of_eq_None_iff map_lit_def keys_map_sets)

end
