(* ===== verification/Runes.thy ===== *)
theory Runes
  imports Prelude
begin

text \<open>
  UTF-8 as package \<open>unicode/utf8\<close> reads and writes it. \<open>decode_rune\<close> is
  \<open>utf8.DecodeRuneInString\<close>: the first rune of a byte string and its width, with
  U+FFFD and width 1 for a byte that starts no valid encoding (overlong forms,
  surrogates and values above U+10FFFF are invalid). \<open>to_valid\<close> replaces every invalid
  byte by U+FFFD, which is what \<open>encoding/json\<close> does to strings in both directions.
\<close>

definition byte :: "char \<Rightarrow> nat" where
  "byte c = of_char c"

definition is_ascii :: "char \<Rightarrow> bool" where
  "is_ascii c = (byte c < 128)"

definition in_range :: "nat \<Rightarrow> nat \<Rightarrow> char \<Rightarrow> bool" where
  "in_range lo hi c = (lo \<le> byte c \<and> byte c \<le> hi)"

definition is_cont :: "char \<Rightarrow> bool" where
  "is_cont c = in_range 128 191 c"

definition rune_error :: nat where
  "rune_error = 65533"

text \<open>The bounds of the second byte, by the first byte.\<close>

definition second_ok :: "char \<Rightarrow> char \<Rightarrow> bool" where
  "second_ok b0 b1 =
     (if byte b0 = 224 then in_range 160 191 b1
      else if byte b0 = 237 then in_range 128 159 b1
      else if byte b0 = 240 then in_range 144 191 b1
      else if byte b0 = 244 then in_range 128 143 b1
      else is_cont b1)"

fun decode_rune :: "string \<Rightarrow> nat \<times> nat" where
  "decode_rune [] = (rune_error, 0)"
| "decode_rune (b0 # rest) =
     (if is_ascii b0 then (byte b0, 1)
      else if in_range 194 223 b0 then
        (case rest of
           b1 # _ \<Rightarrow>
             (if is_cont b1 then ((byte b0 - 192) * 64 + (byte b1 - 128), 2) else (rune_error, 1))
         | _ \<Rightarrow> (rune_error, 1))
      else if in_range 224 239 b0 then
        (case rest of
           b1 # b2 # _ \<Rightarrow>
             (if second_ok b0 b1 \<and> is_cont b2
              then ((byte b0 - 224) * 4096 + (byte b1 - 128) * 64 + (byte b2 - 128), 3)
              else (rune_error, 1))
         | _ \<Rightarrow> (rune_error, 1))
      else if in_range 240 244 b0 then
        (case rest of
           b1 # b2 # b3 # _ \<Rightarrow>
             (if second_ok b0 b1 \<and> is_cont b2 \<and> is_cont b3
              then ((byte b0 - 240) * 262144 + (byte b1 - 128) * 4096
                    + (byte b2 - 128) * 64 + (byte b3 - 128), 4)
              else (rune_error, 1))
         | _ \<Rightarrow> (rune_error, 1))
      else (rune_error, 1))"

text \<open>\<open>utf8.AppendRune\<close>: surrogates and out-of-range values become U+FFFD.\<close>

definition encode_rune :: "nat \<Rightarrow> string" where
  "encode_rune r =
     (if r < 128 then [char_of r]
      else if r < 2048 then [char_of (192 + r div 64), char_of (128 + r mod 64)]
      else if (55296 \<le> r \<and> r \<le> 57343) \<or> 1114111 < r then [CHR 0xEF, CHR 0xBF, CHR 0xBD]
      else if r < 65536 then
        [char_of (224 + r div 4096), char_of (128 + r div 64 mod 64), char_of (128 + r mod 64)]
      else
        [char_of (240 + r div 262144), char_of (128 + r div 4096 mod 64),
         char_of (128 + r div 64 mod 64), char_of (128 + r mod 64)])"

lemma decode_rune_width: "s \<noteq> [] \<Longrightarrow> 1 \<le> snd (decode_rune s) \<and> snd (decode_rune s) \<le> length s"
  by (cases s) (auto split: list.splits)

lemma decode_rune_width_pos [simp]: "0 < snd (decode_rune (c # cs))"
  using decode_rune_width [of "c # cs"] by simp

lemma decode_rune_ascii [simp]: "is_ascii c \<Longrightarrow> decode_rune (c # cs) = (byte c, 1)"
  by simp

declare decode_rune.simps(2) [simp del]

text \<open>One rune of the input: its bytes when valid, U+FFFD when not.\<close>

definition valid_head :: "string \<Rightarrow> bool" where
  "valid_head s = (decode_rune s \<noteq> (rune_error, 1))"

function to_valid :: "string \<Rightarrow> string" where
  "to_valid [] = []"
| "to_valid (c # cs) =
     (if valid_head (c # cs)
      then take (snd (decode_rune (c # cs))) (c # cs) @ to_valid (drop (snd (decode_rune (c # cs))) (c # cs))
      else encode_rune rune_error @ to_valid cs)"
  by pat_completeness auto
termination
proof (relation "measure length")
  fix c :: char and cs :: string
  show "(drop (snd (decode_rune (c # cs))) (c # cs), c # cs) \<in> measure length"
    using decode_rune_width [of "c # cs"] by simp
qed auto

declare to_valid.simps(2) [simp del]

definition valid_utf8 :: "string \<Rightarrow> bool" where
  "valid_utf8 s = (to_valid s = s)"

lemma valid_head_ascii [simp]: "is_ascii c \<Longrightarrow> valid_head (c # cs)"
proof -
  assume "is_ascii c"
  moreover from this have "byte c \<noteq> rune_error" by (simp add: is_ascii_def rune_error_def)
  ultimately show ?thesis by (simp add: valid_head_def)
qed

lemma to_valid_ascii [simp]: "is_ascii c \<Longrightarrow> to_valid (c # cs) = c # to_valid cs"
  by (subst to_valid.simps) simp

lemma to_valid_all_ascii: "\<forall>c \<in> set s. is_ascii c \<Longrightarrow> to_valid s = s"
  by (induction s) auto

lemma valid_utf8_ascii: "\<forall>c \<in> set s. is_ascii c \<Longrightarrow> valid_utf8 s"
  by (simp add: valid_utf8_def to_valid_all_ascii)

text \<open>The shapes of a valid first rune, by its width.\<close>

lemma decode_rune_2:
  "in_range 194 223 b0 \<Longrightarrow> is_cont b1 \<Longrightarrow>
   decode_rune (b0 # b1 # r) = ((byte b0 - 192) * 64 + (byte b1 - 128), 2)"
  by (simp add: decode_rune.simps is_ascii_def in_range_def)

lemma decode_rune_3:
  "in_range 224 239 b0 \<Longrightarrow> second_ok b0 b1 \<Longrightarrow> is_cont b2 \<Longrightarrow>
   decode_rune (b0 # b1 # b2 # r) =
     ((byte b0 - 224) * 4096 + (byte b1 - 128) * 64 + (byte b2 - 128), 3)"
  by (simp add: decode_rune.simps is_ascii_def in_range_def)

lemma decode_rune_4:
  "in_range 240 244 b0 \<Longrightarrow> second_ok b0 b1 \<Longrightarrow> is_cont b2 \<Longrightarrow> is_cont b3 \<Longrightarrow>
   decode_rune (b0 # b1 # b2 # b3 # r) =
     ((byte b0 - 240) * 262144 + (byte b1 - 128) * 4096
      + (byte b2 - 128) * 64 + (byte b3 - 128), 4)"
  by (simp add: decode_rune.simps is_ascii_def in_range_def)

lemmas decode_rune_shapes = decode_rune_ascii decode_rune_2 decode_rune_3 decode_rune_4

lemma valid_head_cases [consumes 2, case_names one two three four]:
  assumes "valid_head s" "s \<noteq> []"
  obtains c r where "s = c # r" "is_ascii c"
  | b0 b1 r where "s = b0 # b1 # r" "in_range 194 223 b0" "is_cont b1"
  | b0 b1 b2 r where "s = b0 # b1 # b2 # r" "in_range 224 239 b0" "second_ok b0 b1" "is_cont b2"
  | b0 b1 b2 b3 r where "s = b0 # b1 # b2 # b3 # r" "in_range 240 244 b0" "second_ok b0 b1"
      "is_cont b2" "is_cont b3"
  using assms
  by (cases s) (auto simp: valid_head_def decode_rune.simps split: list.splits if_splits)

text \<open>Decoding depends on the bytes of the rune only.\<close>

lemma decode_rune_append:
  assumes "valid_head s" "s \<noteq> []"
  shows "decode_rune (s @ t) = decode_rune s"
  using assms by (cases rule: valid_head_cases) (simp_all add: decode_rune_shapes)

lemma decode_rune_take:
  assumes "valid_head s" "s \<noteq> []"
  shows "decode_rune (take (snd (decode_rune s)) s) = decode_rune s"
  using assms
  by (cases rule: valid_head_cases) (simp_all add: decode_rune_shapes)

text \<open>Encoding inverts decoding: the bytes of a valid rune are its encoding.\<close>

lemma char_of_byte [simp]: "char_of (byte c) = c"
  by (simp add: byte_def)

lemma byte_less [simp]: "byte c < 256"
  by (simp add: byte_def)

lemma char_of_eqI: "n = byte c \<Longrightarrow> char_of n = c"
  by simp

lemma base64_digit: "z < 64 \<Longrightarrow> (a * 64 + z) div 64 = a" "z < 64 \<Longrightarrow> (a * 64 + z) mod 64 = z"
  for a z :: nat
  by simp_all

lemma encode_decode_rune:
  assumes "valid_head s" "s \<noteq> []"
  shows "encode_rune (fst (decode_rune s)) = take (snd (decode_rune s)) s"
  using assms
proof (cases rule: valid_head_cases)
  case (one c r)
  then show ?thesis by (simp add: encode_rune_def is_ascii_def)
next
  case (two b0 b1 r)
  define x y where "x = byte b0 - 192" and "y = byte b1 - 128"
  have xy: "byte b0 = 192 + x" "byte b1 = 128 + y" "2 \<le> x" "x < 32" "y < 64"
    using two by (auto simp: x_def y_def in_range_def is_cont_def)
  have "(x * 64 + y) div 64 = x" "(x * 64 + y) mod 64 = y" "128 \<le> x * 64 + y" "x * 64 + y < 2048"
    using xy(3-5) by simp_all
  then have "encode_rune (x * 64 + y) = [b0, b1]"
    using xy by (auto simp: encode_rune_def intro!: char_of_eqI)
  then show ?thesis
    using two by (simp add: decode_rune_2 x_def y_def)
next
  case (three b0 b1 b2 r)
  define x y z where "x = byte b0 - 224" and "y = byte b1 - 128" and "z = byte b2 - 128"
  have xyz: "byte b0 = 224 + x" "byte b1 = 128 + y" "byte b2 = 128 + z" "x < 16" "y < 64" "z < 64"
    using three by (auto simp: x_def y_def z_def in_range_def is_cont_def second_ok_def split: if_splits)
  have r: "x = 0 \<Longrightarrow> 32 \<le> y" "x = 13 \<Longrightarrow> y < 32"
    using three xyz by (auto simp: second_ok_def in_range_def split: if_splits)
  define v where "v = (x * 64 + y) * 64 + z"
  have v64: "v div 64 = x * 64 + y" "v mod 64 = z"
    using xyz by (simp_all only: v_def base64_digit)
  have "v div 4096 = v div 64 div 64" by (simp add: div_mult2_eq [symmetric])
  then have v: "v div 4096 = x" "v div 64 mod 64 = y" "v mod 64 = z"
    using v64 xyz by (simp_all only: base64_digit)
  have "2048 \<le> v" using r(1) by (cases "x = 0") (auto simp: v_def)
  moreover have "v < 65536" using xyz by (simp add: v_def)
  moreover have "\<not> (55296 \<le> v \<and> v \<le> 57343)"
  proof (cases "x = 13")
    case True
    then show ?thesis using r(2) xyz by (simp add: v_def)
  next
    case False
    then have "x \<le> 12 \<or> 14 \<le> x" by linarith
    then show ?thesis using xyz by (auto simp: v_def)
  qed
  ultimately  have "encode_rune v = [b0, b1, b2]"
    using v xyz by (auto simp: encode_rune_def intro!: char_of_eqI)
  then show ?thesis
    using three by (simp add: decode_rune_3 v_def x_def y_def z_def algebra_simps)
next
  case (four b0 b1 b2 b3 r)
  define x y z w where "x = byte b0 - 240" and "y = byte b1 - 128" and "z = byte b2 - 128"
    and "w = byte b3 - 128"
  have xyz: "byte b0 = 240 + x" "byte b1 = 128 + y" "byte b2 = 128 + z" "byte b3 = 128 + w"
     "x < 5" "y < 64" "z < 64" "w < 64"
    using four by (auto simp: x_def y_def z_def w_def in_range_def is_cont_def second_ok_def split: if_splits)
  have r: "x = 0 \<Longrightarrow> 16 \<le> y" "x = 4 \<Longrightarrow> y < 16"
    using four xyz by (auto simp: second_ok_def in_range_def split: if_splits)
  define v where "v = ((x * 64 + y) * 64 + z) * 64 + w"
  have v64: "v div 64 = (x * 64 + y) * 64 + z" "v mod 64 = w"
    using xyz by (simp_all only: v_def base64_digit)
  have d: "v div 4096 = v div 64 div 64" "v div 262144 = v div 64 div 64 div 64"
    by (simp_all add: div_mult2_eq [symmetric])
  have v: "v div 262144 = x" "v div 4096 mod 64 = y" "v div 64 mod 64 = z" "v mod 64 = w"
    using d v64 xyz by (simp_all only: base64_digit)
  have "65536 \<le> v" using r(1) by (cases "x = 0") (auto simp: v_def)
  moreover have "v \<le> 1114111"
  proof (cases "x = 4")
    case True
    then show ?thesis using r(2) xyz by (simp add: v_def)
  next
    case False
    then show ?thesis using xyz by (simp add: v_def)
  qed
  ultimately have "encode_rune v = [b0, b1, b2, b3]"
    using v xyz by (auto simp: encode_rune_def intro!: char_of_eqI)
  then show ?thesis
    using four by (simp add: decode_rune_4 v_def x_def y_def z_def w_def algebra_simps)
qed

end
