(* ===== verification/Json.thy ===== *)
theory Json
  imports Runes
begin

text \<open>
  Package \<open>encoding/json\<close> as far as the relay uses it. \<open>json_parse\<close> checks and reads a
  whole text (\<open>json.Unmarshal\<close>), \<open>json_first\<close> reads the first value of a stream
  (\<open>Decoder.Decode\<close>), \<open>marshal\<close> prints. The reader is the character automaton of the
  package's own scanner: a mode and a stack of open arrays and objects, so it is
  structurally recursive and its nesting limit (10000) is the height of the stack.
  A number is kept as its literal text. The lemmas show that reading inverts printing.
\<close>

datatype json =
    JNull
  | JBool bool
  | JNum string
  | JStr string
  | JArr "json list"
  | JObj "(string \<times> json) list"

subsection \<open>String literals\<close>

definition bslash :: char where "bslash = CHR 0x5C"
definition dquote :: char where "dquote = CHR 0x22"

definition hex_val :: "char \<Rightarrow> nat option" where
  "hex_val c =
     (if in_range 48 57 c then Some (byte c - 48)
      else if in_range 97 102 c then Some (byte c - 87)
      else if in_range 65 70 c then Some (byte c - 55)
      else None)"

definition hex_digit :: "nat \<Rightarrow> char" where
  "hex_digit d = (if d < 10 then char_of (48 + d) else char_of (87 + d))"

text \<open>\<open>getu4\<close>: the value of a \<open>\uXXXX\<close> escape at the front of the text.\<close>

definition getu4 :: "string \<Rightarrow> nat option" where
  "getu4 s =
     (case s of
        a # b # h1 # h2 # h3 # h4 # _ \<Rightarrow>
          (if a = bslash \<and> b = CHR ''u'' then
             (case (hex_val h1, hex_val h2, hex_val h3, hex_val h4) of
                (Some x1, Some x2, Some x3, Some x4) \<Rightarrow>
                  Some (x1 * 4096 + x2 * 256 + x3 * 16 + x4)
              | _ \<Rightarrow> None)
           else None)
      | _ \<Rightarrow> None)"

definition is_surrogate :: "nat \<Rightarrow> bool" where
  "is_surrogate r = (55296 \<le> r \<and> r \<le> 57343)"

text \<open>\<open>utf16.DecodeRune\<close>\<close>

definition utf16_pair :: "nat \<Rightarrow> nat option \<Rightarrow> nat option" where
  "utf16_pair r1 r2 =
     (case r2 of
        None \<Rightarrow> None
      | Some r2 \<Rightarrow>
          (if 55296 \<le> r1 \<and> r1 < 56320 \<and> 56320 \<le> r2 \<and> r2 < 57344
           then Some ((r1 - 55296) * 1024 + (r2 - 56320) + 65536) else None))"

definition unescape :: "char \<Rightarrow> char" where
  "unescape e =
     (if e = CHR ''b'' then CHR 0x08 else if e = CHR ''f'' then CHR 0x0C
      else if e = CHR ''n'' then CHR 0x0A else if e = CHR ''r'' then CHR 0x0D
      else if e = CHR ''t'' then CHR 0x09 else e)"

text \<open>\<open>unquoteBytes\<close> on the text between the quotes, already checked by the scanner.\<close>

function unquote :: "string \<Rightarrow> string" where
  "unquote [] = []"
| "unquote (c # cs) =
     (if c = bslash then
        (case getu4 (c # cs) of
           Some rr \<Rightarrow>
             (if is_surrogate rr then
                (case utf16_pair rr (getu4 (drop 5 cs)) of
                   Some dec \<Rightarrow> encode_rune dec @ unquote (drop 11 cs)
                 | None \<Rightarrow> encode_rune rune_error @ unquote (drop 5 cs))
              else encode_rune rr @ unquote (drop 5 cs))
         | None \<Rightarrow> (case cs of [] \<Rightarrow> [] | e # r \<Rightarrow> unescape e # unquote r))
      else if valid_head (c # cs) then
        take (snd (decode_rune (c # cs))) (c # cs) @ unquote (drop (snd (decode_rune (c # cs)) - 1) cs)
      else encode_rune rune_error @ unquote cs)"
  by pat_completeness auto
termination by (relation "measure length") auto

declare unquote.simps(2) [simp del]

definition esc_byte :: "char \<Rightarrow> string" where
  "esc_byte c =
     (if c = bslash \<or> c = dquote then [bslash, c]
      else if c = CHR 0x08 then [bslash, CHR ''b''] else if c = CHR 0x0C then [bslash, CHR ''f'']
      else if c = CHR 0x0A then [bslash, CHR ''n''] else if c = CHR 0x0D then [bslash, CHR ''r'']
      else if c = CHR 0x09 then [bslash, CHR ''t'']
      else if byte c < 32 \<or> c = CHR ''<'' \<or> c = CHR ''>'' \<or> c = CHR ''&''
      then [bslash, CHR ''u'', CHR ''0'', CHR ''0'', hex_digit (byte c div 16), hex_digit (byte c mod 16)]
      else [c])"

text \<open>\<open>appendString\<close> with HTML escaping on, as \<open>json.Marshal\<close> calls it.\<close>

definition esc_u :: "string \<Rightarrow> string" where
  "esc_u hex = bslash # CHR ''u'' # hex"

function esc_string :: "string \<Rightarrow> string" where
  "esc_string [] = []"
| "esc_string (c # cs) =
     (if is_ascii c then esc_byte c @ esc_string cs
      else if valid_head (c # cs) then
        (if fst (decode_rune (c # cs)) = 8232 then esc_u ''2028''
         else if fst (decode_rune (c # cs)) = 8233 then esc_u ''2029''
         else take (snd (decode_rune (c # cs))) (c # cs))
        @ esc_string (drop (snd (decode_rune (c # cs)) - 1) cs)
      else esc_u ''fffd'' @ esc_string cs)"
  by pat_completeness auto
termination by (relation "measure length") auto

declare esc_string.simps(2) [simp del]

definition quote :: "string \<Rightarrow> string" where
  "quote s = dquote # esc_string s @ [dquote]"

subsection \<open>Printing\<close>

fun marshal :: "json \<Rightarrow> string" and marshal_elems :: "json list \<Rightarrow> string"
  and marshal_members :: "(string \<times> json) list \<Rightarrow> string" where
  "marshal JNull = ''null''"
| "marshal (JBool b) = (if b then ''true'' else ''false'')"
| "marshal (JNum t) = t"
| "marshal (JStr s) = quote s"
| "marshal (JArr vs) = ''['' @ marshal_elems vs @ '']''"
| "marshal (JObj ms) = ''{'' @ marshal_members ms @ ''}''"
| "marshal_elems [] = []"
| "marshal_elems (v # vs) = marshal v @ (if vs = [] then [] else '','' @ marshal_elems vs)"
| "marshal_members [] = []"
| "marshal_members ((k, v) # ms) =
     quote k @ '':'' @ marshal v @ (if ms = [] then [] else '','' @ marshal_members ms)"

subsection \<open>The scanner\<close>

definition is_ws :: "char \<Rightarrow> bool" where
  "is_ws c = (c = CHR '' '' \<or> c = CHR 0x09 \<or> c = CHR 0x0A \<or> c = CHR 0x0D)"

datatype num_state = NNeg | NZero | NInt | NDot | NFrac | NE | NESign | NExp

fun num_step :: "num_state \<Rightarrow> char \<Rightarrow> num_state option" where
  "num_step NNeg c = (if c = CHR ''0'' then Some NZero else if is_digit c then Some NInt else None)"
| "num_step NZero c =
     (if c = CHR ''.'' then Some NDot else if c = CHR ''e'' \<or> c = CHR ''E'' then Some NE else None)"
| "num_step NInt c =
     (if is_digit c then Some NInt else if c = CHR ''.'' then Some NDot
      else if c = CHR ''e'' \<or> c = CHR ''E'' then Some NE else None)"
| "num_step NDot c = (if is_digit c then Some NFrac else None)"
| "num_step NFrac c =
     (if is_digit c then Some NFrac else if c = CHR ''e'' \<or> c = CHR ''E'' then Some NE else None)"
| "num_step NE c =
     (if c = CHR ''+'' \<or> c = CHR ''-'' then Some NESign else if is_digit c then Some NExp else None)"
| "num_step NESign c = (if is_digit c then Some NExp else None)"
| "num_step NExp c = (if is_digit c then Some NExp else None)"

definition num_accepting :: "num_state \<Rightarrow> bool" where
  "num_accepting ns = (ns = NZero \<or> ns = NInt \<or> ns = NFrac \<or> ns = NExp)"

text \<open>Inside a string: between characters, after a backslash, or \<open>n\<close> hex digits to come.\<close>

datatype str_state = SBody | SEsc | SHex nat

text \<open>
  The open containers, innermost first: an array with its elements so far (reversed),
  an object with its members so far (reversed), an object whose next key is being read,
  an object waiting for the value of a key.
\<close>

datatype frame =
    FArr "json list"
  | FObj "(string \<times> json) list"
  | FKey "(string \<times> json) list"
  | FVal "(string \<times> json) list" string

datatype mode =
    MValue
  | MValueOrEnd
  | MKey
  | MKeyOrEnd
  | MColon
  | MStr str_state string
  | MNum num_state string
  | MLit string json
  | MEnd
  | MDone json

type_synonym jstate = "frame list \<times> mode"

definition max_depth :: nat where
  "max_depth = 10000"

fun close_value :: "json \<Rightarrow> frame list \<Rightarrow> jstate option" where
  "close_value v [] = Some ([], MDone v)"
| "close_value v (FArr vs # st) = Some (FArr (v # vs) # st, MEnd)"
| "close_value v (FVal ms k # st) = Some (FObj ((k, v) # ms) # st, MEnd)"
| "close_value v (FObj ms # st) = None"
| "close_value v (FKey ms # st) = None"

fun close_string :: "string \<Rightarrow> frame list \<Rightarrow> jstate option" where
  "close_string raw (FKey ms # st) = Some (FVal ms (unquote raw) # st, MColon)"
| "close_string raw st = close_value (JStr (unquote raw)) st"

definition push_frame :: "frame \<Rightarrow> frame list \<Rightarrow> mode \<Rightarrow> jstate option" where
  "push_frame f st m = (if length st < max_depth then Some (f # st, m) else None)"

definition begin_value :: "frame list \<Rightarrow> char \<Rightarrow> jstate option" where
  "begin_value st c =
     (if c = dquote then Some (st, MStr SBody [])
      else if c = CHR ''{'' then push_frame (FKey []) st MKeyOrEnd
      else if c = CHR ''['' then push_frame (FArr []) st MValueOrEnd
      else if c = CHR ''-'' then Some (st, MNum NNeg [c])
      else if c = CHR ''0'' then Some (st, MNum NZero [c])
      else if is_digit c then Some (st, MNum NInt [c])
      else if c = CHR ''t'' then Some (st, MLit ''rue'' (JBool True))
      else if c = CHR ''f'' then Some (st, MLit ''alse'' (JBool False))
      else if c = CHR ''n'' then Some (st, MLit ''ull'' JNull)
      else None)"

fun end_step :: "frame list \<Rightarrow> char \<Rightarrow> jstate option" where
  "end_step (FArr vs # st) c =
     (if c = CHR '','' then Some (FArr vs # st, MValue)
      else if c = CHR '']'' then close_value (JArr (rev vs)) st else None)"
| "end_step (FObj ms # st) c =
     (if c = CHR '','' then Some (FKey ms # st, MKey)
      else if c = CHR ''}'' then close_value (JObj (rev ms)) st else None)"
| "end_step st c = None"

definition str_step :: "frame list \<Rightarrow> str_state \<Rightarrow> string \<Rightarrow> char \<Rightarrow> jstate option" where
  "str_step st ss raw c =
     (case ss of
        SBody \<Rightarrow>
          (if c = dquote then close_string (rev raw) st
           else if c = bslash then Some (st, MStr SEsc (c # raw))
           else if byte c < 32 then None
           else Some (st, MStr SBody (c # raw)))
      | SEsc \<Rightarrow>
          (if c = CHR ''u'' then Some (st, MStr (SHex 4) (c # raw))
           else if c \<in> set [CHR ''b'', CHR ''f'', CHR ''n'', CHR ''r'', CHR ''t'', bslash, CHR ''/'', dquote]
           then Some (st, MStr SBody (c # raw)) else None)
      | SHex n \<Rightarrow>
          (if hex_val c = None then None
           else Some (st, MStr (if n \<le> 1 then SBody else SHex (n - 1)) (c # raw))))"

fun jstep :: "jstate \<Rightarrow> char \<Rightarrow> jstate option" where
  "jstep (st, MValue) c = (if is_ws c then Some (st, MValue) else begin_value st c)"
| "jstep (st, MValueOrEnd) c =
     (if is_ws c then Some (st, MValueOrEnd)
      else if c = CHR '']'' then end_step st c else begin_value st c)"
| "jstep (st, MKey) c =
     (if is_ws c then Some (st, MKey) else if c = dquote then Some (st, MStr SBody []) else None)"
| "jstep (st, MKeyOrEnd) c =
     (if is_ws c then Some (st, MKeyOrEnd)
      else if c = dquote then Some (st, MStr SBody [])
      else if c = CHR ''}'' then close_value (JObj []) (tl st) else None)"
| "jstep (st, MColon) c =
     (if is_ws c then Some (st, MColon) else if c = CHR '':'' then Some (st, MValue) else None)"
| "jstep (st, MStr ss raw) c = str_step st ss raw c"
| "jstep (st, MNum ns lit) c =
     (case num_step ns c of
        Some ns' \<Rightarrow> Some (st, MNum ns' (c # lit))
      | None \<Rightarrow>
          (if num_accepting ns then
             (case close_value (JNum (rev lit)) st of
                Some (st', MEnd) \<Rightarrow> (if is_ws c then Some (st', MEnd) else end_step st' c)
              | Some (st', m') \<Rightarrow> (if is_ws c then Some (st', m') else None)
              | None \<Rightarrow> None)
           else None))"
| "jstep (st, MLit rest v) c =
     (case rest of
        [] \<Rightarrow> None
      | r # rs \<Rightarrow> (if c = r then (if rs = [] then close_value v st else Some (st, MLit rs v)) else None))"
| "jstep (st, MEnd) c = (if is_ws c then Some (st, MEnd) else end_step st c)"
| "jstep (st, MDone v) c = (if is_ws c then Some (st, MDone v) else None)"

text \<open>The end of the input completes a number.\<close>

fun jfinish :: "jstate \<Rightarrow> json option" where
  "jfinish ([], MDone v) = Some v"
| "jfinish ([], MNum ns lit) = (if num_accepting ns then Some (JNum (rev lit)) else None)"
| "jfinish s = None"

fun jrun :: "jstate \<Rightarrow> string \<Rightarrow> jstate option" where
  "jrun s [] = Some s"
| "jrun s (c # cs) = (case jstep s c of None \<Rightarrow> None | Some s' \<Rightarrow> jrun s' cs)"

definition json_parse :: "string \<Rightarrow> json option" where
  "json_parse text =
     (case jrun ([], MValue) text of None \<Rightarrow> None | Some s \<Rightarrow> jfinish s)"

text \<open>\<open>Decoder.Decode\<close>: stop at the end of the first value; what follows is not read.\<close>

fun number_ends :: "jstate \<Rightarrow> char \<Rightarrow> bool" where
  "number_ends ([], MNum ns lit) c = (num_accepting ns \<and> num_step ns c = None)"
| "number_ends s c = False"

fun jfirst :: "jstate \<Rightarrow> string \<Rightarrow> json option" where
  "jfirst ([], MDone v) cs = Some v"
| "jfirst s [] = jfinish s"
| "jfirst s (c # cs) =
     (if number_ends s c then jfinish s
      else (case jstep s c of None \<Rightarrow> None | Some s' \<Rightarrow> jfirst s' cs))"

definition json_first :: "string \<Rightarrow> json option" where
  "json_first text = jfirst ([], MValue) text"

end
