(* ===== verification/JsonText.thy ===== *)
theory JsonText
  imports Json
begin

text \<open>
  Reading inverts printing: \<open>json_parse (marshal v)\<close> is \<open>v\<close> with its strings made valid
  UTF-8, for every \<open>v\<close> whose numbers are JSON literals and whose nesting is within the
  scanner's limit. The string lemmas come first, then the run of the scanner over printed
  text, by induction on the printed value with the stack of open containers generalised.
\<close>

subsection \<open>String literals: unquoting inverts escaping\<close>

lemma getu4_not_u: "e \<noteq> CHR ''u'' \<Longrightarrow> getu4 (bslash # e # r) = None"
  by (auto simp: getu4_def split: list.splits)

lemma unquote_simple: "e \<noteq> CHR ''u'' \<Longrightarrow> unquote (bslash # e # r) = unescape e # unquote r"
  by (subst unquote.simps) (simp add: getu4_not_u)

lemma hex_val_hex_digit [simp]: "d < 16 \<Longrightarrow> hex_val (hex_digit d) = Some d"
  by (auto simp: hex_val_def hex_digit_def in_range_def byte_def)

lemma hex_val_0: "hex_val CHR ''0'' = Some 0"
  by (simp add: hex_val_def in_range_def byte_def)

lemma unquote_esc_u:
  assumes "hex_val h1 = Some x1" "hex_val h2 = Some x2" "hex_val h3 = Some x3" "hex_val h4 = Some x4"
    and "\<not> is_surrogate (x1 * 4096 + x2 * 256 + x3 * 16 + x4)"
  shows "unquote (esc_u [h1, h2, h3, h4] @ r) =
    encode_rune (x1 * 4096 + x2 * 256 + x3 * 16 + x4) @ unquote r"
  using assms by (simp add: esc_u_def unquote.simps(2) getu4_def)

lemma bslash_ascii [simp]: "is_ascii bslash"
  by (simp add: is_ascii_def bslash_def byte_def)

lemma unquote_plain: "is_ascii c \<Longrightarrow> c \<noteq> bslash \<Longrightarrow> unquote (c # r) = c # unquote r"
  by (subst unquote.simps) simp

lemma esc_byte_cases:
  obtains e where "esc_byte c = [bslash, e]" "e \<noteq> CHR ''u''" "unescape e = c"
  | "esc_byte c = esc_u [CHR ''0'', CHR ''0'', hex_digit (byte c div 16), hex_digit (byte c mod 16)]"
  | "esc_byte c = [c]" "c \<noteq> bslash" "c \<noteq> dquote" "32 \<le> byte c"
proof (cases "c \<in> {bslash, dquote, CHR 0x08, CHR 0x0C, CHR 0x0A, CHR 0x0D, CHR 0x09}")
  case True
  then consider "c = bslash" | "c = dquote" | "c = CHR 0x08" | "c = CHR 0x0C" | "c = CHR 0x0A"
    | "c = CHR 0x0D" | "c = CHR 0x09" by blast
  then show ?thesis
  proof cases
    case 1
    show ?thesis by (rule that(1) [of bslash]) (simp_all add: 1 esc_byte_def unescape_def bslash_def)
  next
    case 2
    show ?thesis by (rule that(1) [of dquote]) (simp_all add: 2 esc_byte_def unescape_def dquote_def)
  next
    case 3
    show ?thesis by (rule that(1) [of "CHR ''b''"]) (simp_all add: 3 esc_byte_def unescape_def bslash_def dquote_def)
  next
    case 4
    show ?thesis by (rule that(1) [of "CHR ''f''"]) (simp_all add: 4 esc_byte_def unescape_def bslash_def dquote_def)
  next
    case 5
    show ?thesis by (rule that(1) [of "CHR ''n''"]) (simp_all add: 5 esc_byte_def unescape_def bslash_def dquote_def)
  next
    case 6
    show ?thesis by (rule that(1) [of "CHR ''r''"]) (simp_all add: 6 esc_byte_def unescape_def bslash_def dquote_def)
  next
    case 7
    show ?thesis by (rule that(1) [of "CHR ''t''"]) (simp_all add: 7 esc_byte_def unescape_def bslash_def dquote_def)
  qed
next
  case False
  then show ?thesis
    using that(2,3)
    by (cases "byte c < 32 \<or> c = CHR ''<'' \<or> c = CHR ''>'' \<or> c = CHR ''&''")
      (simp_all add: esc_byte_def esc_u_def)
qed

lemma unquote_esc_byte:
  assumes "is_ascii c"
  shows "unquote (esc_byte c @ r) = c # unquote r"
proof (cases rule: esc_byte_cases [of c])
  case (1 e)
  then show ?thesis by (simp add: unquote_simple)
next
  case 2
  have b: "byte c < 128" using assms by (simp add: is_ascii_def)
  have "unquote (esc_u [CHR ''0'', CHR ''0'', hex_digit (byte c div 16), hex_digit (byte c mod 16)] @ r)
      = encode_rune (0 * 4096 + 0 * 256 + byte c div 16 * 16 + byte c mod 16) @ unquote r"
    using b by (intro unquote_esc_u hex_val_hex_digit hex_val_0) (auto simp: is_surrogate_def)
  also have "0 * 4096 + 0 * 256 + byte c div 16 * 16 + byte c mod 16 = byte c" by simp
  also have "encode_rune (byte c) = [c]" using b by (simp add: encode_rune_def)
  finally show ?thesis by (simp add: 2)
next
  case 3
  then show ?thesis using assms by (simp add: unquote_plain)
qed

text \<open>The bytes of one valid non-ASCII rune pass through unquoting.\<close>

lemma unquote_rune:
  assumes "valid_head s" "s \<noteq> []" "\<not> is_ascii (hd s)"
  shows "unquote (take (snd (decode_rune s)) s @ r) = take (snd (decode_rune s)) s @ unquote r"
proof -
  let ?w = "snd (decode_rune s)"
  let ?t = "take ?w s @ r"
  have t: "decode_rune ?t = decode_rune s" "?t \<noteq> []" "hd ?t = hd s" "?w \<le> length s" "0 < ?w"
    using assms decode_rune_width [of s] decode_rune_take [OF assms(1,2)]
      decode_rune_append [of "take ?w s" r]
    by (auto simp: valid_head_def hd_append)
  from t obtain c cs where c: "?t = c # cs" by (cases ?t) auto
  then have hc: "c = hd s" using t(3) by simp
  then have nb: "c \<noteq> bslash" using assms(3) bslash_ascii by metis
  have "unquote ?t = take (snd (decode_rune ?t)) ?t @ unquote (drop (snd (decode_rune ?t) - 1) cs)"
    unfolding c using nb assms(1) t(1) by (simp add: unquote.simps(2) valid_head_def c)
  also have "take (snd (decode_rune ?t)) ?t = take ?w s" using t by simp
  also have "drop (snd (decode_rune ?t) - 1) cs = r"
  proof -
    have "drop (?w - 1) cs = drop ?w (c # cs)" using t(5) by (cases ?w) auto
    also have "\<dots> = r" using c t(4) by (metis append_eq_conv_conj length_take min.absorb2)
    finally show ?thesis using t(1) by simp
  qed
  finally show ?thesis .
qed

lemma drop_width: "drop (snd (decode_rune (c # cs)) - 1) cs = drop (snd (decode_rune (c # cs))) (c # cs)"
  using decode_rune_width_pos [of c cs] by (cases "snd (decode_rune (c # cs))") auto

text \<open>The equations of escaping and of validation on a rune that is not ASCII.\<close>

lemma esc_string_valid:
  "\<not> is_ascii c \<Longrightarrow> valid_head (c # cs) \<Longrightarrow>
   esc_string (c # cs) =
     (if fst (decode_rune (c # cs)) = 8232 then esc_u ''2028''
      else if fst (decode_rune (c # cs)) = 8233 then esc_u ''2029''
      else take (snd (decode_rune (c # cs))) (c # cs))
     @ esc_string (drop (snd (decode_rune (c # cs))) (c # cs))"
  by (simp only: esc_string.simps(2) drop_width if_True if_False)

lemma to_valid_valid:
  "valid_head (c # cs) \<Longrightarrow>
   to_valid (c # cs) = take (snd (decode_rune (c # cs))) (c # cs)
     @ to_valid (drop (snd (decode_rune (c # cs))) (c # cs))"
  by (simp only: to_valid.simps(2) if_True)

lemma unquote_2028: "unquote (esc_u ''2028'' @ r) = encode_rune 8232 @ unquote r"
  and unquote_2029: "unquote (esc_u ''2029'' @ r) = encode_rune 8233 @ unquote r"
  and unquote_fffd: "unquote (esc_u ''fffd'' @ r) = encode_rune rune_error @ unquote r"
  by (simp_all add: unquote_esc_u hex_val_def in_range_def byte_def is_surrogate_def rune_error_def)

theorem unquote_esc_string: "unquote (esc_string s) = to_valid s"
proof (induction s rule: esc_string.induct)
  case 1
  show ?case by simp
next
  case (2 c cs)
  let ?s = "c # cs"
  show ?case
  proof (cases "is_ascii c")
    case True
    then show ?thesis using 2 by (simp add: esc_string.simps(2) unquote_esc_byte)
  next
    case na: False
    show ?thesis
    proof (cases "valid_head ?s")
      case False
      then show ?thesis
        using 2(3) na by (simp add: esc_string.simps(2) unquote_fffd to_valid.simps(2))
    next
      case True
      have e: "encode_rune (fst (decode_rune ?s)) = take (snd (decode_rune ?s)) ?s"
        using True by (simp add: encode_decode_rune)
      have u: "unquote (take (snd (decode_rune ?s)) ?s @ r) = take (snd (decode_rune ?s)) ?s @ unquote r" for r
        using True na by (intro unquote_rune) auto
      show ?thesis
        unfolding esc_string_valid [OF na True] to_valid_valid [OF True]
        using 2(2) [OF na True, unfolded drop_width] e u
        by (auto simp: unquote_2028 unquote_2029)
    qed
  qed
qed

subsection \<open>Scanning what was printed\<close>

lemma jrun_append: "jrun s (xs @ ys) = (case jrun s xs of None \<Rightarrow> None | Some s' \<Rightarrow> jrun s' ys)"
  by (induction xs arbitrary: s) (auto split: option.splits)

lemma jrun_snoc_step: "jrun s xs = Some s' \<Longrightarrow> jrun s (xs @ ys) = jrun s' ys"
  by (simp add: jrun_append)

text \<open>A string body: every escaped byte leaves the scanner between characters.\<close>

definition body_ok :: "string \<Rightarrow> bool" where
  "body_ok t = (\<forall>st raw. jrun (st, MStr SBody raw) t = Some (st, MStr SBody (rev t @ raw)))"

lemma body_ok_Nil [simp]: "body_ok []"
  by (simp add: body_ok_def)

lemma body_ok_append: "body_ok xs \<Longrightarrow> body_ok ys \<Longrightarrow> body_ok (xs @ ys)"
  by (simp add: body_ok_def jrun_append)

lemma body_ok_plain: "c \<noteq> bslash \<Longrightarrow> c \<noteq> dquote \<Longrightarrow> 32 \<le> byte c \<Longrightarrow> body_ok [c]"
  by (simp add: body_ok_def str_step_def)

lemma body_ok_bytes: "\<forall>c \<in> set t. 128 \<le> byte c \<Longrightarrow> body_ok t"
proof (induction t)
  case (Cons c t)
  then have "body_ok [c]"
    by (intro body_ok_plain) (auto simp: bslash_def dquote_def byte_def)
  moreover have "body_ok t" using Cons by simp
  ultimately show ?case using body_ok_append [of "[c]" t] by simp
qed simp

lemma body_ok_esc_u:
  "hex_val h1 \<noteq> None \<Longrightarrow> hex_val h2 \<noteq> None \<Longrightarrow> hex_val h3 \<noteq> None \<Longrightarrow> hex_val h4 \<noteq> None \<Longrightarrow>
   body_ok (esc_u [h1, h2, h3, h4])"
  by (simp add: body_ok_def str_step_def esc_u_def bslash_def dquote_def)

lemma body_ok_esc: "e \<in> set [CHR ''b'', CHR ''f'', CHR ''n'', CHR ''r'', CHR ''t'', bslash, CHR ''/'', dquote]
  \<Longrightarrow> body_ok [bslash, e]"
  by (auto simp: body_ok_def str_step_def bslash_def dquote_def)

lemma esc_byte_short: "esc_byte c = [bslash, e] \<Longrightarrow>
  e \<in> set [CHR ''b'', CHR ''f'', CHR ''n'', CHR ''r'', CHR ''t'', bslash, CHR ''/'', dquote]"
  by (auto simp: esc_byte_def split: if_splits)

lemma body_ok_esc_byte: "is_ascii c \<Longrightarrow> body_ok (esc_byte c)"
proof (cases rule: esc_byte_cases [of c])
  case (1 e)
  then show ?thesis using esc_byte_short [of c e] body_ok_esc [of e] by simp
next
  case 2
  assume "is_ascii c"
  then show ?thesis
    unfolding 2 by (intro body_ok_esc_u) (auto simp: hex_val_0 is_ascii_def)
next
  case 3
  then show ?thesis by (simp add: body_ok_plain)
qed

lemma rune_bytes_high:
  assumes "valid_head s" "s \<noteq> []" "\<not> is_ascii (hd s)" "c \<in> set (take (snd (decode_rune s)) s)"
  shows "128 \<le> byte c"
  using assms
  by (cases rule: valid_head_cases)
    (auto simp: decode_rune_shapes in_range_def is_cont_def second_ok_def split: if_splits)

lemma body_ok_esc_string: "body_ok (esc_string s)"
proof (induction s rule: esc_string.induct)
  case 1
  show ?case by simp
next
  case (2 c cs)
  have u: "body_ok (esc_u ''2028'')" "body_ok (esc_u ''2029'')" "body_ok (esc_u ''fffd'')"
    by (rule body_ok_esc_u; simp add: hex_val_def in_range_def byte_def)+
  show ?case
  proof (cases "is_ascii c")
    case True
    then show ?thesis using 2 by (simp add: esc_string.simps(2) body_ok_append body_ok_esc_byte)
  next
    case na: False
    show ?thesis
    proof (cases "valid_head (c # cs)")
      case False
      then show ?thesis using 2(3) na u by (simp add: esc_string.simps(2) body_ok_append)
    next
      case True
      have "body_ok (take (snd (decode_rune (c # cs))) (c # cs))"
        using rune_bytes_high [of "c # cs"] True na by (intro body_ok_bytes) auto
      then show ?thesis
        unfolding esc_string_valid [OF na True]
        using 2(2) [OF na True, unfolded drop_width] u by (auto intro!: body_ok_append)
    qed
  qed
qed

text \<open>A quoted string after its opening quote closes with its validated text.\<close>

lemma jrun_quote:
  assumes "jstep s dquote = Some (st, MStr SBody [])" "close_string (esc_string k) st = Some s'"
  shows "jrun s (quote k @ r) = jrun s' r"
proof -
  have "jrun (st, MStr SBody []) (esc_string k) = Some (st, MStr SBody (rev (esc_string k)))"
    using body_ok_esc_string [of k] by (simp add: body_ok_def)
  then show ?thesis
    using assms by (simp add: quote_def jrun_append str_step_def)
qed

subsection \<open>Numbers, canonical strings and nesting\<close>

fun num_run :: "num_state \<Rightarrow> string \<Rightarrow> num_state option" where
  "num_run ns [] = Some ns"
| "num_run ns (c # cs) = (case num_step ns c of None \<Rightarrow> None | Some ns' \<Rightarrow> num_run ns' cs)"

definition num_start :: "char \<Rightarrow> num_state option" where
  "num_start c =
     (if c = CHR ''-'' then Some NNeg else if c = CHR ''0'' then Some NZero
      else if is_digit c then Some NInt else None)"

text \<open>A literal of the JSON number grammar.\<close>

definition valid_number :: "string \<Rightarrow> bool" where
  "valid_number t =
     (case t of
        [] \<Rightarrow> False
      | c # cs \<Rightarrow>
          (case num_start c of
             None \<Rightarrow> False
           | Some ns \<Rightarrow>
               (case num_run ns cs of None \<Rightarrow> False | Some ns' \<Rightarrow> num_accepting ns')))"

fun canon :: "json \<Rightarrow> json" and canon_elems :: "json list \<Rightarrow> json list"
  and canon_members :: "(string \<times> json) list \<Rightarrow> (string \<times> json) list" where
  "canon (JStr s) = JStr (to_valid s)"
| "canon (JArr vs) = JArr (canon_elems vs)"
| "canon (JObj ms) = JObj (canon_members ms)"
| "canon JNull = JNull"
| "canon (JBool b) = JBool b"
| "canon (JNum t) = JNum t"
| "canon_elems [] = []"
| "canon_elems (v # vs) = canon v # canon_elems vs"
| "canon_members [] = []"
| "canon_members ((k, v) # ms) = (to_valid k, canon v) # canon_members ms"

fun numbers_ok :: "json \<Rightarrow> bool" and numbers_ok_elems :: "json list \<Rightarrow> bool"
  and numbers_ok_members :: "(string \<times> json) list \<Rightarrow> bool" where
  "numbers_ok (JNum t) = valid_number t"
| "numbers_ok (JArr vs) = numbers_ok_elems vs"
| "numbers_ok (JObj ms) = numbers_ok_members ms"
| "numbers_ok JNull = True"
| "numbers_ok (JBool b) = True"
| "numbers_ok (JStr s) = True"
| "numbers_ok_elems [] = True"
| "numbers_ok_elems (v # vs) = (numbers_ok v \<and> numbers_ok_elems vs)"
| "numbers_ok_members [] = True"
| "numbers_ok_members ((k, v) # ms) = (numbers_ok v \<and> numbers_ok_members ms)"

fun depth :: "json \<Rightarrow> nat" and depth_elems :: "json list \<Rightarrow> nat"
  and depth_members :: "(string \<times> json) list \<Rightarrow> nat" where
  "depth (JArr vs) = Suc (depth_elems vs)"
| "depth (JObj ms) = Suc (depth_members ms)"
| "depth JNull = 0"
| "depth (JBool b) = 0"
| "depth (JStr s) = 0"
| "depth (JNum t) = 0"
| "depth_elems [] = 0"
| "depth_elems (v # vs) = max (depth v) (depth_elems vs)"
| "depth_members [] = 0"
| "depth_members ((k, v) # ms) = max (depth v) (depth_members ms)"

definition is_delim :: "char \<Rightarrow> bool" where
  "is_delim d = (d = CHR '','' \<or> d = CHR '']'' \<or> d = CHR ''}'' \<or> is_ws d)"

lemma num_step_delim: "is_delim d \<Longrightarrow> num_step ns d = None"
  by (cases ns) (auto simp: is_delim_def is_ws_def is_digit_def)

text \<open>What follows a number must end it; any text may follow another value.\<close>

definition ends_ok :: "json \<Rightarrow> string \<Rightarrow> bool" where
  "ends_ok v r =
     (case v of JNum t \<Rightarrow> (case r of [] \<Rightarrow> False | d # _ \<Rightarrow> is_delim d) | _ \<Rightarrow> True)"

lemma ends_ok_delim [simp]: "is_delim d \<Longrightarrow> ends_ok v (d # r)"
  by (simp add: ends_ok_def split: json.split)

lemma is_delim_simps [simp]: "is_delim CHR '',''" "is_delim CHR '']''" "is_delim CHR ''}''"
  by (simp_all add: is_delim_def)

lemma jrun_num:
  "num_run ns t = Some ns' \<Longrightarrow> jrun (st, MNum ns lit) (t @ r) = jrun (st, MNum ns' (rev t @ lit)) r"
  by (induction t arbitrary: ns lit) (auto split: option.splits)

lemma close_value_mode:
  "close_value v st = Some (st', m) \<Longrightarrow> m = MEnd \<or> m = MDone v \<and> st' = []"
  by (cases "(v, st)" rule: close_value.cases) auto

lemma jstep_num_delim:
  assumes "num_accepting ns" "is_delim d" "close_value (JNum (rev lit)) st = Some s'"
  shows "jstep (st, MNum ns lit) d = jstep s' d"
  using assms close_value_mode [of "JNum (rev lit)" st "fst s'" "snd s'"]
  by (cases s') (auto simp: num_step_delim)

lemma digit_not_special:
  assumes "is_digit c"
  shows "\<not> is_ws c" "c \<noteq> dquote" "c \<noteq> CHR ''{''" "c \<noteq> CHR ''[''" "c \<noteq> CHR '']''" "c \<noteq> CHR ''-''"
  using assms by (auto simp: is_digit_def is_ws_def dquote_def)

lemma begin_number:
  assumes "num_start c = Some ns"
  shows "begin_value st c = Some (st, MNum ns [c])" "\<not> is_ws c" "c \<noteq> CHR '']''"
proof -
  consider "c = CHR ''-''" | "c = CHR ''0''" | "is_digit c" "c \<noteq> CHR ''0''"
    using assms by (auto simp: num_start_def split: if_splits)
  then have "begin_value st c = Some (st, MNum ns [c]) \<and> \<not> is_ws c \<and> c \<noteq> CHR '']''"
  proof cases
    case 1
    then show ?thesis using assms by (simp add: num_start_def begin_value_def is_ws_def dquote_def)
  next
    case 2
    then show ?thesis using assms by (simp add: num_start_def begin_value_def is_ws_def dquote_def)
  next
    case 3
    note n = digit_not_special [OF 3(1)]
    show ?thesis using assms 3 n by (simp add: num_start_def begin_value_def)
  qed
  then show "begin_value st c = Some (st, MNum ns [c])" "\<not> is_ws c" "c \<noteq> CHR '']''" by blast+
qed

lemma scan_number:
  assumes "valid_number t" "is_delim d" "close_value (JNum t) st = Some s'"
  shows "jrun (st, MValue) (t @ d # r) = jrun s' (d # r)"
proof -
  from assms(1) obtain c cs ns ns' where t: "t = c # cs" "num_start c = Some ns"
    "num_run ns cs = Some ns'" "num_accepting ns'"
    by (auto simp: valid_number_def split: list.splits option.splits)
  have "jrun (st, MValue) (t @ d # r) = jrun (st, MNum ns' (rev t)) (d # r)"
    using t(1) begin_number(1,2) [OF t(2)] jrun_num [OF t(3)] by simp
  also have "\<dots> = jrun s' (d # r)"
    using jstep_num_delim [of ns' d "rev t" st s'] t assms by simp
  finally show ?thesis .
qed

lemma scan_literal:
  "rest \<noteq> [] \<Longrightarrow> close_value v st = Some s' \<Longrightarrow> jrun (st, MLit rest v) (rest @ r) = jrun s' r"
proof (induction rest)
  case (Cons c rest)
  then show ?case by (cases rest) auto
qed simp

lemma close_string_value:
  "close_value (JStr (to_valid k)) st = Some s' \<Longrightarrow> close_string (esc_string k) st = Some s'"
  by (cases st; cases "hd st") (auto simp: unquote_esc_string)

text \<open>The first character of a printed value starts a value.\<close>

lemma marshal_first:
  "numbers_ok v \<Longrightarrow> marshal v \<noteq> [] \<and> \<not> is_ws (hd (marshal v)) \<and> hd (marshal v) \<noteq> CHR '']''"
proof (cases v)
  case (JNum t)
  assume "numbers_ok v"
  with JNum show ?thesis
    using begin_number(2,3) by (auto simp: valid_number_def split: list.splits option.splits)
next
  case (JStr s)
  then show ?thesis by (simp add: quote_def dquote_def is_ws_def)
qed (simp_all add: is_ws_def)

lemma jrun_value_or_end:
  assumes "numbers_ok v"
  shows "jrun (st, MValueOrEnd) (marshal v @ r) = jrun (st, MValue) (marshal v @ r)"
proof -
  from marshal_first [OF assms] obtain c cs where "marshal v = c # cs" "\<not> is_ws c" "c \<noteq> CHR '']''"
    by (cases "marshal v") auto
  then show ?thesis by simp
qed

lemma jrun_key_or_end:
  "jrun (st, MKeyOrEnd) (quote k @ r) = jrun (st, MKey) (quote k @ r)"
  by (simp add: quote_def is_ws_def dquote_def)

lemma scan_key:
  "jrun (FKey acc # st, MKey) (quote k @ CHR '':'' # r) = jrun (FVal acc (to_valid k) # st, MValue) r"
proof -
  have "jrun (FKey acc # st, MKey) (quote k @ CHR '':'' # r)
      = jrun (FVal acc (to_valid k) # st, MColon) (CHR '':'' # r)"
    by (rule jrun_quote [of _ "FKey acc # st"]) (simp_all add: is_ws_def dquote_def unquote_esc_string)
  then show ?thesis by (simp add: is_ws_def)
qed

theorem scan_marshal:
  "numbers_ok v \<Longrightarrow> length st + depth v \<le> max_depth \<Longrightarrow> ends_ok v r \<Longrightarrow>
   close_value (canon v) st = Some s' \<Longrightarrow>
   jrun (st, MValue) (marshal v @ r) = jrun s' r"
  "vs \<noteq> [] \<Longrightarrow> numbers_ok_elems vs \<Longrightarrow> Suc (length st) + depth_elems vs \<le> max_depth \<Longrightarrow>
   close_value (JArr (rev acc @ canon_elems vs)) st = Some s' \<Longrightarrow>
   jrun (FArr acc # st, MValue) (marshal_elems vs @ CHR '']'' # r) = jrun s' r"
  "ms \<noteq> [] \<Longrightarrow> numbers_ok_members ms \<Longrightarrow> Suc (length st) + depth_members ms \<le> max_depth \<Longrightarrow>
   close_value (JObj (rev acc' @ canon_members ms)) st = Some s' \<Longrightarrow>
   jrun (FKey acc' # st, MKey) (marshal_members ms @ CHR ''}'' # r) = jrun s' r"
proof (induction v and vs and ms arbitrary: st s' r and st acc s' r and st acc' s' r
    rule: marshal_marshal_elems_marshal_members.induct)
  case 1
  then show ?case by (simp add: begin_value_def is_ws_def dquote_def is_digit_def)
next
  case (2 b)
  then show ?case by (cases b) (simp_all add: begin_value_def is_ws_def dquote_def is_digit_def)
next
  case (3 t)
  then show ?case by (auto simp: ends_ok_def scan_number split: list.splits)
next
  case (4 s)
  have "jrun (st, MValue) (quote s @ r) = jrun s' r"
    using 4 by (intro jrun_quote [of _ st] close_string_value)
      (simp_all add: begin_value_def is_ws_def dquote_def)
  then show ?case by simp
next
  case (5 vs)
  have push: "jstep (st, MValue) CHR ''['' = Some (FArr [] # st, MValueOrEnd)"
    using 5(3) by (simp add: begin_value_def push_frame_def is_ws_def dquote_def)
  show ?case
  proof (cases vs)
    case Nil
    then show ?thesis using 5 push by (simp add: is_ws_def)
  next
    case (Cons v vs')
    have nv: "numbers_ok v" using 5(2) Cons by simp
    have "jrun (FArr [] # st, MValue) (marshal_elems vs @ CHR '']'' # r) = jrun s' r"
      using 5 Cons by (intro "5.IH") auto
    moreover have "jrun (FArr [] # st, MValueOrEnd) (marshal_elems vs @ CHR '']'' # r)
        = jrun (FArr [] # st, MValue) (marshal_elems vs @ CHR '']'' # r)"
      unfolding Cons by (simp add: jrun_value_or_end [OF nv])
    ultimately show ?thesis using push by simp
  qed
next
  case (6 ms)
  have push: "jstep (st, MValue) CHR ''{'' = Some (FKey [] # st, MKeyOrEnd)"
    using 6(3) by (simp add: begin_value_def push_frame_def is_ws_def dquote_def)
  show ?case
  proof (cases ms)
    case Nil
    then show ?thesis using 6 push by (simp add: is_ws_def dquote_def)
  next
    case (Cons kv ms')
    have "jrun (FKey [] # st, MKey) (marshal_members ms @ CHR ''}'' # r) = jrun s' r"
      using 6 Cons by (intro "6.IH") auto
    moreover have "jrun (FKey [] # st, MKeyOrEnd) (marshal_members ms @ CHR ''}'' # r)
        = jrun (FKey [] # st, MKey) (marshal_members ms @ CHR ''}'' # r)"
      unfolding Cons by (cases kv) (simp add: jrun_key_or_end)
    ultimately show ?thesis using push by simp
  qed
next
  case 7
  then show ?case by simp
next
  case (8 v vs)
  show ?case
  proof (cases "vs = []")
    case True
    have "jrun (FArr acc # st, MValue) (marshal v @ CHR '']'' # r)
        = jrun (FArr (canon v # acc) # st, MEnd) (CHR '']'' # r)"
      using 8 True by (intro "8.IH"(1)) auto
    then show ?thesis using 8 True by (simp add: is_ws_def)
  next
    case False
    have "jrun (FArr acc # st, MValue) (marshal v @ CHR '','' # marshal_elems vs @ CHR '']'' # r)
        = jrun (FArr (canon v # acc) # st, MEnd) (CHR '','' # marshal_elems vs @ CHR '']'' # r)"
      using 8 False by (intro "8.IH"(1)) auto
    moreover have "jrun (FArr (canon v # acc) # st, MValue) (marshal_elems vs @ CHR '']'' # r) = jrun s' r"
      using 8 False by (intro "8.IH"(2)) auto
    ultimately show ?thesis using False by (simp add: is_ws_def)
  qed
next
  case 9
  then show ?case by simp
next
  case (10 k v ms)
  let ?f = "FVal acc' (to_valid k)"
  show ?case
  proof (cases "ms = []")
    case True
    have "jrun (?f # st, MValue) (marshal v @ CHR ''}'' # r)
        = jrun (FObj ((to_valid k, canon v) # acc') # st, MEnd) (CHR ''}'' # r)"
      using 10 True by (intro "10.IH"(1)) auto
    then show ?thesis using 10 True by (simp add: is_ws_def scan_key)
  next
    case False
    have "jrun (?f # st, MValue) (marshal v @ CHR '','' # marshal_members ms @ CHR ''}'' # r)
        = jrun (FObj ((to_valid k, canon v) # acc') # st, MEnd) (CHR '','' # marshal_members ms @ CHR ''}'' # r)"
      using 10 False by (intro "10.IH"(1)) auto
    moreover have "jrun (FKey ((to_valid k, canon v) # acc') # st, MKey) (marshal_members ms @ CHR ''}'' # r) = jrun s' r"
      using 10 False by (intro "10.IH"(2)) auto
    ultimately show ?thesis using False by (simp add: is_ws_def scan_key)
  qed
qed

lemmas scan_value = scan_marshal(1)

subsection \<open>Reading inverts printing\<close>

lemma json_parse_marshal:
  assumes "numbers_ok v" "depth v \<le> max_depth"
  shows "json_parse (marshal v) = Some (canon v)"
proof (cases v)
  case (JNum t)
  then obtain c cs ns ns' where t: "t = c # cs" "num_start c = Some ns"
    "num_run ns cs = Some ns'" "num_accepting ns'"
    using assms(1) by (auto simp: valid_number_def split: list.splits option.splits)
  show ?thesis
    using JNum t begin_number(1,2) [OF t(2)] jrun_num [OF t(3), of "[]" "[c]" "[]"]
    by (simp add: json_parse_def)
qed (use assms scan_value [of v "[]" "[]" "([], MDone (canon v))"] in
    \<open>auto simp: json_parse_def ends_ok_def\<close>)

text \<open>The stream reader stops where the whole-text reader is done.\<close>

lemma jrun_done: "jrun ([], MDone w) xs = Some s \<Longrightarrow> s = ([], MDone w)"
  by (induction xs) (auto split: if_splits)

lemma jfirst_of_jrun: "jrun s xs = Some ([], MDone v) \<Longrightarrow> jfirst s (xs @ ys) = Some v"
proof (induction xs arbitrary: s)
  case Nil
  then show ?case by (cases ys) auto
next
  case (Cons c xs)
  obtain st m where s: "s = (st, m)" by (cases s)
  from Cons.prems obtain s' where s': "jstep s c = Some s'" "jrun s' xs = Some ([], MDone v)"
    by (auto split: option.splits)
  show ?case
  proof (cases "\<exists>w. s = ([], MDone w)")
    case True
    then show ?thesis using jrun_done [of _ "c # xs"] Cons.prems by fastforce
  next
    case nd: False
    have step: "jfirst s ((c # xs) @ ys) =
        (if number_ends s c then jfinish s
         else (case jstep s c of None \<Rightarrow> None | Some s' \<Rightarrow> jfirst s' (xs @ ys)))"
      using nd s by (cases st; cases m) auto
    show ?thesis
    proof (cases "number_ends s c")
      case True
      then obtain ns lit where n: "s = ([], MNum ns lit)" "num_accepting ns" "num_step ns c = None"
        by (cases "(s, c)" rule: number_ends.cases) auto
      with s' have "s' = ([], MDone (JNum (rev lit)))"
        by (auto split: if_splits)
      with s'(2) jrun_done have "v = JNum (rev lit)" by fastforce
      with True step n show ?thesis by simp
    next
      case False
      with step s' Cons.IH show ?thesis by simp
    qed
  qed
qed

lemma json_first_marshal:
  assumes "numbers_ok v" "depth v \<le> max_depth" "\<forall>t. v \<noteq> JNum t"
  shows "json_first (marshal v @ rest) = Some (canon v)"
proof -
  have "ends_ok v []" using assms(3) by (simp add: ends_ok_def split: json.split)
  then have "jrun ([], MValue) (marshal v @ []) = Some ([], MDone (canon v))"
    using assms by (subst scan_value [where s' = "([], MDone (canon v))"]) auto
  then show ?thesis by (simp add: json_first_def jfirst_of_jrun)
qed

subsection \<open>Printed integers are number literals\<close>

lemma num_run_digits: "\<forall>c \<in> set cs. is_digit c \<Longrightarrow> num_run NInt cs = Some NInt"
  by (induction cs) auto

lemma show_nat_head: "0 < n \<Longrightarrow> hd (show_nat n) \<noteq> CHR ''0''"
proof (induction n rule: show_nat.induct)
  case (1 n)
  show ?case
  proof (cases "n < 10")
    case True
    have "digit_char n \<noteq> CHR ''0''"
    proof
      assume "digit_char n = CHR ''0''"
      then have "(of_char (CHR ''0'') :: nat) = 48 + n"
        using of_char_digit [OF True] by (simp only:)
      with 1(2) show False by simp
    qed
    with True show ?thesis by (subst show_nat.simps) simp
  next
    case False
    then have "hd (show_nat (n div 10)) \<noteq> CHR ''0''" using 1(1) by simp
    with False show ?thesis by (subst show_nat.simps) (simp add: hd_append)
  qed
qed

lemma show_nat_0: "show_nat 0 = ''0''"
  by (subst show_nat.simps) (simp add: digit_char_def char_of_eqI byte_def)

lemma valid_number_itoa: "valid_number (itoa i)"
proof -
  have pos: "num_start (hd (show_nat n)) = Some NInt \<and> num_step NNeg (hd (show_nat n)) = Some NInt
      \<and> num_run NInt (tl (show_nat n)) = Some NInt" if "0 < n" for n
  proof -
    have d: "is_digit (hd (show_nat n))" "\<forall>c \<in> set (tl (show_nat n)). is_digit c"
      using show_nat_digits [of n] by (auto simp: hd_in_set dest: list.set_sel(2) [rotated])
    then show ?thesis
      using show_nat_head [OF that] show_nat_hd [of n] by (simp add: num_start_def num_run_digits)
  qed
  consider "i = 0" | "0 < i" | "i < 0" by linarith
  then show ?thesis
  proof cases
    case 1
    then show ?thesis
      by (simp add: itoa_def show_nat_0 valid_number_def num_start_def num_accepting_def)
  next
    case 2
    then show ?thesis
      using pos [of "nat i"]
      by (cases "show_nat (nat i)") (auto simp: itoa_def valid_number_def num_accepting_def)
  next
    case 3
    then show ?thesis
      using pos [of "nat (- i)"]
      by (cases "show_nat (nat (- i))")
        (auto simp: itoa_def valid_number_def num_accepting_def num_start_def)
  qed
qed
end
