(* ===== verification/JsonDecode.thy ===== *)
theory JsonDecode
  imports JsonText
begin

text \<open>
  How \<open>json.Unmarshal\<close> stores a value into a Go variable. A decoder takes the JSON value
  and the variable's old value and returns the new one, or \<open>None\<close> for a type mismatch
  (every caller in the relay discards the variable when \<open>Unmarshal\<close> returns an error, so
  what else was stored does not matter). \<open>null\<close> leaves a string, an integer or a struct
  as it was and clears a map, a slice or an interface. Struct keys match without regard to
  case, repeated keys are stored in turn, unknown keys are skipped.
\<close>

type_synonym 'a decoder = "json \<Rightarrow> 'a \<Rightarrow> 'a option"

text \<open>
  \<open>foldName\<close>, up to equality with an ASCII name: letters go to upper case, and the two
  non-ASCII runes that fold to ASCII letters (U+017F to S, U+212A to K) go to those.
\<close>

definition upper_byte :: "char \<Rightarrow> char" where
  "upper_byte c = (if in_range 97 122 c then char_of (byte c - 32) else c)"

fun fold_name :: "string \<Rightarrow> string" where
  "fold_name [] = []"
| "fold_name (c # cs) =
     (if c = CHR 0xC5 \<and> take 1 cs = [CHR 0xBF] then CHR ''S'' # fold_name (drop 1 cs)
      else if c = CHR 0xE2 \<and> take 2 cs = [CHR 0x84, CHR 0xAA] then CHR ''K'' # fold_name (drop 2 cs)
      else upper_byte c # fold_name cs)"

definition dec_string :: "string decoder" where
  "dec_string j old = (case j of JStr s \<Rightarrow> Some s | JNull \<Rightarrow> Some old | _ \<Rightarrow> None)"

definition dec_int :: "int decoder" where
  "dec_int j old = (case j of JNum t \<Rightarrow> parse_int64 t | JNull \<Rightarrow> Some old | _ \<Rightarrow> None)"

text \<open>The decoder of the field a key names; a key that names none is skipped.\<close>

fun field_decoder :: "(string \<times> 'r decoder) list \<Rightarrow> string \<Rightarrow> 'r decoder option" where
  "field_decoder [] k = None"
| "field_decoder ((name, d) # fs) k =
     (if fold_name name = fold_name k then Some d else field_decoder fs k)"

fun dec_members :: "(string \<times> 'r decoder) list \<Rightarrow> (string \<times> json) list \<Rightarrow> 'r \<Rightarrow> 'r option" where
  "dec_members fs [] r = Some r"
| "dec_members fs ((k, v) # ms) r =
     (case field_decoder fs k of
        None \<Rightarrow> dec_members fs ms r
      | Some d \<Rightarrow> (case d v r of None \<Rightarrow> None | Some r' \<Rightarrow> dec_members fs ms r'))"

text \<open>The decoder of one field of a struct, by its selector and its update.\<close>

definition dec_field :: "('r \<Rightarrow> 'a) \<Rightarrow> (('a \<Rightarrow> 'a) \<Rightarrow> 'r \<Rightarrow> 'r) \<Rightarrow> 'a decoder \<Rightarrow> 'r decoder" where
  "dec_field sel upd d j r = map_option (\<lambda>x. upd (\<lambda>_. x) r) (d j (sel r))"

definition dec_struct :: "(string \<times> 'r decoder) list \<Rightarrow> 'r decoder" where
  "dec_struct fs j r =
     (case j of JObj ms \<Rightarrow> dec_members fs ms r | JNull \<Rightarrow> Some r | _ \<Rightarrow> None)"

text \<open>A slice: element \<open>i\<close> is decoded over the old element \<open>i\<close>, or over the zero value.\<close>

fun dec_elems :: "'a decoder \<Rightarrow> 'a \<Rightarrow> json list \<Rightarrow> 'a list \<Rightarrow> 'a list option" where
  "dec_elems d zero [] olds = Some []"
| "dec_elems d zero (v # vs) olds =
     (case d v (case olds of [] \<Rightarrow> zero | x # _ \<Rightarrow> x) of
        None \<Rightarrow> None
      | Some x' \<Rightarrow>
          (case dec_elems d zero vs (drop 1 olds) of None \<Rightarrow> None | Some xs \<Rightarrow> Some (x' # xs)))"

definition dec_list :: "'a decoder \<Rightarrow> 'a \<Rightarrow> 'a list decoder" where
  "dec_list d zero j olds =
     (case j of JArr vs \<Rightarrow> dec_elems d zero vs olds | JNull \<Rightarrow> Some [] | _ \<Rightarrow> None)"

text \<open>A map: each member is decoded over the zero value and stored under its key.\<close>

fun dec_map_members :: "'a decoder \<Rightarrow> 'a \<Rightarrow> (string \<times> json) list \<Rightarrow> 'a gmap \<Rightarrow> 'a gmap option" where
  "dec_map_members d zero [] m = Some m"
| "dec_map_members d zero ((k, v) # ms) m =
     (case d v zero of None \<Rightarrow> None | Some x \<Rightarrow> dec_map_members d zero ms (map_set k x m))"

definition dec_map :: "'a decoder \<Rightarrow> 'a \<Rightarrow> 'a gmap decoder" where
  "dec_map d zero j m =
     (case j of JObj ms \<Rightarrow> dec_map_members d zero ms m | JNull \<Rightarrow> Some [] | _ \<Rightarrow> None)"

text \<open>
  \<open>interface{}\<close>: objects become maps (canonical, the last of repeated keys wins), and a
  number must be within the range of a float64. The value is kept as its literal.
\<close>

fun split_exp :: "string \<Rightarrow> string \<times> string" where
  "split_exp [] = ([], [])"
| "split_exp (c # cs) =
     (if c = CHR ''e'' \<or> c = CHR ''E'' then ([], cs) else (let (m, e) = split_exp cs in (c # m, e)))"

definition digits_of :: "string \<Rightarrow> nat" where
  "digits_of s = (case read_digits 0 (filter is_digit s) of None \<Rightarrow> 0 | Some n \<Rightarrow> n)"

definition exp_of :: "string \<Rightarrow> int" where
  "exp_of e = (if take 1 e = ''-'' then - int (digits_of e) else int (digits_of e))"

text \<open>The literal is \<open>digits * 10 ^ scale\<close>, without its sign.\<close>

definition literal_scale :: "string \<Rightarrow> int" where
  "literal_scale t =
     (let (m, e) = split_exp t
      in exp_of e - int (length (drop 1 (dropWhile (\<lambda>c. c \<noteq> CHR ''.'') m))))"

definition float64_overflow :: nat where
  "float64_overflow = 2 ^ 1024 - 2 ^ 970"

definition float64_in_range :: "string \<Rightarrow> bool" where
  "float64_in_range t =
     (let n = digits_of (fst (split_exp t)); s = literal_scale t
      in if 0 \<le> s then n * 10 ^ nat s < float64_overflow
         else n < float64_overflow * 10 ^ nat (- s))"

fun any_of :: "json \<Rightarrow> json option" and any_elems :: "json list \<Rightarrow> json list option"
  and any_members :: "(string \<times> json) list \<Rightarrow> json gmap \<Rightarrow> json gmap option" where
  "any_of (JNum t) = (if float64_in_range t then Some (JNum t) else None)"
| "any_of (JArr vs) = map_option JArr (any_elems vs)"
| "any_of (JObj ms) = map_option JObj (any_members ms [])"
| "any_of JNull = Some JNull"
| "any_of (JBool b) = Some (JBool b)"
| "any_of (JStr s) = Some (JStr s)"
| "any_elems [] = Some []"
| "any_elems (v # vs) =
     (case any_of v of None \<Rightarrow> None | Some x \<Rightarrow> map_option ((#) x) (any_elems vs))"
| "any_members [] m = Some m"
| "any_members ((k, v) # ms) m =
     (case any_of v of None \<Rightarrow> None | Some x \<Rightarrow> any_members ms (map_set k x m))"

definition dec_any :: "json decoder" where
  "dec_any j old = any_of j"

text \<open>\<open>json.Unmarshal\<close> into a variable that holds \<open>zero\<close>.\<close>

definition unmarshal :: "'a decoder \<Rightarrow> 'a \<Rightarrow> string \<Rightarrow> 'a option" where
  "unmarshal d zero text = (case json_parse text of None \<Rightarrow> None | Some j \<Rightarrow> d j zero)"

subsection \<open>Decoding what was printed\<close>

lemma unmarshal_marshal:
  "numbers_ok v \<Longrightarrow> depth v \<le> max_depth \<Longrightarrow> unmarshal d zero (marshal v) = d (canon v) zero"
  by (simp add: unmarshal_def json_parse_marshal)

lemma unmarshal_empty [simp]: "unmarshal d zero [] = None"
  by (simp add: unmarshal_def json_parse_def)

lemmas decode_defs = dec_string_def dec_int_def dec_field_def dec_struct_def dec_list_def dec_map_def dec_any_def

lemma wf_dec_map_members: "wf_map m \<Longrightarrow> dec_map_members d zero ms m = Some m' \<Longrightarrow> wf_map m'"
  by (induction d zero ms m arbitrary: m' rule: dec_map_members.induct) (auto split: option.splits)

lemma wf_dec_map: "wf_map m \<Longrightarrow> dec_map d zero j m = Some m' \<Longrightarrow> wf_map m'"
  by (auto simp: dec_map_def wf_dec_map_members split: json.splits)

lemma dec_string_elems:
  "dec_elems dec_string [] (map JStr xs) olds = Some xs"
  by (induction xs arbitrary: olds) (simp_all add: dec_string_def)

lemma canon_elems_map: "canon_elems vs = map canon vs"
  by (induction vs) auto

lemma numbers_ok_elems_iff: "numbers_ok_elems vs \<longleftrightarrow> (\<forall>v \<in> set vs. numbers_ok v)"
  by (induction vs) auto

lemma depth_elems_le: "depth_elems vs \<le> n \<longleftrightarrow> (\<forall>v \<in> set vs. depth v \<le> n)"
  by (induction vs) auto

lemma max_depth_pos [simp]: "Suc 0 \<le> max_depth" "2 \<le> max_depth" "3 \<le> max_depth"
  by (simp_all add: max_depth_def)

text \<open>A string map is recovered from the object it is printed as.\<close>

definition string_members :: "string gmap \<Rightarrow> (string \<times> json) list" where
  "string_members m = map (\<lambda>(k, v). (k, JStr v)) m"

lemma dec_map_string_members:
  "dec_map_members dec_string [] (string_members m) acc = Some (map_sets m acc)"
  unfolding string_members_def
  by (induction m arbitrary: acc) (auto simp: dec_string_def)

lemma dec_string_map:
  "wf_map m \<Longrightarrow> dec_map dec_string [] (JObj (string_members m)) [] = Some m"
  using map_lit_wf [of m] by (simp add: dec_map_def dec_map_string_members map_lit_def)

lemma string_members_ok:
  "numbers_ok_members (string_members m)" "depth_members (string_members m) = 0"
  unfolding string_members_def by (induction m) auto

lemma canon_string_members:
  "canon_members (string_members m) = string_members (map (\<lambda>(k, v). (to_valid k, to_valid v)) m)"
  unfolding string_members_def by (induction m) auto

end
