(* ===== verification/GoValue.thy ===== *)
theory GoValue
  imports JsonDecode
begin

text \<open>
  The values of a component's \<open>config:\<close> block, as the YAML library delivers them in a
  \<open>map[string]interface{}\<close>. Components read them by a type assertion
  (\<open>cfg[k].(string)\<close>) or by printing them as JSON and reading that back into a Go type.
\<close>

text \<open>
  \<open>GFloat\<close> carries the JSON text of the number (\<open>None\<close> for NaN and the infinities, which
  JSON cannot print) and its conversion to an integer; \<open>GTime\<close> the RFC 3339 text of a
  timestamp; \<open>GAnyMap\<close> is a mapping with a key that is not a string, which JSON cannot
  print either.
\<close>

datatype gval =
    GNil
  | GBool bool
  | GInt int
  | GFloat "string option" int
  | GStr string
  | GTime string
  | GList "gval list"
  | GMap "(string \<times> gval) list"
  | GAnyMap

type_synonym config_map = "gval gmap"

fun to_json :: "gval \<Rightarrow> json option" and to_json_elems :: "gval list \<Rightarrow> json list option"
  and to_json_members :: "(string \<times> gval) list \<Rightarrow> (string \<times> json) list option" where
  "to_json GNil = Some JNull"
| "to_json (GBool b) = Some (JBool b)"
| "to_json (GInt i) = Some (JNum (itoa i))"
| "to_json (GFloat t i) = map_option JNum t"
| "to_json (GStr s) = Some (JStr s)"
| "to_json (GTime s) = Some (JStr s)"
| "to_json (GList vs) = map_option JArr (to_json_elems vs)"
| "to_json (GMap ms) = map_option JObj (to_json_members ms)"
| "to_json GAnyMap = None"
| "to_json_elems [] = Some []"
| "to_json_elems (v # vs) =
     (case to_json v of None \<Rightarrow> None | Some x \<Rightarrow> map_option ((#) x) (to_json_elems vs))"
| "to_json_members [] = Some []"
| "to_json_members ((k, v) # ms) =
     (case to_json v of None \<Rightarrow> None | Some x \<Rightarrow> map_option ((#) (k, x)) (to_json_members ms))"

text \<open>\<open>json.Marshal(v)\<close> followed by \<open>json.Unmarshal\<close> into a variable that holds \<open>zero\<close>.\<close>

datatype 'a remarshalled = MarshalError | UnmarshalError | Decoded 'a

definition remarshal :: "'a decoder \<Rightarrow> 'a \<Rightarrow> gval \<Rightarrow> 'a remarshalled" where
  "remarshal d zero v =
     (case to_json v of
        None \<Rightarrow> MarshalError
      | Some j \<Rightarrow>
          (case unmarshal d zero (marshal j) of None \<Rightarrow> UnmarshalError | Some x \<Rightarrow> Decoded x))"

text \<open>\<open>if v, ok := cfg[k].(string); ok && v != ""\<close>\<close>

definition cfg_string :: "config_map \<Rightarrow> string \<Rightarrow> string \<Rightarrow> string" where
  "cfg_string cfg k d =
     (case map_of cfg k of Some (GStr v) \<Rightarrow> (if v \<noteq> [] then v else d) | _ \<Rightarrow> d)"

definition string_list :: "string list \<Rightarrow> gval" where
  "string_list xs = GList (map GStr xs)"

lemma to_json_string_list: "to_json (string_list xs) = Some (JArr (map JStr xs))"
proof -
  have "to_json_elems (map GStr xs) = Some (map JStr xs)" by (induction xs) auto
  then show ?thesis by (simp add: string_list_def)
qed

lemma remarshal_string_list:
  "remarshal (dec_list dec_string []) olds (string_list xs) = Decoded (map to_valid xs)"
proof -
  have "unmarshal (dec_list dec_string []) olds (marshal (JArr (map JStr xs)))
      = dec_list dec_string [] (JArr (map JStr (map to_valid xs))) olds"
    by (subst unmarshal_marshal)
      (auto simp: numbers_ok_elems_iff depth_elems_le canon_elems_map max_depth_def
        intro!: arg_cong [where f = "\<lambda>v. dec_list dec_string [] v olds"] order_trans [OF _ max_depth_pos(1)])
  then show ?thesis
    by (simp add: remarshal_def to_json_string_list dec_list_def dec_string_elems del: map_map)
qed

lemma cfg_string_Nil [simp]: "cfg_string [] k d = d"
  by (simp add: cfg_string_def)

lemma cfg_string_nonempty: "d \<noteq> [] \<Longrightarrow> cfg_string cfg k d \<noteq> []"
  by (simp add: cfg_string_def split: option.split gval.split)

end
