(* ===== verification/Source.thy ===== *)
theory Source
  imports GoValue
begin

text \<open>
  \<open>relay/source.go\<close>: the event a log adapter makes of one line, and the contract of
  \<open>relay.Source\<close> the core relies on, as the locale \<open>log_source\<close>. The line readers and the
  emitter prove their facts under the contract; every log adapter interprets it.
\<close>

record subject =
  sub_entity_id :: string
  sub_entity_name :: string
  sub_accessor :: string

record event =
  ev_type :: string
  ev_correlation_id :: string
  ev_subject :: subject
  ev_metadata :: "string gmap"

text \<open>\<open>Parse\<close> returns \<open>(Event, bool)\<close>; \<open>None\<close> is \<open>false\<close>.\<close>

type_synonym line_parser = "string \<Rightarrow> event option"

definition identity_keys :: "string set" where
  "identity_keys = {''entity_id'', ''entity_name'', ''accessor''}"

text \<open>
  A blank line is never an event; metadata is a well-formed map that leaves the identity
  keys of the payload free and carries the correlation ID too.
\<close>

locale log_source =
  fixes parse :: line_parser
  assumes parse_blank: "parse [] = None"
    and metadata_wf: "parse l = Some e \<Longrightarrow> wf_map (ev_metadata e)"
    and identity_free: "parse l = Some e \<Longrightarrow> k \<in> identity_keys \<Longrightarrow> map_of (ev_metadata e) k = None"
    and correlation_recorded:
      "parse l = Some e \<Longrightarrow> \<exists>k. map_of (ev_metadata e) k = Some (ev_correlation_id e)"

end
