(* ===== verification/Vault_Source.thy ===== *)
theory Vault_Source
  imports Source
begin

text \<open>
  \<open>sources/vault/source.go\<close>: Vault audit lines. The entry the code decodes is the record
  \<open>vault_entry\<close>, the configured source is \<open>vault_source\<close>, \<open>vault_parse\<close> is \<open>Parse\<close>
  (decoding, then the classification \<open>vault_classify\<close>) and \<open>vault_build_event\<close> is
  \<open>buildEvent\<close>.
\<close>

record mount_rule =
  rule_prefix :: string
  rule_engine :: string
  rule_event :: string

record vault_source =
  mount_rules :: "mount_rule list"
  drop_prefixes :: "string list"

definition zero_rule :: mount_rule where
  "zero_rule = \<lparr>rule_prefix = [], rule_engine = [], rule_event = []\<rparr>"

definition dec_rule :: "mount_rule decoder" where
  "dec_rule = dec_struct
     [(''Prefix'', dec_field rule_prefix rule_prefix_update dec_string),
      (''Engine'', dec_field rule_engine rule_engine_update dec_string),
      (''Event'', dec_field rule_event rule_event_update dec_string)]"

definition vault_mount_rules :: "config_map \<Rightarrow> mount_rule list result" where
  "vault_mount_rules cfg =
     (case map_of cfg ''mount_rules'' of
        None \<Rightarrow> Inr []
      | Some v \<Rightarrow>
          (case remarshal (dec_list dec_rule zero_rule) [] v of
             MarshalError \<Rightarrow> Inl (EWrap ''vault source: marshal mount_rules: %w'' [] EJson)
           | UnmarshalError \<Rightarrow> Inl (EWrap ''vault source: parse mount_rules: %w'' [] EJson)
           | Decoded rules \<Rightarrow> Inr rules))"

definition vault_drop_prefixes :: "config_map \<Rightarrow> string list result" where
  "vault_drop_prefixes cfg =
     (case map_of cfg ''drop_prefixes'' of
        None \<Rightarrow> Inr []
      | Some v \<Rightarrow>
          (case remarshal (dec_list dec_string []) [] v of
             MarshalError \<Rightarrow> Inl (EWrap ''vault source: marshal drop_prefixes: %w'' [] EJson)
           | UnmarshalError \<Rightarrow> Inl (EWrap ''vault source: parse drop_prefixes: %w'' [] EJson)
           | Decoded ps \<Rightarrow> Inr ps))"

definition new_vault_source :: "config_map \<Rightarrow> vault_source result" where
  "new_vault_source cfg =
     (case vault_mount_rules cfg of
        Inl e \<Rightarrow> Inl e
      | Inr rules \<Rightarrow>
          (case vault_drop_prefixes cfg of
             Inl e \<Rightarrow> Inl e
           | Inr ps \<Rightarrow> Inr \<lparr>mount_rules = rules, drop_prefixes = ps\<rparr>))"

subsection \<open>The audit entry\<close>

record vault_auth =
  token_accessor :: string
  display_name :: string
  auth_entity_id :: string

record vault_request =
  req_id :: string
  req_path :: string
  req_operation :: string
  req_entity_id :: string
  req_remote_address :: string

record vault_secret =
  lease_id :: string
  lease_duration :: int

record vault_entry =
  entry_type :: string
  entry_auth :: vault_auth
  entry_request :: vault_request
  entry_secret :: vault_secret
  entry_error :: string

definition zero_entry :: vault_entry where
  "zero_entry =
     \<lparr>entry_type = [],
      entry_auth = \<lparr>token_accessor = [], display_name = [], auth_entity_id = []\<rparr>,
      entry_request = \<lparr>req_id = [], req_path = [], req_operation = [], req_entity_id = [],
        req_remote_address = []\<rparr>,
      entry_secret = \<lparr>lease_id = [], lease_duration = 0\<rparr>,
      entry_error = []\<rparr>"

definition dec_auth :: "vault_auth decoder" where
  "dec_auth = dec_struct
     [(''token_accessor'', dec_field token_accessor token_accessor_update dec_string),
      (''display_name'', dec_field display_name display_name_update dec_string),
      (''entity_id'', dec_field auth_entity_id auth_entity_id_update dec_string)]"

definition dec_request :: "vault_request decoder" where
  "dec_request = dec_struct
     [(''id'', dec_field req_id req_id_update dec_string),
      (''path'', dec_field req_path req_path_update dec_string),
      (''operation'', dec_field req_operation req_operation_update dec_string),
      (''entity_id'', dec_field req_entity_id req_entity_id_update dec_string),
      (''remote_address'', dec_field req_remote_address req_remote_address_update dec_string)]"

definition dec_secret :: "vault_secret decoder" where
  "dec_secret = dec_struct
     [(''lease_id'', dec_field lease_id lease_id_update dec_string),
      (''lease_duration'', dec_field lease_duration lease_duration_update dec_int)]"

text \<open>The \<open>response\<close> object holds the secret only.\<close>

definition dec_response :: "vault_secret decoder" where
  "dec_response = dec_struct [(''secret'', dec_secret)]"

definition dec_vault_entry :: "vault_entry decoder" where
  "dec_vault_entry = dec_struct
     [(''type'', dec_field entry_type entry_type_update dec_string),
      (''auth'', dec_field entry_auth entry_auth_update dec_auth),
      (''request'', dec_field entry_request entry_request_update dec_request),
      (''response'', dec_field entry_secret entry_secret_update dec_response),
      (''error'', dec_field entry_error entry_error_update dec_string)]"

subsection \<open>Classification and events\<close>

definition uri_revoked :: string where
  "uri_revoked = ''https://schemas.fiam/vault/credential-revoked''"
definition uri_denied :: string where
  "uri_denied = ''https://schemas.fiam/vault/secret-denied''"
definition uri_auth :: string where
  "uri_auth = ''https://schemas.fiam/vault/auth-event''"

definition vault_metadata :: "vault_entry \<Rightarrow> string \<Rightarrow> string gmap" where
  "vault_metadata en engine =
     (let m0 = map_lit
            [(''secret_path'', req_path (entry_request en)),
             (''remote_address'', req_remote_address (entry_request en)),
             (''vault_request_id'', req_id (entry_request en))];
          m1 = (if engine \<noteq> [] then map_set ''secret_engine'' engine m0 else m0);
          m2 = (if lease_id (entry_secret en) \<noteq> []
                then map_set ''ttl_seconds'' (itoa (lease_duration (entry_secret en)))
                       (map_set ''lease_id'' (lease_id (entry_secret en)) m1)
                else m1)
      in if entry_error en \<noteq> [] then map_set ''error'' (entry_error en) m2 else m2)"

definition vault_build_event :: "vault_entry \<Rightarrow> string \<Rightarrow> string \<Rightarrow> event" where
  "vault_build_event en uri engine =
     \<lparr>ev_type = uri,
      ev_correlation_id = req_id (entry_request en),
      ev_subject =
        \<lparr>sub_entity_id = (if req_entity_id (entry_request en) = [] then auth_entity_id (entry_auth en)
                          else req_entity_id (entry_request en)),
         sub_entity_name = display_name (entry_auth en),
         sub_accessor = token_accessor (entry_auth en)\<rparr>,
      ev_metadata = vault_metadata en engine\<rparr>"

fun match_rule :: "mount_rule list \<Rightarrow> string \<Rightarrow> mount_rule option" where
  "match_rule [] path = None"
| "match_rule (r # rs) path =
     (if has_prefix path (rule_prefix r) then Some r else match_rule rs path)"

definition is_revoke :: "vault_entry \<Rightarrow> bool" where
  "is_revoke en \<longleftrightarrow>
     req_operation (entry_request en) = ''revoke'' \<or> contains (req_path (entry_request en)) ''/revoke''"

definition is_login :: "vault_entry \<Rightarrow> bool" where
  "is_login en \<longleftrightarrow>
     has_prefix (req_path (entry_request en)) ''auth/'' \<and> contains (req_path (entry_request en)) ''/login''"

definition vault_classify :: "vault_source \<Rightarrow> vault_entry \<Rightarrow> event option" where
  "vault_classify s en =
     (if entry_type en \<noteq> ''response'' then None
      else if is_revoke en then Some (vault_build_event en uri_revoked [])
      else if list_ex (has_prefix (req_path (entry_request en))) (drop_prefixes s) then None
      else if entry_error en \<noteq> [] then Some (vault_build_event en uri_denied [])
      else if is_login en then Some (vault_build_event en uri_auth [])
      else (case match_rule (mount_rules s) (req_path (entry_request en)) of
              Some r \<Rightarrow> Some (vault_build_event en (rule_event r) (rule_engine r))
            | None \<Rightarrow> None))"

definition vault_parse :: "vault_source \<Rightarrow> line_parser" where
  "vault_parse s line =
     (case unmarshal dec_vault_entry zero_entry line of
        None \<Rightarrow> None
      | Some en \<Rightarrow> vault_classify s en)"

subsection \<open>The contract of a source\<close>

lemma vault_metadata_wf: "wf_map (vault_metadata en engine)"
  by (simp add: vault_metadata_def Let_def)

lemma vault_metadata_lookup:
  "map_of (vault_metadata en engine) k =
     (if k = ''error'' \<and> entry_error en \<noteq> [] then Some (entry_error en)
      else if k = ''ttl_seconds'' \<and> lease_id (entry_secret en) \<noteq> []
        then Some (itoa (lease_duration (entry_secret en)))
      else if k = ''lease_id'' \<and> lease_id (entry_secret en) \<noteq> [] then Some (lease_id (entry_secret en))
      else if k = ''secret_engine'' \<and> engine \<noteq> [] then Some engine
      else if k = ''secret_path'' then Some (req_path (entry_request en))
      else if k = ''remote_address'' then Some (req_remote_address (entry_request en))
      else if k = ''vault_request_id'' then Some (req_id (entry_request en))
      else None)"
  by (simp add: vault_metadata_def Let_def go_map)

lemma vault_classify_event:
  "vault_classify s en = Some e \<Longrightarrow> \<exists>uri engine. e = vault_build_event en uri engine"
  by (auto simp: vault_classify_def split: if_splits option.splits)

lemma vault_parse_event:
  assumes "vault_parse s l = Some e"
  obtains en uri engine where "e = vault_build_event en uri engine"
  using assms vault_classify_event by (fastforce simp: vault_parse_def split: option.splits)

interpretation vault: log_source "vault_parse s" for s
proof unfold_locales
  fix l e k
  show "vault_parse s [] = None" by (simp add: vault_parse_def)
  assume "vault_parse s l = Some e"
  then obtain en uri engine where e: "e = vault_build_event en uri engine"
    by (rule vault_parse_event)
  show "wf_map (ev_metadata e)" by (simp add: e vault_build_event_def vault_metadata_wf)
  show "k \<in> identity_keys \<Longrightarrow> map_of (ev_metadata e) k = None"
    by (auto simp: e vault_build_event_def vault_metadata_lookup identity_keys_def)
  have "map_of (ev_metadata e) ''vault_request_id'' = Some (ev_correlation_id e)"
    by (simp add: e vault_build_event_def vault_metadata_lookup)
  then show "\<exists>k. map_of (ev_metadata e) k = Some (ev_correlation_id e)" ..
qed

subsection \<open>Reading the line back\<close>

text \<open>The object Vault writes for an entry (the members the relay reads).\<close>

definition vault_entry_json :: "vault_entry \<Rightarrow> json" where
  "vault_entry_json en = JObj
     [(''type'', JStr (entry_type en)),
      (''auth'', JObj
         [(''token_accessor'', JStr (token_accessor (entry_auth en))),
          (''display_name'', JStr (display_name (entry_auth en))),
          (''entity_id'', JStr (auth_entity_id (entry_auth en)))]),
      (''request'', JObj
         [(''id'', JStr (req_id (entry_request en))),
          (''path'', JStr (req_path (entry_request en))),
          (''operation'', JStr (req_operation (entry_request en))),
          (''entity_id'', JStr (req_entity_id (entry_request en))),
          (''remote_address'', JStr (req_remote_address (entry_request en)))]),
      (''response'', JObj
         [(''secret'', JObj
            [(''lease_id'', JStr (lease_id (entry_secret en))),
             (''lease_duration'', JNum (itoa (lease_duration (entry_secret en))))])]),
      (''error'', JStr (entry_error en))]"

text \<open>An entry Go can hold: valid UTF-8 strings and a 64-bit duration.\<close>

definition vault_entry_ok :: "vault_entry \<Rightarrow> bool" where
  "vault_entry_ok en \<longleftrightarrow>
     list_all valid_utf8
       [entry_type en, token_accessor (entry_auth en), display_name (entry_auth en),
        auth_entity_id (entry_auth en), req_id (entry_request en), req_path (entry_request en),
        req_operation (entry_request en), req_entity_id (entry_request en),
        req_remote_address (entry_request en), lease_id (entry_secret en), entry_error en] \<and>
     - (2 ^ 63) \<le> lease_duration (entry_secret en) \<and> lease_duration (entry_secret en) < 2 ^ 63"

lemmas vault_decoders = dec_vault_entry_def dec_auth_def dec_request_def dec_response_def dec_secret_def

lemma dec_vault_entry_json:
  "vault_entry_ok en \<Longrightarrow> dec_vault_entry (vault_entry_json en) zero_entry = Some en"
  by (simp add: vault_entry_json_def vault_decoders decode_defs vault_entry_ok_def
      parse_int64_itoa zero_entry_def upper_byte_def in_range_def byte_def)

lemma canon_vault_entry_json:
  "vault_entry_ok en \<Longrightarrow> canon (vault_entry_json en) = vault_entry_json en"
  by (simp add: vault_entry_json_def vault_entry_ok_def valid_utf8_def is_ascii_def byte_def)

lemma unmarshal_vault_entry:
  assumes "vault_entry_ok en"
  shows "unmarshal dec_vault_entry zero_entry (marshal (vault_entry_json en)) = Some en"
proof -
  have "numbers_ok (vault_entry_json en)" "depth (vault_entry_json en) \<le> max_depth"
    by (simp_all add: vault_entry_json_def valid_number_itoa max_depth_def)
  then show ?thesis
    using assms by (simp add: unmarshal_marshal canon_vault_entry_json dec_vault_entry_json)
qed

subsection \<open>Properties\<close>

text \<open>The mount rule that applies is the first whose prefix matches.\<close>

lemma match_rule_None: "match_rule rs path = None \<longleftrightarrow> (\<forall>r \<in> set rs. \<not> has_prefix path (rule_prefix r))"
  by (induction rs) auto

lemma match_rule_Some:
  "match_rule rs path = Some r \<longleftrightarrow>
     (\<exists>i < length rs. rs ! i = r \<and> has_prefix path (rule_prefix r)
        \<and> (\<forall>j < i. \<not> has_prefix path (rule_prefix (rs ! j))))"
proof (induction rs)
  case (Cons a rs)
  then show ?case by (auto simp: Ex_less_Suc2 All_less_Suc2)
qed simp

lemma rule_event_Some:
  "(case match_rule rs path of Some r \<Rightarrow> Some (f r) | None \<Rightarrow> None) = Some e \<longleftrightarrow>
     (\<exists>i < length rs. has_prefix path (rule_prefix (rs ! i))
        \<and> (\<forall>j < i. \<not> has_prefix path (rule_prefix (rs ! j))) \<and> e = f (rs ! i))"
proof -
  have "(case match_rule rs path of Some r \<Rightarrow> Some (f r) | None \<Rightarrow> None) = Some e \<longleftrightarrow>
      (\<exists>r. match_rule rs path = Some r \<and> e = f r)"
    by (auto split: option.splits)
  then show ?thesis by (auto simp: match_rule_Some)
qed

lemma list_ex_has_prefix: "list_ex (has_prefix path) ps \<longleftrightarrow> (\<exists>p \<in> set ps. has_prefix path p)"
  by (simp add: list_ex_iff)

text \<open>The entry and the source of the package's own tests.\<close>

definition vault_example_source :: vault_source where
  "vault_example_source =
     \<lparr>mount_rules =
        [\<lparr>rule_prefix = ''database/creds/'', rule_engine = ''database'',
          rule_event = ''https://schemas.fiam/vault/credential-issued''\<rparr>,
         \<lparr>rule_prefix = ''kv/data/'', rule_engine = ''kv-v2'',
          rule_event = ''https://schemas.fiam/vault/secret-accessed''\<rparr>],
      drop_prefixes = [''sys/'', ''auth/token/lookup'']\<rparr>"

definition vault_example_entry :: "string \<Rightarrow> string \<Rightarrow> vault_entry" where
  "vault_example_entry path err =
     \<lparr>entry_type = ''response'',
      entry_auth = \<lparr>token_accessor = ''acc-1'', display_name = ''user1'', auth_entity_id = ''ent-1''\<rparr>,
      entry_request = \<lparr>req_id = ''req-1'', req_path = path, req_operation = ''read'',
        req_entity_id = [], req_remote_address = ''1.2.3.4''\<rparr>,
      entry_secret = \<lparr>lease_id = ''lease-1'', lease_duration = 3600\<rparr>,
      entry_error = err\<rparr>"

text \<open>C13: Reading a Vault audit line gives the classification of the entry the line was
  printed from: decoding the JSON object Vault writes for an entry recovers every field the
  relay uses, whatever bytes its strings contain, and classification sees that entry.\<close>

theorem vault_parse_printed_line:
  assumes "vault_entry_ok en"
  shows "vault_parse s (marshal (vault_entry_json en)) = vault_classify s en"
  using unmarshal_vault_entry [OF assms] by (simp add: vault_parse_def)

theorem vault_parse_printed_line_witness:
  "vault_entry_ok (vault_example_entry ''kv/data/x'' []) \<and>
   vault_parse vault_example_source (marshal (vault_entry_json (vault_example_entry ''kv/data/x'' [])))
     = vault_classify vault_example_source (vault_example_entry ''kv/data/x'' [])"
proof -
  have ok: "vault_entry_ok (vault_example_entry ''kv/data/x'' [])"
    by (simp add: vault_entry_ok_def vault_example_entry_def valid_utf8_def is_ascii_def byte_def)
  then show ?thesis using vault_parse_printed_line [OF ok] by simp
qed

text \<open>An event is the one built for an entry exactly when all its parts are what they should be.\<close>

lemma vault_build_event_iff:
  "e = vault_build_event en uri engine \<longleftrightarrow>
     ev_type e = uri \<and> ev_correlation_id e = req_id (entry_request en) \<and>
     sub_entity_id (ev_subject e) = (if req_entity_id (entry_request en) \<noteq> [] then req_entity_id (entry_request en)
       else auth_entity_id (entry_auth en)) \<and>
     sub_entity_name (ev_subject e) = display_name (entry_auth en) \<and>
     sub_accessor (ev_subject e) = token_accessor (entry_auth en) \<and>
     wf_map (ev_metadata e) \<and>
     map_of (ev_metadata e) =
       [''secret_path'' \<mapsto> req_path (entry_request en), ''remote_address'' \<mapsto> req_remote_address (entry_request en),
        ''vault_request_id'' \<mapsto> req_id (entry_request en)] ++
       (if engine = [] then Map.empty else [''secret_engine'' \<mapsto> engine]) ++
       (if lease_id (entry_secret en) = [] then Map.empty
        else [''lease_id'' \<mapsto> lease_id (entry_secret en), ''ttl_seconds'' \<mapsto> itoa (lease_duration (entry_secret en))]) ++
       (if entry_error en = [] then Map.empty else [''error'' \<mapsto> entry_error en])"
    (is "_ \<longleftrightarrow> _ \<and> _ \<and> _ \<and> _ \<and> _ \<and> _ \<and> map_of _ = ?meta")
proof -
  have meta: "map_of (vault_metadata en engine) = ?meta"
    by (rule ext) (simp add: vault_metadata_lookup map_add_def)
  have "ev_metadata e = vault_metadata en engine \<longleftrightarrow> wf_map (ev_metadata e) \<and> map_of (ev_metadata e) = ?meta"
    unfolding meta [symmetric] using vault_metadata_wf wf_map_ext by metis
  moreover have "e = vault_build_event en uri engine \<longleftrightarrow>
      ev_type e = uri \<and> ev_correlation_id e = req_id (entry_request en) \<and>
      ev_subject e = ev_subject (vault_build_event en uri engine) \<and> ev_metadata e = vault_metadata en engine"
    by (cases e) (auto simp: vault_build_event_def)
  ultimately show ?thesis
    by (cases "ev_subject e") (auto simp: vault_build_event_def)
qed

text \<open>Which of the checks decides.\<close>

lemma vault_classify_cases:
  "vault_classify s en = Some e \<longleftrightarrow>
     entry_type en = ''response'' \<and>
     (if is_revoke en then e = vault_build_event en uri_revoked []
      else (\<forall>p \<in> set (drop_prefixes s). \<not> has_prefix (req_path (entry_request en)) p) \<and>
        (if entry_error en \<noteq> [] then e = vault_build_event en uri_denied []
         else if is_login en then e = vault_build_event en uri_auth []
         else (\<exists>i < length (mount_rules s).
                 has_prefix (req_path (entry_request en)) (rule_prefix (mount_rules s ! i)) \<and>
                 (\<forall>j < i. \<not> has_prefix (req_path (entry_request en)) (rule_prefix (mount_rules s ! j))) \<and>
                 e = vault_build_event en (rule_event (mount_rules s ! i))
                       (rule_engine (mount_rules s ! i)))))"
  by (auto simp: vault_classify_def list_ex_has_prefix rule_event_Some)

lemma choose_event:
  "(\<exists>u g. e = b u g \<and> (if c then u = u0 \<and> g = g0 else r u g)) \<longleftrightarrow> (if c then e = b u0 g0 else (\<exists>u g. e = b u g \<and> r u g))"
  "(\<exists>u g. e = b u g \<and> d \<and> r u g) \<longleftrightarrow> d \<and> (\<exists>u g. e = b u g \<and> r u g)"
  "(\<exists>u g. e = b u g \<and> (\<exists>i < n. x i \<and> y i \<and> u = f i \<and> g = h i)) \<longleftrightarrow> (\<exists>i < n. x i \<and> y i \<and> e = b (f i) (h i))"
  by auto

lemma sublist_iff: "sublist ys xs \<longleftrightarrow> (\<exists>as bs. xs = as @ ys @ bs)"
  by (simp add: sublist_def)

text \<open>C14: The Vault source, completely: a line is an event exactly when it is an audit entry of type
  \<open>response\<close> and the first of these that applies says so: its operation is \<open>revoke\<close> or its path
  contains \<open>/revoke\<close> (credential-revoked, whatever prefixes are dropped); its path has a
  dropped prefix (no event); it has an error (secret-denied); its path begins with \<open>auth/\<close> and
  contains \<open>/login\<close> (auth-event); some mount rule's prefix fits, of which the first one
  configured gives type and engine. The event carries the request ID, the entity of the
  request or else of the token, and exactly the metadata that is there.\<close>

theorem vault_event_iff:
  "vault_parse s line = Some e \<longleftrightarrow>
     (\<exists>en path engine.
       unmarshal dec_vault_entry zero_entry line = Some en \<and> entry_type en = ''response'' \<and>
       path = req_path (entry_request en) \<and>
       (if req_operation (entry_request en) = ''revoke'' \<or> (\<exists>as bs. path = as @ ''/revoke'' @ bs)
        then ev_type e = ''https://schemas.fiam/vault/credential-revoked'' \<and> engine = []
        else (\<forall>p \<in> set (drop_prefixes s). \<not> prefix p path) \<and>
          (if entry_error en \<noteq> [] then ev_type e = ''https://schemas.fiam/vault/secret-denied'' \<and> engine = []
           else if prefix ''auth/'' path \<and> (\<exists>as bs. path = as @ ''/login'' @ bs)
           then ev_type e = ''https://schemas.fiam/vault/auth-event'' \<and> engine = []
           else (\<exists>i < length (mount_rules s).
                   prefix (rule_prefix (mount_rules s ! i)) path \<and>
                   (\<forall>j < i. \<not> prefix (rule_prefix (mount_rules s ! j)) path) \<and>
                   ev_type e = rule_event (mount_rules s ! i) \<and> engine = rule_engine (mount_rules s ! i)))) \<and>
       ev_correlation_id e = req_id (entry_request en) \<and>
       sub_entity_id (ev_subject e) = (if req_entity_id (entry_request en) \<noteq> [] then req_entity_id (entry_request en)
         else auth_entity_id (entry_auth en)) \<and>
       sub_entity_name (ev_subject e) = display_name (entry_auth en) \<and>
       sub_accessor (ev_subject e) = token_accessor (entry_auth en) \<and>
       wf_map (ev_metadata e) \<and>
       map_of (ev_metadata e) =
         [''secret_path'' \<mapsto> path, ''remote_address'' \<mapsto> req_remote_address (entry_request en),
          ''vault_request_id'' \<mapsto> req_id (entry_request en)] ++
         (if engine = [] then Map.empty else [''secret_engine'' \<mapsto> engine]) ++
         (if lease_id (entry_secret en) = [] then Map.empty
          else [''lease_id'' \<mapsto> lease_id (entry_secret en), ''ttl_seconds'' \<mapsto> itoa (lease_duration (entry_secret en))]) ++
         (if entry_error en = [] then Map.empty else [''error'' \<mapsto> entry_error en]))"
proof -
  have classify: "vault_classify s en = Some e \<longleftrightarrow> entry_type en = ''response'' \<and>
      (\<exists>uri engine. e = vault_build_event en uri engine \<and>
        (if req_operation (entry_request en) = ''revoke'' \<or> (\<exists>as bs. req_path (entry_request en) = as @ ''/revoke'' @ bs)
         then uri = ''https://schemas.fiam/vault/credential-revoked'' \<and> engine = []
         else (\<forall>p \<in> set (drop_prefixes s). \<not> prefix p (req_path (entry_request en))) \<and>
           (if entry_error en \<noteq> [] then uri = ''https://schemas.fiam/vault/secret-denied'' \<and> engine = []
            else if prefix ''auth/'' (req_path (entry_request en)) \<and>
              (\<exists>as bs. req_path (entry_request en) = as @ ''/login'' @ bs)
            then uri = ''https://schemas.fiam/vault/auth-event'' \<and> engine = []
            else (\<exists>i < length (mount_rules s).
                    prefix (rule_prefix (mount_rules s ! i)) (req_path (entry_request en)) \<and>
                    (\<forall>j < i. \<not> prefix (rule_prefix (mount_rules s ! j)) (req_path (entry_request en))) \<and>
                    uri = rule_event (mount_rules s ! i) \<and> engine = rule_engine (mount_rules s ! i)))))" for en
    unfolding vault_classify_cases is_revoke_def is_login_def contains_iff sublist_iff has_prefix_prefix
      uri_revoked_def uri_denied_def uri_auth_def
    by (simp only: choose_event)
  have parse: "vault_parse s line = Some e \<longleftrightarrow>
      (\<exists>en. unmarshal dec_vault_entry zero_entry line = Some en \<and> vault_classify s en = Some e)"
    by (simp add: vault_parse_def split: option.split)
  have pick_type: "(\<exists>u g. (ty = u \<and> d g) \<and> q u g) \<longleftrightarrow> (\<exists>g. q ty g \<and> d g)" for ty :: string and d q
    by blast
  have pick_path: "(\<exists>en path g. u en \<and> v en \<and> path = f en \<and> q en path g) \<longleftrightarrow> (\<exists>en. u en \<and> v en \<and> (\<exists>g. q en (f en) g))"
    for u v q and f :: "vault_entry \<Rightarrow> string" by blast
  show ?thesis
    unfolding parse classify vault_build_event_iff pick_type pick_path ..
qed

theorem vault_event_iff_witness:
  "\<exists>e. vault_parse vault_example_source (marshal (vault_entry_json (vault_example_entry ''kv/data/x'' []))) = Some e \<and>
     ev_type e = ''https://schemas.fiam/vault/secret-accessed'' \<and> map_of (ev_metadata e) ''secret_engine'' = Some ''kv-v2''"
proof -
  let ?en = "vault_example_entry ''kv/data/x'' []"
  let ?e = "vault_build_event ?en ''https://schemas.fiam/vault/secret-accessed'' ''kv-v2''"
  have "vault_entry_ok ?en"
    by (simp add: vault_entry_ok_def vault_example_entry_def valid_utf8_def is_ascii_def byte_def)
  from unmarshal_vault_entry [OF this]
  have "vault_parse vault_example_source (marshal (vault_entry_json ?en)) = Some ?e"
    by (simp add: vault_parse_def vault_classify_def is_revoke_def is_login_def)
      (simp add: vault_example_entry_def vault_example_source_def has_prefix_def)
  from this [unfolded vault_event_iff] this show ?thesis
    by (auto simp: vault_build_event_def vault_metadata_lookup vault_example_entry_def)
qed

text \<open>Adding drop prefixes only ever removes events, and never a revocation: with a
  larger set of drop prefixes a line gives the same result as before, or nothing, and in the
  second case its entry is no revocation and its path has one of the added prefixes.\<close>

theorem vault_drop_prefixes_monotone:
  assumes "set (drop_prefixes s) \<subseteq> set (drop_prefixes s')" "mount_rules s' = mount_rules s"
  shows "vault_parse s' line = vault_parse s line \<or>
    (vault_parse s' line = None \<and>
     (\<exists>en p. unmarshal dec_vault_entry zero_entry line = Some en \<and> \<not> is_revoke en \<and>
        p \<in> set (drop_prefixes s') - set (drop_prefixes s) \<and>
        has_prefix (req_path (entry_request en)) p))"
proof (cases "unmarshal dec_vault_entry zero_entry line")
  case None
  then show ?thesis by (simp add: vault_parse_def)
next
  case (Some en)
  have "vault_classify s' en = vault_classify s en \<or> vault_classify s' en = None \<and> \<not> is_revoke en \<and>
      (\<exists>p \<in> set (drop_prefixes s') - set (drop_prefixes s). has_prefix (req_path (entry_request en)) p)"
    using assms by (auto simp: vault_classify_def list_ex_has_prefix)
  with Some show ?thesis by (auto simp: vault_parse_def)
qed

theorem vault_drop_prefixes_monotone_witness:
  "let s' = vault_example_source\<lparr>drop_prefixes := [''sys/'', ''auth/token/lookup'', ''kv/'']\<rparr>;
       line = marshal (vault_entry_json (vault_example_entry ''kv/data/x'' []))
   in vault_parse s' line = vault_parse vault_example_source line \<or> vault_parse s' line = None"
  using vault_drop_prefixes_monotone [of vault_example_source
      "vault_example_source\<lparr>drop_prefixes := [''sys/'', ''auth/token/lookup'', ''kv/'']\<rparr>"
      "marshal (vault_entry_json (vault_example_entry ''kv/data/x'' []))"]
  by (auto simp: vault_example_source_def Let_def)

end
