(* ===== verification/K8s_Source.thy ===== *)
theory K8s_Source
  imports Source
begin

text \<open>
  \<open>sources/k8s/source.go\<close>: Kubernetes audit lines. \<open>k8s_source\<close> is the configured source
  (its three \<open>map[string]bool\<close> are sets), \<open>k8s_entry\<close> the decoded audit event, \<open>k8s_parse\<close>
  is \<open>Parse\<close>: the filters and the classification \<open>k8s_event_type\<close>, then the event.
\<close>

record k8s_source =
  stages :: "string set"
  drop_users :: "string set"
  drop_verbs :: "string set"

definition to_string_slice :: "gval \<Rightarrow> string list result" where
  "to_string_slice v =
     (case remarshal (dec_list dec_string []) [] v of
        MarshalError \<Rightarrow> Inl EJson
      | UnmarshalError \<Rightarrow> Inl EJson
      | Decoded xs \<Rightarrow> Inr xs)"

text \<open>One optional list of the configuration, stored over a default.\<close>

definition cfg_string_set :: "config_map \<Rightarrow> string \<Rightarrow> string set \<Rightarrow> string \<Rightarrow> string set result" where
  "cfg_string_set cfg k d ctx =
     (case map_of cfg k of
        None \<Rightarrow> Inr d
      | Some v \<Rightarrow>
          (case to_string_slice v of Inl e \<Rightarrow> Inl (EWrap ctx [] e) | Inr xs \<Rightarrow> Inr (set xs)))"

definition new_k8s_source :: "config_map \<Rightarrow> k8s_source result" where
  "new_k8s_source cfg =
     (case cfg_string_set cfg ''stages'' {''ResponseComplete''} ''k8s source: stages: %w'' of
        Inl e \<Rightarrow> Inl e
      | Inr st \<Rightarrow>
     (case cfg_string_set cfg ''drop_users'' {} ''k8s source: drop_users: %w'' of
        Inl e \<Rightarrow> Inl e
      | Inr us \<Rightarrow>
     (case cfg_string_set cfg ''drop_verbs'' {} ''k8s source: drop_verbs: %w'' of
        Inl e \<Rightarrow> Inl e
      | Inr vs \<Rightarrow> Inr \<lparr>stages = st, drop_users = us, drop_verbs = vs\<rparr>)))"

subsection \<open>The audit event\<close>

record k8s_user =
  username :: string
  uid :: string

record k8s_object_ref =
  ref_resource :: string
  ref_namespace :: string
  ref_name :: string
  ref_api_version :: string

record k8s_entry =
  audit_id :: string
  audit_stage :: string
  request_uri :: string
  audit_verb :: string
  audit_user :: k8s_user
  source_ips :: "string list"
  object_ref :: k8s_object_ref
  response_code :: int

definition zero_k8s :: k8s_entry where
  "zero_k8s =
     \<lparr>audit_id = [], audit_stage = [], request_uri = [], audit_verb = [],
      audit_user = \<lparr>username = [], uid = []\<rparr>, source_ips = [],
      object_ref = \<lparr>ref_resource = [], ref_namespace = [], ref_name = [], ref_api_version = []\<rparr>,
      response_code = 0\<rparr>"

definition dec_user :: "k8s_user decoder" where
  "dec_user = dec_struct
     [(''username'', dec_field username username_update dec_string),
      (''uid'', dec_field uid uid_update dec_string)]"

definition dec_object_ref :: "k8s_object_ref decoder" where
  "dec_object_ref = dec_struct
     [(''resource'', dec_field ref_resource ref_resource_update dec_string),
      (''namespace'', dec_field ref_namespace ref_namespace_update dec_string),
      (''name'', dec_field ref_name ref_name_update dec_string),
      (''apiVersion'', dec_field ref_api_version ref_api_version_update dec_string)]"

definition dec_k8s_entry :: "k8s_entry decoder" where
  "dec_k8s_entry = dec_struct
     [(''auditID'', dec_field audit_id audit_id_update dec_string),
      (''stage'', dec_field audit_stage audit_stage_update dec_string),
      (''requestURI'', dec_field request_uri request_uri_update dec_string),
      (''verb'', dec_field audit_verb audit_verb_update dec_string),
      (''user'', dec_field audit_user audit_user_update dec_user),
      (''sourceIPs'', dec_field source_ips source_ips_update (dec_list dec_string [])),
      (''objectRef'', dec_field object_ref object_ref_update dec_object_ref),
      (''responseStatus'', dec_field response_code response_code_update
         (dec_struct [(''code'', dec_int)]))]"

subsection \<open>Classification and events\<close>

definition k8s_uri :: "string \<Rightarrow> string" where
  "k8s_uri kind = ''https://schemas.fiam/relay/k8s/'' @ kind"

lemma k8s_uri_inject [simp]: "k8s_uri a = k8s_uri b \<longleftrightarrow> a = b"
  by (simp add: k8s_uri_def)

definition success :: "int \<Rightarrow> bool" where
  "success code \<longleftrightarrow> 200 \<le> code \<and> code < 300"

definition k8s_event_type :: "k8s_entry \<Rightarrow> string option" where
  "k8s_event_type en =
     (let code = response_code en; verb = audit_verb en; resource = ref_resource (object_ref en)
      in if code = 401 \<or> code = 403 then Some (k8s_uri ''secret-denied'')
         else if (verb = ''get'' \<or> verb = ''create'')
              \<and> (resource = ''secrets'' \<or> resource = ''configmaps'') \<and> success code
           then Some (k8s_uri ''secret-accessed'')
         else if verb = ''create''
              \<and> (resource = ''serviceaccounts/token'' \<or> resource = ''tokens'') \<and> success code
           then Some (k8s_uri ''credential-issued'')
         else if verb = ''delete'' \<and> resource = ''secrets'' \<and> success code
           then Some (k8s_uri ''credential-revoked'')
         else None)"

definition service_account_prefix :: string where
  "service_account_prefix = ''system:serviceaccount:''"

definition entity_name_of :: "string \<Rightarrow> string" where
  "entity_name_of user =
     (if has_prefix user service_account_prefix then
        (case split_n2 (trim_prefix user service_account_prefix) CHR '':'' of
           [ns, name] \<Rightarrow> name
         | _ \<Rightarrow> user)
      else user)"

definition k8s_build_event :: "k8s_entry \<Rightarrow> string \<Rightarrow> event" where
  "k8s_build_event en uri =
     \<lparr>ev_type = uri,
      ev_correlation_id = audit_id en,
      ev_subject =
        \<lparr>sub_entity_id = uid (audit_user en),
         sub_entity_name = entity_name_of (username (audit_user en)),
         sub_accessor = uid (audit_user en)\<rparr>,
      ev_metadata = map_lit
        [(''k8s_namespace'', ref_namespace (object_ref en)),
         (''k8s_resource'', ref_resource (object_ref en)),
         (''k8s_name'', ref_name (object_ref en)),
         (''k8s_verb'', audit_verb en),
         (''k8s_request_uri'', request_uri en),
         (''remote_address'', case source_ips en of [] \<Rightarrow> [] | ip # _ \<Rightarrow> ip),
         (''response_code'', itoa (response_code en)),
         (''audit_id'', audit_id en)]\<rparr>"

definition user_dropped :: "k8s_source \<Rightarrow> string \<Rightarrow> bool" where
  "user_dropped s user \<longleftrightarrow> (\<exists>d \<in> drop_users s. user = d \<or> has_prefix user d)"

definition k8s_classify :: "k8s_source \<Rightarrow> k8s_entry \<Rightarrow> event option" where
  "k8s_classify s en =
     (if audit_stage en \<notin> stages s then None
      else if user_dropped s (username (audit_user en)) then None
      else if audit_verb en \<in> drop_verbs s then None
      else (case k8s_event_type en of None \<Rightarrow> None | Some uri \<Rightarrow> Some (k8s_build_event en uri)))"

definition k8s_parse :: "k8s_source \<Rightarrow> line_parser" where
  "k8s_parse s line =
     (case unmarshal dec_k8s_entry zero_k8s line of
        None \<Rightarrow> None
      | Some en \<Rightarrow> k8s_classify s en)"

subsection \<open>The contract of a source\<close>

lemma k8s_parse_event:
  assumes "k8s_parse s l = Some e"
  obtains en uri where "e = k8s_build_event en uri"
  using assms by (auto simp: k8s_parse_def k8s_classify_def split: option.splits if_splits)

lemma k8s_correlation_recorded:
  "map_of (ev_metadata (k8s_build_event en uri)) ''audit_id'' = Some (audit_id en)"
  by (simp add: k8s_build_event_def go_map)

lemma k8s_identity_free:
  "k \<in> identity_keys \<Longrightarrow> map_of (ev_metadata (k8s_build_event en uri)) k = None"
  by (auto simp: k8s_build_event_def map_lit_None_iff identity_keys_def)

interpretation k8s: log_source "k8s_parse s" for s
proof unfold_locales
  fix l e k
  show "k8s_parse s [] = None" by (simp add: k8s_parse_def)
  assume "k8s_parse s l = Some e"
  then obtain en uri where e: "e = k8s_build_event en uri" by (rule k8s_parse_event)
  show "wf_map (ev_metadata e)" by (simp add: e k8s_build_event_def)
  show "k \<in> identity_keys \<Longrightarrow> map_of (ev_metadata e) k = None"
    by (simp add: e k8s_identity_free)
  have "map_of (ev_metadata e) ''audit_id'' = Some (ev_correlation_id e)"
    by (simp add: e k8s_correlation_recorded) (simp add: k8s_build_event_def)
  then show "\<exists>k. map_of (ev_metadata e) k = Some (ev_correlation_id e)" ..
qed

subsection \<open>Reading the line back\<close>

text \<open>The object the API server writes for an event (the members the relay reads).\<close>

definition k8s_entry_json :: "k8s_entry \<Rightarrow> json" where
  "k8s_entry_json en = JObj
     [(''auditID'', JStr (audit_id en)), (''stage'', JStr (audit_stage en)),
      (''requestURI'', JStr (request_uri en)), (''verb'', JStr (audit_verb en)),
      (''user'', JObj [(''username'', JStr (username (audit_user en))), (''uid'', JStr (uid (audit_user en)))]),
      (''sourceIPs'', JArr (map JStr (source_ips en))),
      (''objectRef'', JObj
         [(''resource'', JStr (ref_resource (object_ref en))),
          (''namespace'', JStr (ref_namespace (object_ref en))),
          (''name'', JStr (ref_name (object_ref en))),
          (''apiVersion'', JStr (ref_api_version (object_ref en)))]),
      (''responseStatus'', JObj [(''code'', JNum (itoa (response_code en)))])]"

definition k8s_entry_ok :: "k8s_entry \<Rightarrow> bool" where
  "k8s_entry_ok en \<longleftrightarrow>
     list_all valid_utf8
       ([audit_id en, audit_stage en, request_uri en, audit_verb en, username (audit_user en),
         uid (audit_user en), ref_resource (object_ref en), ref_namespace (object_ref en),
         ref_name (object_ref en), ref_api_version (object_ref en)] @ source_ips en) \<and>
     - (2 ^ 63) \<le> response_code en \<and> response_code en < 2 ^ 63"

lemmas k8s_decoders = dec_k8s_entry_def dec_user_def dec_object_ref_def

lemma dec_k8s_entry_json:
  "k8s_entry_ok en \<Longrightarrow> dec_k8s_entry (k8s_entry_json en) zero_k8s = Some en"
  by (simp add: k8s_entry_json_def k8s_decoders decode_defs k8s_entry_ok_def dec_string_elems
      parse_int64_itoa zero_k8s_def upper_byte_def in_range_def byte_def)

lemma canon_k8s_entry_json: "k8s_entry_ok en \<Longrightarrow> canon (k8s_entry_json en) = k8s_entry_json en"
  by (auto simp: k8s_entry_json_def k8s_entry_ok_def valid_utf8_def is_ascii_def byte_def
      canon_elems_map list_all_iff)

lemma unmarshal_k8s_entry:
  assumes "k8s_entry_ok en"
  shows "unmarshal dec_k8s_entry zero_k8s (marshal (k8s_entry_json en)) = Some en"
proof -
  have "depth_elems (map JStr (source_ips en)) \<le> 0"
    by (simp add: depth_elems_le del: le_zero_eq)
  then have "numbers_ok (k8s_entry_json en)" "depth (k8s_entry_json en) \<le> max_depth"
    by (simp_all add: k8s_entry_json_def valid_number_itoa max_depth_def numbers_ok_elems_iff)
  then show ?thesis
    using assms by (simp add: unmarshal_marshal canon_k8s_entry_json dec_k8s_entry_json)
qed

subsection \<open>Properties\<close>

definition k8s_example_source :: k8s_source where
  "k8s_example_source =
     \<lparr>stages = {''ResponseComplete''}, drop_users = {''system:node''}, drop_verbs = {''watch''}\<rparr>"

definition k8s_example_entry :: "string \<Rightarrow> int \<Rightarrow> k8s_entry" where
  "k8s_example_entry verb code =
     \<lparr>audit_id = ''audit-1'', audit_stage = ''ResponseComplete'',
      request_uri = ''/api/v1/namespaces/default/secrets/x'', audit_verb = verb,
      audit_user = \<lparr>username = ''system:serviceaccount:default:web'', uid = ''u-1''\<rparr>,
      source_ips = [''10.0.0.1'', ''10.0.0.2''],
      object_ref = \<lparr>ref_resource = ''secrets'', ref_namespace = ''default'', ref_name = ''x'',
        ref_api_version = ''v1''\<rparr>,
      response_code = code\<rparr>"

text \<open>C38: Reading a Kubernetes audit line gives the classification of the event the line was
  printed from: every field the relay uses, the list of source addresses and the integer
  response code included, survives printing and decoding.\<close>

theorem k8s_parse_printed_line:
  assumes "k8s_entry_ok en"
  shows "k8s_parse s (marshal (k8s_entry_json en)) = k8s_classify s en"
  using unmarshal_k8s_entry [OF assms] by (simp add: k8s_parse_def)

theorem k8s_parse_printed_line_witness:
  "k8s_entry_ok (k8s_example_entry ''get'' 200) \<and>
   k8s_parse k8s_example_source (marshal (k8s_entry_json (k8s_example_entry ''get'' 200)))
     = k8s_classify k8s_example_source (k8s_example_entry ''get'' 200)"
proof -
  have ok: "k8s_entry_ok (k8s_example_entry ''get'' 200)"
    by (simp add: k8s_entry_ok_def k8s_example_entry_def valid_utf8_def is_ascii_def byte_def)
  then show ?thesis using k8s_parse_printed_line [OF ok] by simp
qed

text \<open>The entity name of a service account is its name without the namespace: for a user
  \<open>system:serviceaccount:ns:name\<close> it is all of \<open>name\<close>, further colons included, and any
  user not of that form is named in full.\<close>

lemma entity_name_of_cases:
  "entity_name_of (service_account_prefix @ rest) =
     (if CHR '':'' \<in> set rest then drop 1 (dropWhile (\<lambda>c. c \<noteq> CHR '':'') rest)
      else service_account_prefix @ rest) \<and>
   (has_prefix user service_account_prefix \<or> entity_name_of user = user)"
proof -
  have "entity_name_of (service_account_prefix @ x) =
      (if CHR '':'' \<in> set x then drop 1 (dropWhile (\<lambda>c. c \<noteq> CHR '':'') x)
       else service_account_prefix @ x)" for x
  proof (cases "CHR '':'' \<in> set x")
    case True
    then obtain ns name where x: "x = ns @ CHR '':'' # name" "CHR '':'' \<notin> set ns"
      using split_list_first by fastforce
    have "dropWhile (\<lambda>c. c \<noteq> CHR '':'') x = CHR '':'' # name"
      using x by (simp add: dropWhile_append)
    then show ?thesis using x True by (simp add: entity_name_of_def split_n2_present)
  next
    case False
    then show ?thesis by (simp add: entity_name_of_def split_n2_absent)
  qed
  then show ?thesis by (simp add: entity_name_of_def)
qed

lemma first_colon:
  "c \<notin> set xs \<Longrightarrow> c \<notin> set xs' \<Longrightarrow> xs @ c # ys = xs' @ c # ys' \<Longrightarrow> xs' = xs \<and> ys' = ys"
  by (induction xs arbitrary: xs') (auto simp: Cons_eq_append_conv)

lemma entity_name_of_iff:
  "entity_name_of user = n \<longleftrightarrow>
     (\<forall>ns name. user = ''system:serviceaccount:'' @ ns @ CHR '':'' # name \<longrightarrow> CHR '':'' \<notin> set ns \<longrightarrow> n = name) \<and>
     ((\<forall>ns name. user \<noteq> ''system:serviceaccount:'' @ ns @ CHR '':'' # name) \<longrightarrow> n = user)"
proof (cases "\<exists>ns name. user = service_account_prefix @ ns @ CHR '':'' # name")
  case True
  then obtain rest where rest: "user = service_account_prefix @ rest" "CHR '':'' \<in> set rest" by auto
  then obtain ns name where ns: "rest = ns @ CHR '':'' # name" "CHR '':'' \<notin> set ns" using split_list_first by fastforce
  have tail: "drop 1 (dropWhile (\<lambda>c. c \<noteq> CHR '':'') rest) = name"
    unfolding ns(1) using ns(2) by (subst dropWhile_append2) auto
  have name: "entity_name_of user = name"
    using conjunct1 [OF entity_name_of_cases [of rest]] unfolding if_P [OF rest(2)] rest(1) tail .
  have first: "ns' = ns \<and> name' = name" if "rest = ns' @ CHR '':'' # name'" "CHR '':'' \<notin> set ns'" for ns' name'
    by (rule first_colon [OF ns(2) that(2) trans [OF ns(1) [symmetric] that(1)]])
  have "(\<forall>ns' name'. rest = ns' @ CHR '':'' # name' \<longrightarrow> CHR '':'' \<notin> set ns' \<longrightarrow> n = name') \<longleftrightarrow> name = n"
    using ns(2) first [THEN conjunct2] by (metis ns(1))
  moreover have "\<not> (\<forall>ns' name'. rest \<noteq> ns' @ CHR '':'' # name')" by (metis ns(1))
  ultimately show ?thesis unfolding name
    unfolding rest(1) service_account_prefix_def [symmetric] same_append_eq by argo
next
  case False
  have "entity_name_of user = user"
  proof (cases "has_prefix user service_account_prefix")
    case True
    then obtain rest where "user = service_account_prefix @ rest" by (auto simp: has_prefix_iff)
    moreover from this False have "CHR '':'' \<notin> set rest" using split_list by fastforce
    ultimately show ?thesis using conjunct1 [OF entity_name_of_cases [of rest]] by simp
  next
    case other: False
    then show ?thesis using entity_name_of_cases by blast
  qed
  with False show ?thesis unfolding service_account_prefix_def [symmetric] by auto
qed

text \<open>An event is the one built for an entry exactly when all its parts are what they should be.\<close>

lemma k8s_build_event_iff:
  "e = k8s_build_event en uri \<longleftrightarrow>
     ev_type e = uri \<and> ev_correlation_id e = audit_id en \<and>
     sub_entity_id (ev_subject e) = uid (audit_user en) \<and> sub_accessor (ev_subject e) = uid (audit_user en) \<and>
     sub_entity_name (ev_subject e) = entity_name_of (username (audit_user en)) \<and>
     wf_map (ev_metadata e) \<and>
     map_of (ev_metadata e) =
       [''k8s_namespace'' \<mapsto> ref_namespace (object_ref en), ''k8s_resource'' \<mapsto> ref_resource (object_ref en),
        ''k8s_name'' \<mapsto> ref_name (object_ref en), ''k8s_verb'' \<mapsto> audit_verb en,
        ''k8s_request_uri'' \<mapsto> request_uri en,
        ''remote_address'' \<mapsto> (if source_ips en = [] then [] else hd (source_ips en)),
        ''response_code'' \<mapsto> itoa (response_code en), ''audit_id'' \<mapsto> audit_id en]"
    (is "_ \<longleftrightarrow> _ \<and> _ \<and> _ \<and> _ \<and> _ \<and> _ \<and> map_of _ = ?meta")
proof -
  have meta: "map_of (ev_metadata (k8s_build_event en uri)) = ?meta"
    by (rule ext) (simp add: k8s_build_event_def go_map split: list.split)
  have "wf_map (ev_metadata (k8s_build_event en uri))" by (simp add: k8s_build_event_def)
  then have "ev_metadata e = ev_metadata (k8s_build_event en uri) \<longleftrightarrow> wf_map (ev_metadata e) \<and> map_of (ev_metadata e) = ?meta"
    unfolding meta [symmetric] using wf_map_ext by metis
  moreover have "e = k8s_build_event en uri \<longleftrightarrow>
      ev_type e = uri \<and> ev_correlation_id e = audit_id en \<and>
      ev_subject e = ev_subject (k8s_build_event en uri) \<and> ev_metadata e = ev_metadata (k8s_build_event en uri)"
    by (cases e) (auto simp: k8s_build_event_def)
  ultimately show ?thesis
    by (cases "ev_subject e") (auto simp: k8s_build_event_def)
qed

text \<open>The cases of the switch exclude each other, so their order does not matter.\<close>

lemma switch_iff:
  assumes "a \<Longrightarrow> \<not> r" "b1 \<and> b2 \<Longrightarrow> \<not> (c1 \<and> c2)" "b1 \<and> b2 \<Longrightarrow> \<not> (d1 \<and> d2)" "c1 \<and> c2 \<Longrightarrow> \<not> (d1 \<and> d2)"
  shows "(if a then Some (p @ ka) else if b1 \<and> b2 \<and> r then Some (p @ kb) else if c1 \<and> c2 \<and> r then Some (p @ kc)
      else if d1 \<and> d2 \<and> r then Some (p @ kd) else None) = Some u \<longleftrightarrow>
    (\<exists>k. u = p @ k \<and> (k = ka \<and> a \<or> r \<and> (k = kb \<and> b1 \<and> b2 \<or> k = kc \<and> c1 \<and> c2 \<or> k = kd \<and> d1 \<and> d2)))"
  using assms by auto

lemma k8s_event_type_iff:
  "k8s_event_type en = Some uri \<longleftrightarrow>
     (\<exists>kind. uri = ''https://schemas.fiam/relay/k8s/'' @ kind \<and>
       (kind = ''secret-denied'' \<and> response_code en \<in> {401, 403} \<or>
        response_code en \<in> {200..<300} \<and>
         (kind = ''secret-accessed'' \<and> audit_verb en \<in> {''get'', ''create''} \<and>
            ref_resource (object_ref en) \<in> {''secrets'', ''configmaps''} \<or>
          kind = ''credential-issued'' \<and> audit_verb en = ''create'' \<and>
            ref_resource (object_ref en) \<in> {''serviceaccounts/token'', ''tokens''} \<or>
          kind = ''credential-revoked'' \<and> audit_verb en = ''delete'' \<and> ref_resource (object_ref en) = ''secrets'')))"
proof -
  have in_set: "x \<in> {a, b} \<longleftrightarrow> x = a \<or> x = b" "y \<in> {l..<h} \<longleftrightarrow> l \<le> y \<and> y < h" for x a b and y l h :: int
    by auto
  show ?thesis
    unfolding k8s_event_type_def Let_def success_def k8s_uri_def in_set
    by (rule switch_iff) auto
qed

text \<open>C15: The Kubernetes source, completely: a line is an event exactly when it is an audit event of a
  configured stage, no configured user is a prefix of its user, its verb is not dropped, and
  it is one of four things: a response 401 or 403 (secret-denied); or a response in the 2xx
  range to getting or creating a secret or config map (secret-accessed), creating a
  service-account token (credential-issued) or deleting a secret (credential-revoked). The
  event names the user, a service account by its name without the namespace, and carries the
  audit ID and the fields of the line as metadata.\<close>

theorem k8s_event_iff:
  "k8s_parse s line = Some e \<longleftrightarrow>
     (\<exists>en kind.
       unmarshal dec_k8s_entry zero_k8s line = Some en \<and>
       audit_stage en \<in> stages s \<and> audit_verb en \<notin> drop_verbs s \<and>
       (\<forall>d \<in> drop_users s. \<not> prefix d (username (audit_user en))) \<and>
       ev_type e = ''https://schemas.fiam/relay/k8s/'' @ kind \<and>
       (kind = ''secret-denied'' \<and> response_code en \<in> {401, 403} \<or>
        response_code en \<in> {200..<300} \<and>
         (kind = ''secret-accessed'' \<and> audit_verb en \<in> {''get'', ''create''} \<and>
            ref_resource (object_ref en) \<in> {''secrets'', ''configmaps''} \<or>
          kind = ''credential-issued'' \<and> audit_verb en = ''create'' \<and>
            ref_resource (object_ref en) \<in> {''serviceaccounts/token'', ''tokens''} \<or>
          kind = ''credential-revoked'' \<and> audit_verb en = ''delete'' \<and> ref_resource (object_ref en) = ''secrets'')) \<and>
       ev_correlation_id e = audit_id en \<and>
       sub_entity_id (ev_subject e) = uid (audit_user en) \<and> sub_accessor (ev_subject e) = uid (audit_user en) \<and>
       (\<forall>ns name. username (audit_user en) = ''system:serviceaccount:'' @ ns @ CHR '':'' # name \<longrightarrow> CHR '':'' \<notin> set ns \<longrightarrow>
          sub_entity_name (ev_subject e) = name) \<and>
       ((\<forall>ns name. username (audit_user en) \<noteq> ''system:serviceaccount:'' @ ns @ CHR '':'' # name) \<longrightarrow>
          sub_entity_name (ev_subject e) = username (audit_user en)) \<and>
       wf_map (ev_metadata e) \<and>
       map_of (ev_metadata e) =
         [''k8s_namespace'' \<mapsto> ref_namespace (object_ref en), ''k8s_resource'' \<mapsto> ref_resource (object_ref en),
          ''k8s_name'' \<mapsto> ref_name (object_ref en), ''k8s_verb'' \<mapsto> audit_verb en,
          ''k8s_request_uri'' \<mapsto> request_uri en,
          ''remote_address'' \<mapsto> (if source_ips en = [] then [] else hd (source_ips en)),
          ''response_code'' \<mapsto> itoa (response_code en), ''audit_id'' \<mapsto> audit_id en])"
proof -
  have dropped: "\<not> user_dropped s user \<longleftrightarrow> (\<forall>d \<in> drop_users s. \<not> prefix d user)" for user
    by (auto simp: user_dropped_def has_prefix_prefix)
  have parse: "k8s_parse s line = Some e \<longleftrightarrow>
      (\<exists>en uri. unmarshal dec_k8s_entry zero_k8s line = Some en \<and> audit_stage en \<in> stages s \<and>
        audit_verb en \<notin> drop_verbs s \<and> \<not> user_dropped s (username (audit_user en)) \<and>
        k8s_event_type en = Some uri \<and> e = k8s_build_event en uri)"
    by (auto simp: k8s_parse_def k8s_classify_def split: option.split)
  have pick: "(\<exists>en uri. u en \<and> v en \<and> x en \<and> y en \<and> (\<exists>k. uri = p k \<and> q en k) \<and> ty = uri \<and> z en) \<longleftrightarrow>
      (\<exists>en k. u en \<and> v en \<and> x en \<and> y en \<and> ty = p k \<and> q en k \<and> z en)"
    for u v x y p q z and ty :: string by blast
  have name: "sub_entity_name sub = entity_name_of user \<longleftrightarrow>
      (\<forall>ns name. user = ''system:serviceaccount:'' @ ns @ CHR '':'' # name \<longrightarrow> CHR '':'' \<notin> set ns \<longrightarrow>
         sub_entity_name sub = name) \<and>
      ((\<forall>ns name. user \<noteq> ''system:serviceaccount:'' @ ns @ CHR '':'' # name) \<longrightarrow> sub_entity_name sub = user)" for sub user
    using entity_name_of_iff by (subst eq_commute)
  show ?thesis
    unfolding parse dropped k8s_event_type_iff k8s_build_event_iff name pick conj_assoc ..
qed

theorem k8s_event_iff_witness:
  "\<exists>e. k8s_parse k8s_example_source (marshal (k8s_entry_json (k8s_example_entry ''get'' 200))) = Some e \<and>
     ev_type e = ''https://schemas.fiam/relay/k8s/secret-accessed'' \<and> sub_entity_name (ev_subject e) = ''web''"
proof -
  let ?en = "k8s_example_entry ''get'' 200"
  have ok: "k8s_entry_ok ?en"
    by (simp add: k8s_entry_ok_def k8s_example_entry_def valid_utf8_def is_ascii_def byte_def)
  have parsed: "k8s_parse k8s_example_source (marshal (k8s_entry_json ?en))
      = Some (k8s_build_event ?en (k8s_uri ''secret-accessed''))"
    by (simp add: k8s_parse_def unmarshal_k8s_entry [OF ok])
      (simp add: k8s_classify_def k8s_example_source_def k8s_example_entry_def user_dropped_def
        has_prefix_def k8s_event_type_def success_def)
  let ?e = "k8s_build_event ?en (k8s_uri ''secret-accessed'')"
  obtain en where
    "unmarshal dec_k8s_entry zero_k8s (marshal (k8s_entry_json ?en)) = Some en"
    "\<forall>ns name. username (audit_user en) = ''system:serviceaccount:'' @ ns @ CHR '':'' # name \<longrightarrow> CHR '':'' \<notin> set ns \<longrightarrow>
       sub_entity_name (ev_subject ?e) = name"
    using iffD1 [OF k8s_event_iff parsed] by (elim exE conjE) (rule that)
  moreover have "username (audit_user ?en) = ''system:serviceaccount:'' @ ''default'' @ CHR '':'' # ''web''"
    by (simp add: k8s_example_entry_def)
  moreover have "CHR '':'' \<notin> set ''default''" by simp
  ultimately have "sub_entity_name (ev_subject ?e) = ''web''"
    unfolding unmarshal_k8s_entry [OF ok] option.inject by blast
  moreover have "ev_type ?e = ''https://schemas.fiam/relay/k8s/secret-accessed''"
    by (simp add: k8s_build_event_def k8s_uri_def)
  ultimately show ?thesis using parsed by blast
qed

end
