(* ===== verification/Opa_Source.thy ===== *)
theory Opa_Source
  imports Source
begin

text \<open>
  \<open>sources/opa/source.go\<close>: OPA decision-log lines. \<open>opa_source\<close> is the configured source,
  \<open>opa_decision\<close> the decoded decision (its \<open>result\<close> is any JSON value), \<open>opa_parse\<close> is
  \<open>Parse\<close> and \<open>is_allowed\<close> is \<open>isAllowed\<close>.
\<close>

record opa_source =
  emit_allow :: bool
  drop_paths :: "string set"

definition opa_emit_allow :: "config_map \<Rightarrow> bool result" where
  "opa_emit_allow cfg =
     (case map_of cfg ''emit_allow'' of
        None \<Rightarrow> Inr False
      | Some (GBool b) \<Rightarrow> Inr b
      | Some _ \<Rightarrow> Inl (EMsg ''opa source: emit_allow must be bool'' []))"

definition opa_drop_paths :: "config_map \<Rightarrow> string set result" where
  "opa_drop_paths cfg =
     (case map_of cfg ''drop_paths'' of
        None \<Rightarrow> Inr {}
      | Some v \<Rightarrow>
          (case remarshal (dec_list dec_string []) [] v of
             MarshalError \<Rightarrow> Inl (EWrap ''opa source: marshal drop_paths: %w'' [] EJson)
           | UnmarshalError \<Rightarrow> Inl (EWrap ''opa source: parse drop_paths: %w'' [] EJson)
           | Decoded ps \<Rightarrow> Inr (set ps)))"

definition new_opa_source :: "config_map \<Rightarrow> opa_source result" where
  "new_opa_source cfg =
     (case opa_emit_allow cfg of
        Inl e \<Rightarrow> Inl e
      | Inr b \<Rightarrow>
          (case opa_drop_paths cfg of
             Inl e \<Rightarrow> Inl e
           | Inr ps \<Rightarrow> Inr \<lparr>emit_allow = b, drop_paths = ps\<rparr>))"

record opa_decision =
  decision_id :: string
  decision_path :: string
  decision_result :: json
  decision_labels :: "string gmap"
  decision_input :: "json gmap"

definition zero_decision :: opa_decision where
  "zero_decision =
     \<lparr>decision_id = [], decision_path = [], decision_result = JNull, decision_labels = [],
      decision_input = []\<rparr>"

definition dec_opa_decision :: "opa_decision decoder" where
  "dec_opa_decision = dec_struct
     [(''decision_id'', dec_field decision_id decision_id_update dec_string),
      (''path'', dec_field decision_path decision_path_update dec_string),
      (''result'', dec_field decision_result decision_result_update dec_any),
      (''labels'', dec_field decision_labels decision_labels_update (dec_map dec_string [])),
      (''input'', dec_field decision_input decision_input_update (dec_map dec_any JNull))]"

fun is_allowed :: "json \<Rightarrow> bool" where
  "is_allowed (JBool b) = b"
| "is_allowed r = (r \<noteq> JNull)"

definition opa_uri :: "string \<Rightarrow> string" where
  "opa_uri kind = ''https://schemas.fiam/relay/opa/'' @ kind"

definition opa_build_event :: "opa_decision \<Rightarrow> string \<Rightarrow> event" where
  "opa_build_event d uri =
     \<lparr>ev_type = uri,
      ev_correlation_id = decision_id d,
      ev_subject =
        \<lparr>sub_entity_id = [], sub_entity_name = map_get (decision_labels d) ''id'', sub_accessor = []\<rparr>,
      ev_metadata = map_lit
        [(''opa_path'', decision_path d),
         (''opa_decision_id'', decision_id d),
         (''opa_instance'', map_get (decision_labels d) ''id''),
         (''opa_version'', map_get (decision_labels d) ''version'')]\<rparr>"

definition opa_classify :: "opa_source \<Rightarrow> opa_decision \<Rightarrow> event option" where
  "opa_classify s d =
     (if decision_path d \<in> drop_paths s then None
      else if \<not> is_allowed (decision_result d) then Some (opa_build_event d (opa_uri ''policy-denied''))
      else if emit_allow s then Some (opa_build_event d (opa_uri ''policy-allowed''))
      else None)"

definition opa_parse :: "opa_source \<Rightarrow> line_parser" where
  "opa_parse s line =
     (case unmarshal dec_opa_decision zero_decision line of
        None \<Rightarrow> None
      | Some d \<Rightarrow> opa_classify s d)"

subsection \<open>The contract of a source\<close>

lemma opa_parse_event:
  assumes "opa_parse s l = Some e"
  obtains d uri where "e = opa_build_event d uri"
  using assms by (auto simp: opa_parse_def opa_classify_def split: option.splits if_splits)

lemma opa_correlation_recorded:
  "map_of (ev_metadata (opa_build_event d uri)) ''opa_decision_id'' = Some (decision_id d)"
  by (simp add: opa_build_event_def go_map)

lemma opa_identity_free:
  "k \<in> identity_keys \<Longrightarrow> map_of (ev_metadata (opa_build_event d uri)) k = None"
  by (auto simp: opa_build_event_def map_lit_None_iff identity_keys_def)

interpretation opa: log_source "opa_parse s" for s
proof unfold_locales
  fix l e k
  show "opa_parse s [] = None" by (simp add: opa_parse_def)
  assume "opa_parse s l = Some e"
  then obtain d uri where e: "e = opa_build_event d uri" by (rule opa_parse_event)
  show "wf_map (ev_metadata e)" by (simp add: e opa_build_event_def)
  show "k \<in> identity_keys \<Longrightarrow> map_of (ev_metadata e) k = None"
    by (simp add: e opa_identity_free)
  have "map_of (ev_metadata e) ''opa_decision_id'' = Some (ev_correlation_id e)"
    by (simp add: e opa_correlation_recorded) (simp add: opa_build_event_def)
  then show "\<exists>k. map_of (ev_metadata e) k = Some (ev_correlation_id e)" ..
qed

subsection \<open>Reading the line back\<close>

text \<open>The object OPA writes for a decision (the members the relay reads).\<close>

definition opa_decision_json :: "opa_decision \<Rightarrow> json" where
  "opa_decision_json d = JObj
     [(''decision_id'', JStr (decision_id d)), (''path'', JStr (decision_path d)),
      (''result'', decision_result d), (''labels'', JObj (string_members (decision_labels d)))]"

text \<open>
  A decision Go can hold: valid UTF-8, labels in canonical order, and a result that is a
  canonical JSON value (number literals in range, maps sorted).
\<close>

definition opa_decision_ok :: "opa_decision \<Rightarrow> bool" where
  "opa_decision_ok d \<longleftrightarrow>
     valid_utf8 (decision_id d) \<and> valid_utf8 (decision_path d) \<and>
     wf_map (decision_labels d) \<and>
     list_all (\<lambda>(k, v). valid_utf8 k \<and> valid_utf8 v) (decision_labels d) \<and>
     numbers_ok (decision_result d) \<and> Suc (depth (decision_result d)) \<le> max_depth \<and>
     canon (decision_result d) = decision_result d \<and>
     any_of (decision_result d) = Some (decision_result d) \<and> decision_input d = []"

lemma canon_labels:
  "list_all (\<lambda>(k, v). valid_utf8 k \<and> valid_utf8 v) m \<Longrightarrow>
   canon_members (string_members m) = string_members m"
  unfolding canon_string_members
  by (rule arg_cong [where f = string_members]) (induction m; auto simp: valid_utf8_def)

lemma dec_opa_decision_json:
  "opa_decision_ok d \<Longrightarrow> dec_opa_decision (opa_decision_json d) zero_decision = Some d"
  using dec_string_map [of "decision_labels d"]
  by (simp add: opa_decision_json_def dec_opa_decision_def dec_string_def dec_field_def dec_struct_def
      dec_any_def opa_decision_ok_def zero_decision_def upper_byte_def in_range_def byte_def)

lemma unmarshal_opa_decision:
  assumes "opa_decision_ok d"
  shows "unmarshal dec_opa_decision zero_decision (marshal (opa_decision_json d)) = Some d"
proof -
  have "numbers_ok (opa_decision_json d)" "depth (opa_decision_json d) \<le> max_depth"
    using assms
    by (simp_all add: opa_decision_json_def opa_decision_ok_def string_members_ok max_depth_def)
  moreover have "canon (opa_decision_json d) = opa_decision_json d"
    using assms
    by (simp add: opa_decision_json_def opa_decision_ok_def canon_labels is_ascii_def byte_def valid_utf8_def)
  ultimately show ?thesis
    using assms by (simp add: unmarshal_marshal dec_opa_decision_json)
qed

subsection \<open>Properties\<close>

definition opa_example_source :: "bool \<Rightarrow> opa_source" where
  "opa_example_source b = \<lparr>emit_allow = b, drop_paths = {''data.system.main''}\<rparr>"

definition opa_example_decision :: "json \<Rightarrow> opa_decision" where
  "opa_example_decision r =
     \<lparr>decision_id = ''dec-1'', decision_path = ''data.policy.allow'', decision_result = r,
      decision_labels = [(''id'', ''opa-prod''), (''version'', ''0.63.0'')], decision_input = []\<rparr>"

text \<open>C9: Reading an OPA decision line gives the classification of the decision the line was
  printed from: the identifiers, the labels and the result, any canonical JSON value, survive
  printing and decoding.\<close>

theorem opa_parse_printed_line:
  assumes "opa_decision_ok d"
  shows "opa_parse s (marshal (opa_decision_json d)) = opa_classify s d"
  using unmarshal_opa_decision [OF assms] by (simp add: opa_parse_def)

theorem opa_parse_printed_line_witness:
  "opa_decision_ok (opa_example_decision (JArr [JNum ''1'', JBool False])) \<and>
   opa_parse (opa_example_source True)
       (marshal (opa_decision_json (opa_example_decision (JArr [JNum ''1'', JBool False]))))
     = opa_classify (opa_example_source True) (opa_example_decision (JArr [JNum ''1'', JBool False]))"
proof -
  have ok: "opa_decision_ok (opa_example_decision (JArr [JNum ''1'', JBool False]))"
    by (simp add: opa_decision_ok_def opa_example_decision_def valid_utf8_def is_ascii_def byte_def
        wf_map_def max_depth_def valid_number_def num_start_def is_digit_def num_accepting_def
        float64_in_range_def literal_scale_def digits_of_def exp_of_def float64_overflow_def)
  then show ?thesis using opa_parse_printed_line [OF ok] by simp
qed


text \<open>A line that carries no decision at all, the JSON text \<open>null\<close>, is reported as a
  denied policy with empty identity, unless the empty path is dropped.\<close>

lemma opa_null_line_denied:
  "opa_parse s ''null'' =
     (if [] \<in> drop_paths s then None
      else Some (opa_build_event zero_decision (opa_uri ''policy-denied'')))"
proof -
  have "unmarshal dec_opa_decision zero_decision (marshal JNull) = Some zero_decision"
    by (subst unmarshal_marshal) (simp_all add: dec_opa_decision_def dec_struct_def)
  then show ?thesis
    by (simp add: opa_parse_def opa_classify_def zero_decision_def)
qed

end
