(* ===== verification/Http.thy ===== *)
theory Http
  imports GoValue
begin

text \<open>
  What the relay sees of the outside: HTTP servers, environment variables and files. The
  record \<open>world\<close> carries them and the requests made so far; a server answers from the
  whole history and the request, so any deterministic stateful service is an instance.
  \<open>http_do\<close> is \<open>Client.Do\<close>. Whether \<open>net/url\<close> accepts an address, which decides if
  \<open>http.NewRequest\<close> succeeds, is the parameter \<open>url_ok\<close>.
\<close>

record request =
  rq_method :: string
  rq_url :: string
  rq_headers :: "string gmap"
  rq_body :: string

record response =
  rs_status :: int
  rs_body :: string

record world =
  server :: "request list \<Rightarrow> request \<Rightarrow> string + response"
  url_ok :: "string \<Rightarrow> bool"
  getenv :: "string \<Rightarrow> string"
  read_file :: "string \<Rightarrow> string + string"
  sent :: "request list"

definition http_do :: "request \<Rightarrow> world \<Rightarrow> response result \<times> world" where
  "http_do rq w =
     ((case server w (sent w) rq of Inl t \<Rightarrow> Inl (EEnv t) | Inr r \<Rightarrow> Inr r),
      w\<lparr>sent := sent w @ [rq]\<rparr>)"

text \<open>\<open>http.NewRequestWithContext\<close> without headers.\<close>

definition new_request :: "world \<Rightarrow> string \<Rightarrow> string \<Rightarrow> string \<Rightarrow> request result" where
  "new_request w meth url body =
     (if url_ok w url
      then Inr \<lparr>rq_method = meth, rq_url = url, rq_headers = [], rq_body = body\<rparr>
      else Inl (EEnv ''parse url''))"

definition set_header :: "string \<Rightarrow> string \<Rightarrow> request \<Rightarrow> request" where
  "set_header k v rq = rq\<lparr>rq_headers := map_set k v (rq_headers rq)\<rparr>"

subsection \<open>What a request changes\<close>

text \<open>A computation on the world that may only make requests, and at most \<open>n\<close> of them.\<close>

definition requests_only :: "nat \<Rightarrow> (world \<Rightarrow> 'a \<times> world) \<Rightarrow> bool" where
  "requests_only n f \<longleftrightarrow>
     (\<forall>w. \<exists>rqs. snd (f w) = w\<lparr>sent := sent w @ rqs\<rparr> \<and> length rqs \<le> n)"

lemma requests_onlyD:
  "requests_only n f \<Longrightarrow> f w = (x, w') \<Longrightarrow> \<exists>rqs. w' = w\<lparr>sent := sent w @ rqs\<rparr> \<and> length rqs \<le> n"
  unfolding requests_only_def by (metis snd_conv)

lemma requests_only_mono: "requests_only m f \<Longrightarrow> m \<le> n \<Longrightarrow> requests_only n f"
  unfolding requests_only_def by (meson order_trans)

lemma requests_only_pure: "requests_only n (\<lambda>w. (g w, w))"
  unfolding requests_only_def by (metis append_Nil2 le0 list.size(3) snd_conv world.surjective
      world.update_convs(5))

lemma requests_only_http_do: "requests_only 1 (http_do rq)"
  unfolding requests_only_def http_do_def by (intro allI exI [of _ "[rq]"]) simp

lemma http_do_world [frame]:
  "snd (http_do rq w) = w\<lparr>sent := sent w @ [rq]\<rparr>"
  by (simp add: http_do_def)

lemma http_do_result:
  "fst (http_do rq w) = (case server w (sent w) rq of Inl t \<Rightarrow> Inl (EEnv t) | Inr r \<Rightarrow> Inr r)"
  by (simp add: http_do_def)

text \<open>Sequencing: the bounds add up.\<close>

lemma requests_only_bind:
  assumes "requests_only m f" "\<And>x. requests_only n (g x)"
  shows "requests_only (m + n) (\<lambda>w. case f w of (x, w') \<Rightarrow> g x w')"
  unfolding requests_only_def
proof
  fix w
  obtain x w' where f: "f w = (x, w')" by (cases "f w")
  from requests_onlyD [OF assms(1) f] obtain r1 where
    r1: "w' = w\<lparr>sent := sent w @ r1\<rparr>" "length r1 \<le> m" by blast
  obtain y w'' where g: "g x w' = (y, w'')" by (cases "g x w'")
  from requests_onlyD [OF assms(2) g] obtain r2 where
    r2: "w'' = w'\<lparr>sent := sent w' @ r2\<rparr>" "length r2 \<le> n" by blast
  show "\<exists>rqs. snd (case f w of (x, w') \<Rightarrow> g x w') = w\<lparr>sent := sent w @ rqs\<rparr> \<and> length rqs \<le> m + n"
    using f g r1 r2 by (intro exI [of _ "r1 @ r2"]) simp
qed

lemma requests_only_if:
  "requests_only n f \<Longrightarrow> requests_only n g \<Longrightarrow> requests_only n (\<lambda>w. if c w then f w else g w)"
  by (simp add: requests_only_def)

end
