(* ===== verification/Action.thy ===== *)
theory Action
  imports Http
begin

text \<open>
  \<open>relay/action.go\<close>: the inbound SET with its JSON reading, and the contract of an action
  adapter as the locale \<open>action_adapter\<close>: acting on a SET only makes requests, at most
  \<open>bound\<close> of them, and returns nil only when each of them was answered and no answer was
  a failure. The router proves its facts under the contract; the four adapters interpret it.
\<close>

text \<open>A nil payload and an empty one are never told apart, so both are the empty map.\<close>

record inbound_set =
  in_event_type :: string
  in_source_id :: string
  in_correlation_id :: string
  in_reason :: string
  in_payload :: "json gmap"

definition zero_inbound :: inbound_set where
  "zero_inbound = \<lparr>in_event_type = [], in_source_id = [], in_correlation_id = [], in_reason = [],
     in_payload = []\<rparr>"

definition dec_inbound :: "inbound_set decoder" where
  "dec_inbound = dec_struct
     [(''event_type'', dec_field in_event_type in_event_type_update dec_string),
      (''source_id'', dec_field in_source_id in_source_id_update dec_string),
      (''correlation_id'', dec_field in_correlation_id in_correlation_id_update dec_string),
      (''reason'', dec_field in_reason in_reason_update dec_string),
      (''payload'', dec_field in_payload in_payload_update (dec_map dec_any JNull))]"

text \<open>The struct in field order; every field but the type is \<open>omitempty\<close>.\<close>

definition opt_string :: "string \<Rightarrow> string \<Rightarrow> (string \<times> json) list" where
  "opt_string k v = (if v = [] then [] else [(k, JStr v)])"

definition inbound_json :: "inbound_set \<Rightarrow> json" where
  "inbound_json s = JObj
     ([(''event_type'', JStr (in_event_type s))] @
      opt_string ''source_id'' (in_source_id s) @
      opt_string ''correlation_id'' (in_correlation_id s) @
      opt_string ''reason'' (in_reason s) @
      (if in_payload s = [] then [] else [(''payload'', JObj (in_payload s))]))"

text \<open>\<open>v, _ := set.Payload[k].(string)\<close>\<close>

definition payload_string :: "inbound_set \<Rightarrow> string \<Rightarrow> string option" where
  "payload_string s k = (case map_of (in_payload s) k of Some (JStr v) \<Rightarrow> Some v | _ \<Rightarrow> None)"

text \<open>\<open>if v, ok := cfg[k].(string); ok && v != "" { x = strings.TrimRight(v, "/") }\<close>\<close>

definition cfg_base_url :: "config_map \<Rightarrow> string \<Rightarrow> string \<Rightarrow> string" where
  "cfg_base_url cfg k d =
     (case map_of cfg k of
        Some (GStr v) \<Rightarrow> (if v \<noteq> [] then trim_right v CHR ''/'' else d)
      | _ \<Rightarrow> d)"

text \<open>\<open>json.NewDecoder(r).Decode(&x)\<close> with \<open>zero\<close> in \<open>x\<close>.\<close>

definition decode_body :: "'a decoder \<Rightarrow> 'a \<Rightarrow> string \<Rightarrow> 'a option" where
  "decode_body d zero text = (case json_first text of None \<Rightarrow> None | Some j \<Rightarrow> d j zero)"

lemma max_depth_Suc [simp]: "Suc (Suc 0) \<le> max_depth" "Suc (Suc (Suc 0)) \<le> max_depth"
  by (simp_all add: max_depth_def)

lemma decode_body_marshal:
  "numbers_ok v \<Longrightarrow> depth v \<le> max_depth \<Longrightarrow> \<forall>t. v \<noteq> JNum t \<Longrightarrow>
   decode_body d zero (marshal v @ rest) = d (canon v) zero"
  by (simp add: decode_body_def json_first_marshal)

text \<open>U+2014, which the sources use in texts.\<close>

definition em_dash :: string where
  "em_dash = [CHR 0xE2, CHR 0x80, CHR 0x94]"

subsection \<open>The CAEP event types\<close>

definition caep :: "string \<Rightarrow> string" where
  "caep kind = ''https://schemas.openid.net/secevent/caep/event-type/'' @ kind"

definition event_compromised :: string where
  "event_compromised = caep ''source-compromised''"

definition event_degraded :: string where
  "event_degraded = caep ''source-degraded''"

definition event_recovered :: string where
  "event_recovered = caep ''source-recovered''"

definition caep_types :: "string list" where
  "caep_types = [event_compromised, event_degraded, event_recovered]"

lemma caep_distinct [simp]:
  "event_compromised \<noteq> event_degraded" "event_compromised \<noteq> event_recovered"
  "event_degraded \<noteq> event_compromised" "event_degraded \<noteq> event_recovered"
  "event_recovered \<noteq> event_compromised" "event_recovered \<noteq> event_degraded"
  by (simp_all add: event_compromised_def event_degraded_def event_recovered_def caep_def)

lemma caep_types_distinct: "distinct caep_types"
  by (simp add: caep_types_def)

lemma requests_only_map:
  "requests_only n f \<Longrightarrow> requests_only n (\<lambda>w. case f w of (x, w') \<Rightarrow> (h x, w'))"
  by (simp add: requests_only_def split_def)

subsection \<open>Answered requests\<close>

text \<open>
  Statuses an adapter may treat as success: below 400, 403 (a token already revoked) and 404
  (a policy already gone).
\<close>

definition acceptable :: "int \<Rightarrow> bool" where
  "acceptable status \<longleftrightarrow> status < 400 \<or> status = 403 \<or> status = 404"

fun answered :: "(request list \<Rightarrow> request \<Rightarrow> string + response) \<Rightarrow> request list \<Rightarrow> request list \<Rightarrow> bool" where
  "answered srv hist [] = True"
| "answered srv hist (rq # rqs) =
     (case srv hist rq of
        Inl _ \<Rightarrow> False
      | Inr r \<Rightarrow> acceptable (rs_status r) \<and> answered srv (hist @ [rq]) rqs)"

lemma answered_append:
  "answered srv hist (xs @ ys) \<longleftrightarrow> answered srv hist xs \<and> answered srv (hist @ xs) ys"
  by (induction xs arbitrary: hist) (auto split: sum.split)

subsection \<open>The contract\<close>

record adapter =
  ad_name :: string
  ad_types :: "string list"
  ad_act :: "inbound_set \<Rightarrow> world \<Rightarrow> err \<times> world"

locale action_adapter =
  fixes act :: "inbound_set \<Rightarrow> world \<Rightarrow> err \<times> world" and bound :: nat
  assumes act_requests: "requests_only bound (act s)"
    and act_nil: "act s w = (None, w\<lparr>sent := sent w @ rqs\<rparr>) \<Longrightarrow> answered (server w) (sent w) rqs"

context action_adapter
begin

lemma act_sent:
  obtains er rqs where "act s w = (er, w\<lparr>sent := sent w @ rqs\<rparr>)" "length rqs \<le> bound"
  using requests_onlyD [OF act_requests] by (metis surj_pair)

lemma act_world: "server (snd (act s w)) = server w" "getenv (snd (act s w)) = getenv w"
  "read_file (snd (act s w)) = read_file w" "url_ok (snd (act s w)) = url_ok w"
  by (rule act_sent [of s w]; simp)+

lemma act_ok:
  assumes "act s w = (None, w')"
  obtains rqs where "w' = w\<lparr>sent := sent w @ rqs\<rparr>" "length rqs \<le> bound" "answered (server w) (sent w) rqs"
proof (rule act_sent [of s w])
  fix er rqs assume "act s w = (er, w\<lparr>sent := sent w @ rqs\<rparr>)" "length rqs \<le> bound"
  with assms act_nil [of s w rqs] show thesis by (auto intro: that)
qed

end

text \<open>What is known after one request: the shape every adapter's proof follows.\<close>

lemma http_do_cases:
  obtains (failed) t where "server w (sent w) rq = Inl t"
      "http_do rq w = (Inl (EEnv t), w\<lparr>sent := sent w @ [rq]\<rparr>)"
  | (answer) r where "server w (sent w) rq = Inr r"
      "http_do rq w = (Inr r, w\<lparr>sent := sent w @ [rq]\<rparr>)"
  by (cases "server w (sent w) rq") (simp_all add: http_do_def)

lemma world_sent_eq [simp]:
  "(w\<lparr>sent := xs\<rparr> = w\<lparr>sent := ys\<rparr>) = (xs = ys)"
  "(w = w\<lparr>sent := sent w @ ys\<rparr>) = (ys = [])"
proof -
  have a: "sent (w\<lparr>sent := xs\<rparr>) = xs" for xs by simp
  show "(w\<lparr>sent := xs\<rparr> = w\<lparr>sent := ys\<rparr>) = (xs = ys)" using a by metis
  have "w = w\<lparr>sent := sent w\<rparr>" by simp
  then show "(w = w\<lparr>sent := sent w @ ys\<rparr>) = (ys = [])"
    using a [of "sent w @ ys"] by (metis append.right_neutral append_self_conv)
qed

subsection \<open>Reading an inbound SET back\<close>

definition inbound_ok :: "inbound_set \<Rightarrow> bool" where
  "inbound_ok s \<longleftrightarrow>
     list_all valid_utf8 [in_event_type s, in_source_id s, in_correlation_id s, in_reason s] \<and>
     numbers_ok_members (in_payload s) \<and> depth_members (in_payload s) \<le> max_depth - 2 \<and>
     canon_members (in_payload s) = in_payload s \<and> any_members (in_payload s) [] = Some (in_payload s)"

lemma dec_any_members: "dec_map_members dec_any z ms m = any_members ms m"
  by (induction ms arbitrary: m) (auto simp: dec_any_def split: option.split)

lemma depth_inbound:
  assumes "inbound_ok s"
  shows "depth (inbound_json s) \<le> max_depth" "numbers_ok (inbound_json s)"
  using assms max_depth_pos
  by (auto simp: inbound_json_def inbound_ok_def opt_string_def max_depth_def)

lemma canon_inbound: "inbound_ok s \<Longrightarrow> canon (inbound_json s) = inbound_json s"
  by (auto simp: inbound_json_def inbound_ok_def opt_string_def valid_utf8_def is_ascii_def byte_def)

lemma dec_inbound_json:
  "inbound_ok s \<Longrightarrow> dec_inbound (inbound_json s) zero_inbound = Some s"
  by (auto simp: inbound_json_def inbound_ok_def opt_string_def dec_inbound_def dec_struct_def
      dec_field_def dec_string_def dec_map_def dec_any_members zero_inbound_def
      upper_byte_def in_range_def byte_def)

lemma unmarshal_inbound:
  "inbound_ok s \<Longrightarrow> unmarshal dec_inbound zero_inbound (marshal (inbound_json s)) = Some s"
  by (simp add: unmarshal_marshal depth_inbound canon_inbound dec_inbound_json)

end
