(* ===== verification/Signing.thy ===== *)
theory Signing
  imports Http
begin

text \<open>
  \<open>relay/set.go\<close> and \<open>relay/signing.go\<close>: the SET and its JSON text, loading the signing key,
  and \<open>SignSET\<close>. The cryptographic libraries (PEM, X.509 and the JOSE package) are the
  record \<open>crypto\<close>, a parameter; base64url, which turns the thumbprint into the key ID, is
  modelled.
\<close>

text \<open>The relay puts one event into a SET; \<open>set_events\<close> maps its type to its payload.\<close>

record ssf_set =
  set_issuer :: string
  set_issued_at :: int
  set_jwt_id :: string
  set_correlation_id :: string
  set_source :: string
  set_events :: "string gmap gmap"

definition event_members :: "string gmap gmap \<Rightarrow> (string \<times> json) list" where
  "event_members evs = map (\<lambda>(t, p). (t, JObj (string_members p))) evs"

text \<open>The struct in field order; \<open>correlation_id\<close> is \<open>omitempty\<close>.\<close>

definition set_json :: "ssf_set \<Rightarrow> json" where
  "set_json s = JObj
     ([(''iss'', JStr (set_issuer s)),
       (''iat'', JNum (itoa (set_issued_at s))),
       (''jti'', JStr (set_jwt_id s))] @
      (if set_correlation_id s = [] then [] else [(''correlation_id'', JStr (set_correlation_id s))]) @
      [(''source'', JStr (set_source s)),
       (''events'', JObj (event_members (set_events s)))])"

definition marshal_set :: "ssf_set \<Rightarrow> string" where
  "marshal_set s = marshal (set_json s)"

subsection \<open>base64url without padding\<close>

definition b64_char :: "nat \<Rightarrow> char" where
  "b64_char n =
     (if n < 26 then char_of (65 + n) else if n < 52 then char_of (71 + n)
      else if n < 62 then char_of (n - 4) else if n = 62 then CHR ''-'' else CHR ''_'')"

fun b64url :: "string \<Rightarrow> string" where
  "b64url [] = []"
| "b64url [a] = [b64_char (byte a div 4), b64_char (byte a mod 4 * 16)]"
| "b64url [a, b] =
     [b64_char (byte a div 4), b64_char (byte a mod 4 * 16 + byte b div 16), b64_char (byte b mod 16 * 4)]"
| "b64url (a # b # c # r) =
     b64_char (byte a div 4) # b64_char (byte a mod 4 * 16 + byte b div 16)
     # b64_char (byte b mod 16 * 4 + byte c div 64) # b64_char (byte c mod 64) # b64url r"

subsection \<open>The signing key\<close>

record ('k, 'j) crypto =
  pem_decode :: "string \<Rightarrow> string option"
  parse_ec_key :: "string \<Rightarrow> string + 'k"
  thumbprint :: "'k \<Rightarrow> string + string"
  marshal_jwk :: "'k \<Rightarrow> string \<Rightarrow> go_error + string"
  new_signer :: "'k \<Rightarrow> (string \<times> string) list \<Rightarrow> string option"
  jose_sign :: "'k \<Rightarrow> (string \<times> string) list \<Rightarrow> string \<Rightarrow> string + 'j"
  compact :: "'j \<Rightarrow> go_error + string"

record 'k signing_key =
  private_key :: 'k
  kid :: string
  public_jwk :: string

definition load_signing_key :: "('k, 'j) crypto \<Rightarrow> string \<Rightarrow> 'k signing_key result" where
  "load_signing_key cr pem =
     (case pem_decode cr pem of
        None \<Rightarrow> Inl (EMsg ''signing key: no PEM block found'' [])
      | Some der \<Rightarrow>
     (case parse_ec_key cr der of
        Inl t \<Rightarrow> Inl (EWrap ''signing key: parse EC private key: %w'' [] (EEnv t))
      | Inr k \<Rightarrow>
     (case thumbprint cr k of
        Inl t \<Rightarrow> Inl (EWrap ''signing key: compute JWK thumbprint: %w'' [] (EEnv t))
      | Inr thumb \<Rightarrow>
     (case marshal_jwk cr k (b64url thumb) of
        Inl e \<Rightarrow> Inl (EWrap ''signing key: marshal public JWK: %w'' [] e)
      | Inr jwk \<Rightarrow> Inr \<lparr>private_key = k, kid = b64url thumb, public_jwk = jwk\<rparr>))))"

text \<open>The protected header: algorithm, type and key ID.\<close>

definition jose_header :: "'k signing_key \<Rightarrow> (string \<times> string) list" where
  "jose_header sk = [(''alg'', ''ES256''), (''typ'', ''secevent+jwt''), (''kid'', kid sk)]"

text \<open>Marshalling a SET cannot fail: it holds strings, an integer and maps of strings.\<close>

definition sign_set :: "('k, 'j) crypto \<Rightarrow> ssf_set \<Rightarrow> 'k signing_key \<Rightarrow> string result" where
  "sign_set cr s sk =
     (case new_signer cr (private_key sk) (jose_header sk) of
        Some t \<Rightarrow> Inl (EWrap ''sign SET: create signer: %w'' [] (EEnv t))
      | None \<Rightarrow>
     (case jose_sign cr (private_key sk) (jose_header sk) (marshal_set s) of
        Inl t \<Rightarrow> Inl (EWrap ''sign SET: sign: %w'' [] (EEnv t))
      | Inr jws \<Rightarrow> compact cr jws))"

subsection \<open>Reading a SET back\<close>

definition zero_set :: ssf_set where
  "zero_set = \<lparr>set_issuer = [], set_issued_at = 0, set_jwt_id = [], set_correlation_id = [],
     set_source = [], set_events = []\<rparr>"

text \<open>The decoder a receiver obtains from the struct tags of \<open>SET\<close>.\<close>

definition dec_set :: "ssf_set decoder" where
  "dec_set = dec_struct
     [(''iss'', dec_field set_issuer set_issuer_update dec_string),
      (''iat'', dec_field set_issued_at set_issued_at_update dec_int),
      (''jti'', dec_field set_jwt_id set_jwt_id_update dec_string),
      (''correlation_id'', dec_field set_correlation_id set_correlation_id_update dec_string),
      (''source'', dec_field set_source set_source_update dec_string),
      (''events'', dec_field set_events set_events_update (dec_map (dec_map dec_string []) []))]"

definition valid_string_map :: "string gmap \<Rightarrow> bool" where
  "valid_string_map m \<longleftrightarrow> wf_map m \<and> list_all (\<lambda>(k, v). valid_utf8 k \<and> valid_utf8 v) m"

text \<open>A SET whose strings are valid UTF-8 and whose maps are in canonical order.\<close>

definition set_ok :: "ssf_set \<Rightarrow> bool" where
  "set_ok s \<longleftrightarrow>
     list_all valid_utf8 [set_issuer s, set_jwt_id s, set_correlation_id s, set_source s] \<and>
     - (2 ^ 63) \<le> set_issued_at s \<and> set_issued_at s < 2 ^ 63 \<and>
     wf_map (set_events s) \<and>
     list_all (\<lambda>(t, p). valid_utf8 t \<and> valid_string_map p) (set_events s)"

lemma canon_string_members_valid:
  "valid_string_map m \<Longrightarrow> canon_members (string_members m) = string_members m"
  unfolding canon_string_members valid_string_map_def
  by (rule arg_cong [where f = string_members], elim conjE, thin_tac "wf_map m")
    (induction m; auto simp: valid_utf8_def)

lemma event_members_ok:
  "numbers_ok_members (event_members evs)" "depth_members (event_members evs) \<le> 1"
  unfolding event_members_def by (induction evs) (auto simp: string_members_ok)

lemma canon_event_members:
  "list_all (\<lambda>(t, p). valid_utf8 t \<and> valid_string_map p) evs \<Longrightarrow>
   canon_members (event_members evs) = event_members evs"
  unfolding event_members_def
  by (induction evs) (auto simp: valid_utf8_def canon_string_members_valid)

lemma dec_event_members:
  "list_all (\<lambda>(t, p). valid_utf8 t \<and> valid_string_map p) evs \<Longrightarrow>
   dec_map_members (dec_map dec_string []) [] (event_members evs) acc = Some (map_sets evs acc)"
  unfolding event_members_def
  by (induction evs arbitrary: acc) (auto simp: dec_string_map valid_string_map_def)

lemma unmarshal_set:
  assumes "set_ok s"
  shows "unmarshal dec_set zero_set (marshal_set s) = Some s"
proof -
  have n: "numbers_ok (set_json s)" "depth (set_json s) \<le> max_depth"
    using event_members_ok(2) [of "set_events s"]
    by (simp_all add: set_json_def valid_number_itoa event_members_ok max_depth_def)
  have c: "canon (set_json s) = set_json s"
    using assms by (simp add: set_json_def set_ok_def canon_event_members is_ascii_def byte_def valid_utf8_def)
  have "dec_map (dec_map dec_string []) [] (JObj (event_members (set_events s))) [] = Some (set_events s)"
    using assms map_lit_wf [of "set_events s"] by (simp add: dec_map_def dec_event_members set_ok_def map_lit_def)
  then have "dec_set (set_json s) zero_set = Some s"
    using assms
    by (simp add: set_json_def dec_set_def dec_string_def dec_int_def dec_field_def dec_struct_def
        set_ok_def parse_int64_itoa zero_set_def upper_byte_def in_range_def byte_def)
  with n c show ?thesis by (simp add: marshal_set_def unmarshal_marshal)
qed

text \<open>base64url output is in its alphabet and has no padding.\<close>

definition b64_alphabet :: "string" where
  "b64_alphabet = map b64_char [0..<64]"

lemma length_b64url: "length (b64url s) = (4 * length s + 2) div 3"
  by (induction s rule: b64url.induct) auto

lemma b64_char_alphabet: "n < 64 \<Longrightarrow> b64_char n \<in> set b64_alphabet"
  by (auto simp: b64_alphabet_def)

lemma b64url_alphabet: "set (b64url s) \<subseteq> set b64_alphabet"
proof -
  have q: "byte a div 4 < 64" "byte a div 16 < 16" "byte a div 64 < 4" for a
    using byte_less [of a] by (simp_all add: less_mult_imp_div_less)
  have r: "byte a mod 4 < 4" "byte a mod 16 < 16" "byte a mod 64 < 64" for a
    by simp_all
  have d: "byte a mod 4 * 16 + byte b div 16 < 64" "byte a mod 4 * 16 < 64"
    "byte b mod 16 * 4 + byte a div 64 < 64" "byte b mod 16 * 4 < 64" for a b
    using q(2) [of b] q(3) [of a] r(1) [of a] r(2) [of b] by linarith+
  show ?thesis
    by (induction s rule: b64url.induct) (auto intro!: b64_char_alphabet d q r)
qed

subsection \<open>Properties\<close>

definition example_set :: ssf_set where
  "example_set =
     \<lparr>set_issuer = ''ssf-relay'', set_issued_at = 1700000000, set_jwt_id = ''set-1'',
      set_correlation_id = [], set_source = ''vault-prod'',
      set_events = [(''https://schemas.fiam/vault/auth-event'',
         [(''accessor'', ''a''), (''entity_id'', ''e''), (''entity_name'', ''n'')])]\<rparr>"

lemma example_set_ok: "set_ok example_set"
  by (simp add: set_ok_def example_set_def valid_string_map_def valid_utf8_def is_ascii_def byte_def
      wf_map_def less_char_def)

text \<open>A library whose token is the payload itself: enough to run \<open>SignSET\<close>.\<close>

definition example_crypto :: "(nat, string) crypto" where
  "example_crypto =
     \<lparr>pem_decode = (\<lambda>_. None), parse_ec_key = (\<lambda>_. Inl []), thumbprint = (\<lambda>_. Inr ''thumb''),
      marshal_jwk = (\<lambda>_ _. Inr ''{}''), new_signer = (\<lambda>_ _. None), jose_sign = (\<lambda>_ _ p. Inr p),
      compact = Inr\<rparr>"

definition example_key :: "nat signing_key" where
  "example_key = \<lparr>private_key = 0, kid = ''dGh1bWI'', public_jwk = ''{}''\<rparr>"

text \<open>A receiver that decodes the JSON text of a SET with the struct's own tags recovers
  the SET: issuer, time, IDs, source and every payload entry, with an empty correlation ID
  left out of the text.\<close>

theorem set_roundtrip:
  assumes "set_ok s"
  shows "unmarshal dec_set zero_set (marshal_set s) = Some s"
  using assms by (rule unmarshal_set)

theorem set_roundtrip_witness:
  "set_ok example_set \<and> unmarshal dec_set zero_set (marshal_set example_set) = Some example_set"
  using set_roundtrip [OF example_set_ok] example_set_ok by simp

text \<open>C18: A signed SET verifies to what was signed: if verification undoes signing and
  serialising for this key, then the token \<open>SignSET\<close> returns verifies with algorithm ES256,
  type \<open>secevent+jwt\<close> and the key's ID in its header, and its payload decodes to the SET.\<close>

theorem signed_set_verifies:
  assumes verify: "\<And>p j t. jose_sign cr (private_key sk) (jose_header sk) p = Inr j \<Longrightarrow>
      compact cr j = Inr t \<Longrightarrow> verify t = Some (jose_header sk, p)"
    and signed: "sign_set cr s sk = Inr token"
    and ok: "set_ok s"
  shows "\<exists>header payload. verify token = Some (header, payload) \<and>
    map_of header ''alg'' = Some ''ES256'' \<and> map_of header ''typ'' = Some ''secevent+jwt'' \<and>
    map_of header ''kid'' = Some (kid sk) \<and>
    unmarshal dec_set zero_set payload = Some s"
proof -
  from signed obtain j where "jose_sign cr (private_key sk) (jose_header sk) (marshal_set s) = Inr j"
    "compact cr j = Inr token"
    by (auto simp: sign_set_def split: option.splits sum.splits)
  then have "verify token = Some (jose_header sk, marshal_set s)" by (rule verify)
  then show ?thesis using unmarshal_set [OF ok] by (simp add: jose_header_def)
qed

theorem signed_set_verifies_witness:
  "\<exists>token header payload. sign_set example_crypto example_set example_key = Inr token \<and>
     Some (jose_header example_key, token) = Some (header, payload) \<and>
     map_of header ''alg'' = Some ''ES256'' \<and> map_of header ''typ'' = Some ''secevent+jwt'' \<and>
     map_of header ''kid'' = Some ''dGh1bWI'' \<and> unmarshal dec_set zero_set payload = Some example_set"
proof -
  have s: "sign_set example_crypto example_set example_key = Inr (marshal_set example_set)"
    by (simp add: sign_set_def example_crypto_def)
  from signed_set_verifies [of example_crypto example_key "\<lambda>t. Some (jose_header example_key, t)",
      OF _ s example_set_ok]
  show ?thesis using s by (auto simp: example_crypto_def example_key_def)
qed

text \<open>The key ID of a loaded key is the unpadded base64url form of the key's thumbprint,
  so it consists of characters of that alphabet only and a 32-byte SHA-256 thumbprint gives
  43 of them.\<close>

lemma loaded_key_id:
  assumes "load_signing_key cr pem = Inr sk"
  shows "\<exists>thumb. thumbprint cr (private_key sk) = Inr thumb \<and> kid sk = b64url thumb \<and>
    set (kid sk) \<subseteq> set b64_alphabet \<and> (length thumb = 32 \<longrightarrow> length (kid sk) = 43)"
  using assms b64url_alphabet length_b64url
  by (auto simp: load_signing_key_def split: option.splits sum.splits)

end
