(* ===== verification/Emitter.thy ===== *)
theory Emitter
  imports Signing Source
begin

text \<open>
  \<open>relay/emitter.go\<close>: building a SET from an event and posting it. \<open>emit\<close> is \<open>Emit\<close>; the
  clock and the UUID library are arguments. The lemmas under the contract of a source say
  what of an event a receiver finds in the payload.
\<close>

type_synonym duration = "64 word"

definition second :: duration where
  "second = 1000000000"

lemma sint_duration: "sint (word_of_int x :: duration) = signed_take_bit 63 x"
  by (simp add: sint_sbintrunc')

record 'k emitter =
  em_receiver_url :: string
  em_issuer :: string
  em_timeout :: duration
  em_signing_key :: "'k signing_key option"

definition new_emitter :: "string \<Rightarrow> string \<Rightarrow> int \<Rightarrow> 'k signing_key option \<Rightarrow> 'k emitter" where
  "new_emitter url iss timeout_secs sk =
     \<lparr>em_receiver_url = url, em_issuer = iss,
      em_timeout = word_of_int (if timeout_secs \<le> 0 then 5 else timeout_secs) * second,
      em_signing_key = sk\<rparr>"

text \<open>The identity fields first, then every metadata entry over them.\<close>

definition event_payload :: "event \<Rightarrow> string gmap" where
  "event_payload e =
     map_sets (ev_metadata e)
       (map_lit
          [(''entity_id'', sub_entity_id (ev_subject e)),
           (''entity_name'', sub_entity_name (ev_subject e)),
           (''accessor'', sub_accessor (ev_subject e))])"

definition build_set :: "'k emitter \<Rightarrow> int \<Rightarrow> string \<Rightarrow> string \<Rightarrow> event \<Rightarrow> ssf_set" where
  "build_set em now uuid source_name e =
     \<lparr>set_issuer = em_issuer em, set_issued_at = now, set_jwt_id = ''set-'' @ uuid,
      set_correlation_id = ev_correlation_id e, set_source = source_name,
      set_events = map_lit [(ev_type e, event_payload e)]\<rparr>"

text \<open>The body and its content type: signed when there is a key.\<close>

definition set_message :: "('k, 'j) crypto \<Rightarrow> 'k emitter \<Rightarrow> ssf_set \<Rightarrow> (string \<times> string) result" where
  "set_message cr em s =
     (case em_signing_key em of
        Some sk \<Rightarrow>
          (case sign_set cr s sk of
             Inl e \<Rightarrow> Inl (EWrap ''sign SET: %w'' [] e)
           | Inr token \<Rightarrow> Inr (token, ''application/secevent+jwt''))
      | None \<Rightarrow> Inr (marshal_set s, ''application/json''))"

definition emit :: "('k, 'j) crypto \<Rightarrow> 'k emitter \<Rightarrow> int \<Rightarrow> string \<Rightarrow> string \<Rightarrow> event \<Rightarrow> world \<Rightarrow> err \<times> world" where
  "emit cr em now uuid source_name e w =
     (case set_message cr em (build_set em now uuid source_name e) of
        Inl er \<Rightarrow> (Some er, w)
      | Inr (body, content_type) \<Rightarrow>
     (case new_request w ''POST'' (em_receiver_url em) body of
        Inl er \<Rightarrow> (Some (EWrap ''build request: %w'' [] er), w)
      | Inr rq \<Rightarrow>
     (case http_do (set_header ''Content-Type'' content_type rq) w of
        (Inl er, w') \<Rightarrow> (Some (EWrap ''POST to receiver: %w'' [] er), w')
      | (Inr resp, w') \<Rightarrow>
          (if rs_status resp < 200 \<or> 300 \<le> rs_status resp
           then (Some (EMsg ''receiver returned non-2xx status: %d'' [itoa (rs_status resp)]), w')
           else (None, w')))))"

subsection \<open>What the payload carries\<close>

lemma payload_lookup:
  "wf_map (ev_metadata e) \<Longrightarrow>
   map_of (event_payload e) k =
     (case map_of (ev_metadata e) k of
        Some v \<Rightarrow> Some v
      | None \<Rightarrow>
          (if k = ''entity_id'' then Some (sub_entity_id (ev_subject e))
           else if k = ''entity_name'' then Some (sub_entity_name (ev_subject e))
           else if k = ''accessor'' then Some (sub_accessor (ev_subject e)) else None))"
  by (simp add: event_payload_def map_of_map_sets map_of_map_lit map_of_rev_distinct wf_map_distinct
      map_add_def split: option.split)

lemma payload_wf: "wf_map (event_payload e)"
  by (simp add: event_payload_def)

text \<open>Under the contract of a source nothing of the event is lost in its payload.\<close>

definition payload_faithful :: "event \<Rightarrow> bool" where
  "payload_faithful e \<longleftrightarrow>
     map_of (event_payload e) ''entity_id'' = Some (sub_entity_id (ev_subject e)) \<and>
     map_of (event_payload e) ''entity_name'' = Some (sub_entity_name (ev_subject e)) \<and>
     map_of (event_payload e) ''accessor'' = Some (sub_accessor (ev_subject e)) \<and>
     (\<forall>k v. map_of (ev_metadata e) k = Some v \<longrightarrow> map_of (event_payload e) k = Some v) \<and>
     ev_correlation_id e \<in> snd ` set (event_payload e)"

context log_source
begin

lemma payload_is_faithful:
  assumes "parse l = Some e"
  shows "payload_faithful e"
proof -
  have wf: "wf_map (ev_metadata e)" using assms by (rule metadata_wf)
  have free: "map_of (ev_metadata e) k = None" if "k \<in> identity_keys" for k
    using assms that by (rule identity_free)
  obtain k where "map_of (ev_metadata e) k = Some (ev_correlation_id e)"
    using correlation_recorded [OF assms] by blast
  then have "map_of (event_payload e) k = Some (ev_correlation_id e)"
    by (simp add: payload_lookup [OF wf])
  then have "ev_correlation_id e \<in> snd ` set (event_payload e)"
    by (metis image_iff map_of_SomeD snd_conv)
  then show ?thesis
    using free by (simp add: payload_faithful_def payload_lookup [OF wf] identity_keys_def)
qed

end

subsection \<open>What \<open>emit\<close> does\<close>

definition emit_request :: "'k emitter \<Rightarrow> string \<Rightarrow> string \<Rightarrow> request" where
  "emit_request em body content_type =
     \<lparr>rq_method = ''POST'', rq_url = em_receiver_url em,
      rq_headers = [(''Content-Type'', content_type)], rq_body = body\<rparr>"

lemma emit_cases:
  "emit cr em now uuid src e w =
     (case set_message cr em (build_set em now uuid src e) of
        Inl er \<Rightarrow> (Some er, w)
      | Inr (body, ct) \<Rightarrow>
          (if \<not> url_ok w (em_receiver_url em)
           then (Some (EWrap ''build request: %w'' [] (EEnv ''parse url'')), w)
           else
             ((case server w (sent w) (emit_request em body ct) of
                 Inl t \<Rightarrow> Some (EWrap ''POST to receiver: %w'' [] (EEnv t))
               | Inr r \<Rightarrow>
                   (if 200 \<le> rs_status r \<and> rs_status r < 300 then None
                    else Some (EMsg ''receiver returned non-2xx status: %d'' [itoa (rs_status r)]))),
              w\<lparr>sent := sent w @ [emit_request em body ct]\<rparr>)))"
  by (auto simp: emit_def new_request_def set_header_def http_do_def emit_request_def
      split: sum.splits prod.splits)

lemma requests_only_emit: "requests_only 1 (emit cr em now uuid src e)"
  unfolding requests_only_def
  by (auto simp: emit_cases intro: exI [of _ "[]"] split: sum.split)

text \<open>An event whose strings are valid UTF-8 and whose metadata is in canonical form.\<close>

definition event_ok :: "event \<Rightarrow> bool" where
  "event_ok e \<longleftrightarrow>
     list_all valid_utf8 [ev_type e, ev_correlation_id e, sub_entity_id (ev_subject e),
       sub_entity_name (ev_subject e), sub_accessor (ev_subject e)] \<and>
     valid_string_map (ev_metadata e)"

lemma list_all_map_sets:
  "list_all P kvs \<Longrightarrow> list_all P m \<Longrightarrow> list_all P (map_sets kvs m)"
proof (induction kvs arbitrary: m)
  case (Cons kv kvs)
  then show ?case by (cases kv) (simp add: list_all_map_set)
qed simp

lemma event_payload_ok:
  assumes "event_ok e"
  shows "valid_string_map (event_payload e)"
proof -
  have "list_all (\<lambda>(k, v). valid_utf8 k \<and> valid_utf8 v)
      [(''entity_id'', sub_entity_id (ev_subject e)),
       (''entity_name'', sub_entity_name (ev_subject e)),
       (''accessor'', sub_accessor (ev_subject e))]"
    using assms by (simp add: event_ok_def valid_utf8_ascii is_ascii_def byte_def)
  with assms have "list_all (\<lambda>(k, v). valid_utf8 k \<and> valid_utf8 v) (event_payload e)"
    unfolding event_payload_def map_lit_def event_ok_def valid_string_map_def
    by (intro list_all_map_sets) auto
  then show ?thesis by (simp add: valid_string_map_def payload_wf)
qed

lemma build_set_ok:
  assumes "event_ok e" "valid_utf8 (em_issuer em)" "valid_utf8 (''set-'' @ uuid)" "valid_utf8 src"
    "- (2 ^ 63) \<le> now" "now < 2 ^ 63"
  shows "set_ok (build_set em now uuid src e)"
  using assms event_payload_ok [OF assms(1)]
  by (simp add: set_ok_def build_set_def event_ok_def map_lit_def wf_map_def)

subsection \<open>Properties\<close>

definition example_event :: event where
  "example_event =
     \<lparr>ev_type = ''t'', ev_correlation_id = ''r1'',
      ev_subject = \<lparr>sub_entity_id = ''e'', sub_entity_name = ''n'', sub_accessor = ''a''\<rparr>,
      ev_metadata = [(''lease_id'', ''l''), (''request_id'', ''r1'')]\<rparr>"

definition example_world :: "int \<Rightarrow> string \<Rightarrow> world" where
  "example_world status body =
     \<lparr>server = (\<lambda>_ _. Inr \<lparr>rs_status = status, rs_body = body\<rparr>), url_ok = (\<lambda>u. u \<noteq> []),
      getenv = (\<lambda>k. if k = ''TOKEN'' then ''s.1'' else []),
      read_file = (\<lambda>p. if p = ''token'' then Inr ''s.2'' else Inl ''no such file''), sent = []\<rparr>"

lemma example_event_ok: "event_ok example_event"
  by (simp add: event_ok_def example_event_def valid_string_map_def valid_utf8_def is_ascii_def
      byte_def wf_map_def less_char_def)

text \<open>C20: What one delivery does: \<open>Emit\<close> returns nil exactly when the SET could be built, the
  receiver's address is usable and the receiver answered with a 2xx status; it makes at most
  one request, the POST of the message to the receiver, and changes nothing else.\<close>

theorem emit_outcome:
  "(fst (emit cr em now uuid src e w) = None \<longleftrightarrow>
      (\<exists>body ct r. set_message cr em (build_set em now uuid src e) = Inr (body, ct) \<and>
         url_ok w (em_receiver_url em) \<and> server w (sent w) (emit_request em body ct) = Inr r \<and>
         200 \<le> rs_status r \<and> rs_status r < 300)) \<and>
   snd (emit cr em now uuid src e w) =
     w\<lparr>sent := sent w @
        (case set_message cr em (build_set em now uuid src e) of
           Inl _ \<Rightarrow> []
         | Inr (body, ct) \<Rightarrow> (if url_ok w (em_receiver_url em) then [emit_request em body ct] else []))\<rparr>"
  by (auto simp: emit_cases split: sum.splits)

text \<open>C17: An unsigned delivery carries the event: the body the receiver gets is labelled as
  JSON and decodes to a SET with the relay's issuer, the source's name, the event's
  correlation ID and, under the event's type, exactly its payload.\<close>

theorem unsigned_delivery:
  assumes "em_signing_key em = None" "url_ok w (em_receiver_url em)"
    and "event_ok e" "valid_utf8 (em_issuer em)" "valid_utf8 (''set-'' @ uuid)" "valid_utf8 src"
    and "- (2 ^ 63) \<le> now" "now < 2 ^ 63"
  shows "\<exists>rq s. sent (snd (emit cr em now uuid src e w)) = sent w @ [rq] \<and>
    map_of (rq_headers rq) ''Content-Type'' = Some ''application/json'' \<and>
    unmarshal dec_set zero_set (rq_body rq) = Some s \<and>
    set_issuer s = em_issuer em \<and> set_source s = src \<and>
    set_correlation_id s = ev_correlation_id e \<and> set_events s = [(ev_type e, event_payload e)]"
proof -
  let ?s = "build_set em now uuid src e"
  have "unmarshal dec_set zero_set (marshal_set ?s) = Some ?s"
    by (rule unmarshal_set, rule build_set_ok) (use assms in auto)
  with assms(1,2) show ?thesis
    by (simp add: emit_cases set_message_def emit_request_def)
      (simp add: build_set_def map_lit_def)
qed

theorem unsigned_delivery_witness:
  "\<exists>rq s. sent (snd (emit example_crypto (new_emitter ''http://r'' ''relay'' 0 None) 1 ''u'' ''src''
      example_event (example_world 202 []))) = [rq] \<and>
    unmarshal dec_set zero_set (rq_body rq) = Some s \<and>
    map_of (snd (hd (set_events s))) ''lease_id'' = Some ''l''"
proof -
  let ?em = "new_emitter ''http://r'' ''relay'' 0 None :: nat emitter"
  have "em_signing_key ?em = None" "em_issuer ?em = ''relay''"
    "url_ok (example_world 202 []) (em_receiver_url ?em)"
    by (simp_all add: new_emitter_def example_world_def)
  moreover have "valid_utf8 ''relay''" "valid_utf8 (''set-'' @ ''u'')" "valid_utf8 ''src''"
    by (simp_all add: valid_utf8_ascii is_ascii_def byte_def)
  moreover have "map_of (event_payload example_event) ''lease_id'' = Some ''l''"
    "sent (example_world 202 []) = []"
    by (subst payload_lookup; simp add: example_event_def wf_map_def less_char_def)
      (simp add: example_world_def)
  ultimately show ?thesis
    using unsigned_delivery [of ?em "example_world 202 []" example_event "''u''" "''src''" 1 example_crypto]
      example_event_ok
    by fastforce
qed

text \<open>C40: The request timeout: a configured number of seconds up to 9223372036 is the timeout
  in nanoseconds, zero or less gives five seconds, and one more second than that bound wraps
  to a negative duration.\<close>

theorem emitter_timeout:
  "(\<forall>secs. sint (em_timeout (new_emitter url iss secs sk)) =
      (if secs \<le> 0 then 5000000000
       else if secs \<le> 9223372036 then secs * 1000000000
       else signed_take_bit 63 (secs * 1000000000))) \<and>
   sint (em_timeout (new_emitter url iss 9223372037 sk)) < 0"
proof (intro conjI allI)
  have eq: "sint (em_timeout (new_emitter url iss secs sk)) =
      signed_take_bit 63 ((if secs \<le> 0 then 5 else secs) * 1000000000)" for secs
  proof -
    have "em_timeout (new_emitter url iss secs sk) =
        word_of_int ((if secs \<le> 0 then 5 else secs) * 1000000000)"
      by (simp add: new_emitter_def second_def flip: wi_hom_mult)
    then show ?thesis by (simp only: sint_duration)
  qed
  show "sint (em_timeout (new_emitter url iss secs sk)) =
      (if secs \<le> 0 then 5000000000
       else if secs \<le> 9223372036 then secs * 1000000000
       else signed_take_bit 63 (secs * 1000000000))" for secs
    unfolding eq by (auto simp: signed_take_bit_int_eq_self_iff)
  show "sint (em_timeout (new_emitter url iss 9223372037 sk)) < 0"
    unfolding eq by simp
qed

end
