(* ===== verification/Vault_Action.thy ===== *)
theory Vault_Action
  imports Action Emitter
begin

text \<open>
  \<open>actions/vault/adapter.go\<close>: on a compromised source the relay revokes its own Vault token;
  on a degraded or recovered one it sets or clears metadata of the token's entity, which it
  looks up first.
\<close>

record vault_action =
  vault_addr :: string
  token_env :: string

definition new_vault_action :: "config_map \<Rightarrow> vault_action" where
  "new_vault_action cfg =
     \<lparr>vault_addr = cfg_base_url cfg ''vault_addr'' ''http://127.0.0.1:8200'',
      token_env = cfg_string cfg ''vault_token_env'' ''VAULT_TOKEN''\<rparr>"

definition revoke_self :: "vault_action \<Rightarrow> world \<Rightarrow> err \<times> world" where
  "revoke_self a w =
     (let token = getenv w (token_env a)
      in if token = [] then (Some (EMsg (''vault: env %q is empty '' @ em_dash @ '' cannot revoke'') [token_env a]), w)
         else
     (case new_request w ''POST'' (vault_addr a @ ''/v1/auth/token/revoke-self'') [] of
        Inl er \<Rightarrow> (Some (EWrap ''build revoke-self request: %w'' [] er), w)
      | Inr rq \<Rightarrow>
     (case http_do (set_header ''X-Vault-Token'' token rq) w of
        (Inl er, w') \<Rightarrow> (Some (EWrap ''POST revoke-self: %w'' [] er), w')
      | (Inr resp, w') \<Rightarrow>
          (if rs_status resp = 403 then (None, w')
           else if rs_status resp \<noteq> 204 \<and> rs_status resp \<noteq> 200
           then (Some (EMsg ''POST revoke-self: HTTP %d'' [itoa (rs_status resp)]), w')
           else (None, w')))))"

text \<open>The answer of lookup-self: \<open>data.entity_id\<close>, the only member that is read.\<close>

definition dec_lookup :: "string decoder" where
  "dec_lookup = dec_struct [(''data'', dec_struct [(''entity_id'', dec_string)])]"

definition lookup_entity_id :: "vault_action \<Rightarrow> string \<Rightarrow> world \<Rightarrow> string result \<times> world" where
  "lookup_entity_id a token w =
     (case new_request w ''GET'' (vault_addr a @ ''/v1/auth/token/lookup-self'') [] of
        Inl er \<Rightarrow> (Inl (EWrap ''build lookup-self request: %w'' [] er), w)
      | Inr rq \<Rightarrow>
     (case http_do (set_header ''X-Vault-Token'' token rq) w of
        (Inl er, w') \<Rightarrow> (Inl (EWrap ''GET lookup-self: %w'' [] er), w')
      | (Inr resp, w') \<Rightarrow>
          (if rs_status resp = 403 then (Inr [], w')
           else if rs_status resp \<noteq> 200
           then (Inl (EMsg ''GET lookup-self: HTTP %d'' [itoa (rs_status resp)]), w')
           else
             (case decode_body dec_lookup [] (rs_body resp) of
                None \<Rightarrow> (Inl (EWrap ''decode lookup-self: %w'' [] EJson), w')
              | Some entity_id \<Rightarrow> (Inr entity_id, w')))))"

definition flag_metadata :: "inbound_set \<Rightarrow> string \<Rightarrow> string gmap" where
  "flag_metadata s status =
     (let metadata = map_lit
        [(''ssf_status'', status),
         (''ssf_source_id'', in_source_id s),
         (''ssf_event_type'', in_event_type s),
         (''ssf_correlation_id'', in_correlation_id s)]
      in if status = [] then map_set ''ssf_source_id'' [] (map_set ''ssf_status'' [] metadata)
         else metadata)"

definition flag_body :: "inbound_set \<Rightarrow> string \<Rightarrow> string" where
  "flag_body s status =
     marshal (JObj [(''metadata'', JObj (string_members (flag_metadata s status)))])"

definition flag_entity :: "vault_action \<Rightarrow> inbound_set \<Rightarrow> string \<Rightarrow> world \<Rightarrow> err \<times> world" where
  "flag_entity a s status w =
     (let token = getenv w (token_env a)
      in if token = []
         then (Some (EMsg (''vault: env %q is empty '' @ em_dash @ '' cannot flag entity'') [token_env a]), w)
         else
     (case lookup_entity_id a token w of
        (Inl er, w1) \<Rightarrow> (Some (EWrap ''lookup entity: %w'' [] er), w1)
      | (Inr entity_id, w1) \<Rightarrow>
          (if entity_id = [] then (None, w1)
           else
     (case new_request w1 ''POST'' (vault_addr a @ ''/v1/identity/entity/id/'' @ entity_id)
             (flag_body s status) of
        Inl er \<Rightarrow> (Some (EWrap ''build entity update request: %w'' [] er), w1)
      | Inr rq \<Rightarrow>
     (case http_do (set_header ''X-Vault-Token'' token
             (set_header ''Content-Type'' ''application/json'' rq)) w1 of
        (Inl er, w2) \<Rightarrow> (Some (EWrap ''POST entity/id/%s: %w'' [entity_id] er), w2)
      | (Inr resp, w2) \<Rightarrow>
          (if 400 \<le> rs_status resp
           then (Some (EMsg ''POST entity/id/%s: HTTP %d'' [entity_id, itoa (rs_status resp)]), w2)
           else (None, w2)))))))"

definition vault_act :: "vault_action \<Rightarrow> inbound_set \<Rightarrow> world \<Rightarrow> err \<times> world" where
  "vault_act a s w =
     (if in_event_type s = event_compromised then revoke_self a w
      else if in_event_type s = event_degraded then flag_entity a s ''degraded'' w
      else if in_event_type s = event_recovered then flag_entity a s [] w
      else (Some (EMsg ''vault adapter: unhandled event type %q'' [in_event_type s]), w))"

definition vault_adapter :: "vault_action \<Rightarrow> adapter" where
  "vault_adapter a = \<lparr>ad_name = ''vault'', ad_types = caep_types, ad_act = vault_act a\<rparr>"

subsection \<open>The requests it makes\<close>

definition vault_request_of :: "string \<Rightarrow> string \<Rightarrow> string \<Rightarrow> request" where
  "vault_request_of meth url token =
     \<lparr>rq_method = meth, rq_url = url, rq_headers = [(''X-Vault-Token'', token)], rq_body = []\<rparr>"

definition flag_request :: "vault_action \<Rightarrow> string \<Rightarrow> string \<Rightarrow> string \<Rightarrow> request" where
  "flag_request a token entity_id body =
     \<lparr>rq_method = ''POST'', rq_url = vault_addr a @ ''/v1/identity/entity/id/'' @ entity_id,
      rq_headers = [(''Content-Type'', ''application/json''), (''X-Vault-Token'', token)],
      rq_body = body\<rparr>"

lemmas vault_action_defs =
  revoke_self_def lookup_entity_id_def new_request_def set_header_def http_do_def
  vault_request_of_def flag_request_def

lemma requests_only_revoke: "requests_only 1 (revoke_self a)"
  unfolding requests_only_def
  by (auto simp: vault_action_defs Let_def intro: exI [of _ "[]"] split: sum.split)

lemma requests_only_lookup: "requests_only 1 (lookup_entity_id a token)"
  unfolding requests_only_def
  by (auto simp: vault_action_defs intro: exI [of _ "[]"] split: sum.split option.split)

lemma revoke_nil:
  "revoke_self a w = (None, w\<lparr>sent := sent w @ rqs\<rparr>) \<Longrightarrow> answered (server w) (sent w) rqs"
  by (auto simp: vault_action_defs Let_def acceptable_def split: if_splits sum.splits)

lemma lookup_answer:
  assumes "lookup_entity_id a token w = (Inr i, w1)"
  shows "w1 = w\<lparr>sent := sent w @ [vault_request_of ''GET'' (vault_addr a @ ''/v1/auth/token/lookup-self'') token]\<rparr> \<and>
    answered (server w) (sent w) [vault_request_of ''GET'' (vault_addr a @ ''/v1/auth/token/lookup-self'') token]"
  using assms by (auto simp: vault_action_defs acceptable_def split: if_splits sum.splits option.splits)

text \<open>\<open>flagEntity\<close> after the lookup.\<close>

definition post_flag :: "vault_action \<Rightarrow> inbound_set \<Rightarrow> string \<Rightarrow> string \<Rightarrow> string \<Rightarrow> world \<Rightarrow> err \<times> world" where
  "post_flag a s status token entity_id w =
     (if \<not> url_ok w (vault_addr a @ ''/v1/identity/entity/id/'' @ entity_id)
      then (Some (EWrap ''build entity update request: %w'' [] (EEnv ''parse url'')), w)
      else
        ((case server w (sent w) (flag_request a token entity_id (flag_body s status)) of
            Inl t \<Rightarrow> Some (EWrap ''POST entity/id/%s: %w'' [entity_id] (EEnv t))
          | Inr r \<Rightarrow>
              (if rs_status r < 400 then None
               else Some (EMsg ''POST entity/id/%s: HTTP %d'' [entity_id, itoa (rs_status r)]))),
         w\<lparr>sent := sent w @ [flag_request a token entity_id (flag_body s status)]\<rparr>))"

lemma flag_entity_cases:
  "flag_entity a s status w =
     (if getenv w (token_env a) = []
      then (Some (EMsg (''vault: env %q is empty '' @ em_dash @ '' cannot flag entity'') [token_env a]), w)
      else
        (case lookup_entity_id a (getenv w (token_env a)) w of
           (Inl er, w1) \<Rightarrow> (Some (EWrap ''lookup entity: %w'' [] er), w1)
         | (Inr i, w1) \<Rightarrow>
             (if i = [] then (None, w1) else post_flag a s status (getenv w (token_env a)) i w1)))"
  by (auto simp: flag_entity_def post_flag_def new_request_def set_header_def http_do_def
      flag_request_def Let_def split: sum.split prod.split)

lemma requests_only_post: "requests_only 1 (post_flag a s status token i)"
  unfolding requests_only_def by (auto simp: post_flag_def intro: exI [of _ "[]"])

lemma post_nil:
  "post_flag a s status token i w = (None, w') \<Longrightarrow>
   w' = w\<lparr>sent := sent w @ [flag_request a token i (flag_body s status)]\<rparr> \<and>
   answered (server w) (sent w) [flag_request a token i (flag_body s status)]"
  by (auto simp: post_flag_def acceptable_def split: if_splits sum.splits)

lemma requests_only_flag: "requests_only 2 (flag_entity a s status)"
  unfolding requests_only_def
proof
  fix w :: world
  let ?token = "getenv w (token_env a)"
  obtain x w1 where l: "lookup_entity_id a ?token w = (x, w1)" by fastforce
  from requests_onlyD [OF requests_only_lookup l] obtain r1 where
    r1: "w1 = w\<lparr>sent := sent w @ r1\<rparr>" "length r1 \<le> 1" by blast
  have p: "\<exists>r2. snd (post_flag a s status ?token i w1) = w\<lparr>sent := sent w @ r1 @ r2\<rparr> \<and> length r2 \<le> 1" for i
    using requests_only_post [unfolded requests_only_def, rule_format, of a s status ?token i w1] r1(1)
    by auto
  show "\<exists>rqs. snd (flag_entity a s status w) = w\<lparr>sent := sent w @ rqs\<rparr> \<and> length rqs \<le> 2"
  proof (cases "?token \<noteq> [] \<and> (\<exists>i. x = Inr i \<and> i \<noteq> [])")
    case True
    then obtain i where "flag_entity a s status w = post_flag a s status ?token i w1"
      by (auto simp: flag_entity_cases l)
    with p [of i] obtain r2 where "snd (flag_entity a s status w) = w\<lparr>sent := sent w @ r1 @ r2\<rparr>"
      "length r2 \<le> 1" by auto
    with r1(2) show ?thesis by (intro exI [of _ "r1 @ r2"]) simp
  next
    case False
    then have "snd (flag_entity a s status w) = w1 \<or> snd (flag_entity a s status w) = w"
      by (auto simp: flag_entity_cases l split: sum.split)
    with r1 show ?thesis
      by (auto intro: exI [of _ r1] exI [of _ "[]"])
  qed
qed

lemma flag_nil:
  assumes "flag_entity a s status w = (None, w\<lparr>sent := sent w @ rqs\<rparr>)"
  shows "answered (server w) (sent w) rqs"
proof -
  let ?token = "getenv w (token_env a)"
  from assms obtain i w1 where l: "lookup_entity_id a ?token w = (Inr i, w1)"
    and r: "i = [] \<and> w1 = w\<lparr>sent := sent w @ rqs\<rparr> \<or>
      post_flag a s status ?token i w1 = (None, w\<lparr>sent := sent w @ rqs\<rparr>)"
    by (auto simp: flag_entity_cases split: if_splits sum.splits prod.splits)
  from lookup_answer [OF l] r post_nil [of a s status ?token i w1] show ?thesis
    by (auto simp: answered_append split: sum.splits)
qed

interpretation vault_action: action_adapter "vault_act a" 2 for a
proof unfold_locales
  fix s w rqs
  show "requests_only 2 (vault_act a s)"
    unfolding vault_act_def
    by (intro requests_only_if requests_only_flag requests_only_pure
        requests_only_mono [OF requests_only_revoke]) simp
  assume "vault_act a s w = (None, w\<lparr>sent := sent w @ rqs\<rparr>)"
  then show "answered (server w) (sent w) rqs"
    by (auto simp: vault_act_def revoke_nil flag_nil split: if_splits)
qed

subsection \<open>What the flag request carries\<close>

definition lookup_json :: "string \<Rightarrow> json" where
  "lookup_json i = JObj [(''data'', JObj [(''entity_id'', JStr i)])]"

lemma decode_lookup:
  assumes "valid_utf8 i"
  shows "decode_body dec_lookup [] (marshal (lookup_json i)) = Some i"
proof -
  have "decode_body dec_lookup [] (marshal (lookup_json i) @ []) = dec_lookup (canon (lookup_json i)) []"
    by (rule decode_body_marshal) (simp_all add: lookup_json_def)
  moreover have "canon (lookup_json i) = lookup_json i"
    using assms by (simp add: lookup_json_def is_ascii_def byte_def valid_utf8_def)
  moreover have "dec_lookup (lookup_json i) [] = Some i"
    by (simp add: lookup_json_def dec_lookup_def dec_struct_def dec_string_def byte_def
        upper_byte_def in_range_def)
  ultimately show ?thesis by simp
qed

lemma flag_metadata_lookup:
  "map_of (flag_metadata s status) =
     [''ssf_status'' \<mapsto> status, ''ssf_source_id'' \<mapsto> (if status = [] then [] else in_source_id s),
      ''ssf_event_type'' \<mapsto> in_event_type s, ''ssf_correlation_id'' \<mapsto> in_correlation_id s]"
  by (auto simp: flag_metadata_def Let_def go_map)

lemma flag_metadata_valid:
  assumes "valid_utf8 (in_source_id s)" "valid_utf8 (in_event_type s)"
    "valid_utf8 (in_correlation_id s)" "valid_utf8 status"
  shows "valid_string_map (flag_metadata s status)"
proof -
  have wf: "wf_map (flag_metadata s status)" by (simp add: flag_metadata_def Let_def)
  have keys: "valid_utf8 ''ssf_status''" "valid_utf8 ''ssf_source_id''" "valid_utf8 ''ssf_event_type''"
    "valid_utf8 ''ssf_correlation_id''" "valid_utf8 []"
    by (simp_all add: valid_utf8_ascii is_ascii_def byte_def)
  have "valid_utf8 k \<and> valid_utf8 v" if "(k, v) \<in> set (flag_metadata s status)" for k v
    using map_of_is_SomeI [OF wf_map_distinct [OF wf] that] assms keys
    by (auto simp: flag_metadata_lookup split: if_splits)
  with wf show ?thesis by (auto simp: valid_string_map_def list_all_iff)
qed

lemma flag_body_decodes:
  assumes "valid_string_map (flag_metadata s status)"
  shows "unmarshal (dec_struct [(''metadata'', dec_map dec_string [])]) [] (flag_body s status)
    = Some (flag_metadata s status)"
proof -
  let ?j = "JObj [(''metadata'', JObj (string_members (flag_metadata s status)))]"
  have "canon ?j = ?j"
    using canon_string_members_valid [OF assms] by (simp add: is_ascii_def byte_def)
  moreover have "dec_map dec_string [] (JObj (string_members (flag_metadata s status))) [] = Some (flag_metadata s status)"
    using assms by (simp add: dec_string_map valid_string_map_def)
  ultimately show ?thesis
    unfolding flag_body_def
    by (subst unmarshal_marshal)
      (simp_all add: string_members_ok dec_struct_def byte_def upper_byte_def in_range_def)
qed

subsection \<open>Properties\<close>

definition example_inbound :: "string \<Rightarrow> inbound_set" where
  "example_inbound et =
     \<lparr>in_event_type = et, in_source_id = ''src-1'', in_correlation_id = ''c-1'',
      in_reason = ''probe'', in_payload = []\<rparr>"

lemma example_inbound_valid:
  "valid_utf8 (in_source_id (example_inbound et))" "valid_utf8 (in_correlation_id (example_inbound et))"
  "valid_utf8 event_compromised" "valid_utf8 event_degraded" "valid_utf8 event_recovered"
  by (simp_all add: example_inbound_def valid_utf8_ascii is_ascii_def byte_def
      event_compromised_def event_degraded_def event_recovered_def caep_def)

text \<open>C27: On a compromised source the relay gives up its own Vault session: with a token in the
  environment and a usable address it makes exactly one request, a POST to revoke-self under
  that token, and reports success exactly for the answers 200, 204 and 403. Without a token
  it makes no request and reports an error.\<close>

theorem vault_revokes_itself:
  assumes "in_event_type s = event_compromised"
    and "token = getenv w (token_env a)" "url = vault_addr a @ ''/v1/auth/token/revoke-self''"
  shows "snd (vault_act a s w) =
      (if token = [] \<or> \<not> url_ok w url then w
       else w\<lparr>sent := sent w @ [vault_request_of ''POST'' url token]\<rparr>) \<and>
    (fst (vault_act a s w) = None \<longleftrightarrow> token \<noteq> [] \<and> url_ok w url \<and>
       (\<exists>r. server w (sent w) (vault_request_of ''POST'' url token) = Inr r \<and>
          rs_status r \<in> {200, 204, 403}))"
  using assms by (auto simp: vault_act_def vault_action_defs Let_def split: sum.split)

theorem vault_revokes_itself_witness:
  "let a = \<lparr>vault_addr = ''http://v'', token_env = ''TOKEN''\<rparr>;
       r = vault_act a (example_inbound event_compromised) (example_world 403 [])
   in fst r = None \<and>
      sent (snd r) = [vault_request_of ''POST'' ''http://v/v1/auth/token/revoke-self'' ''s.1'']"
  using vault_revokes_itself [of "example_inbound event_compromised" "''s.1''" "example_world 403 []"
      "\<lparr>vault_addr = ''http://v'', token_env = ''TOKEN''\<rparr>" "''http://v/v1/auth/token/revoke-self''"]
  by (simp add: Let_def example_inbound_def example_world_def)

text \<open>C26: On a degraded or recovered source the relay flags its own Vault entity: it looks the
  entity of its token up, then posts to that entity a metadata object that decodes to the
  status, the source's ID, the event's type and its correlation ID; on recovery status and
  source ID are cleared. Both requests carry the token, nothing else is sent, and the result
  is nil when the post is answered below 400.\<close>

theorem vault_flags_entity:
  assumes event: "in_event_type s = event_degraded \<and> status = ''degraded'' \<or>
      in_event_type s = event_recovered \<and> status = []"
    and token: "token = getenv w (token_env a)" "token \<noteq> []"
    and urls: "url_ok w (vault_addr a @ ''/v1/auth/token/lookup-self'')"
      "url_ok w (vault_addr a @ ''/v1/identity/entity/id/'' @ i)"
    and lookup: "lookup_rq = vault_request_of ''GET'' (vault_addr a @ ''/v1/auth/token/lookup-self'') token"
      "server w (sent w) lookup_rq = Inr \<lparr>rs_status = 200, rs_body = marshal (lookup_json i)\<rparr>"
      "i \<noteq> []" "valid_utf8 i"
    and utf8: "valid_utf8 (in_source_id s)" "valid_utf8 (in_correlation_id s)"
    and post: "post_rq = flag_request a token i (flag_body s status)"
      "server w (sent w @ [lookup_rq]) post_rq = Inr r" "rs_status r < 400"
  shows "vault_act a s w = (None, w\<lparr>sent := sent w @ [lookup_rq, post_rq]\<rparr>) \<and>
    (\<exists>md. unmarshal (dec_struct [(''metadata'', dec_map dec_string [])]) [] (rq_body post_rq) = Some md \<and>
       map_of md =
         [''ssf_status'' \<mapsto> status, ''ssf_source_id'' \<mapsto> (if status = [] then [] else in_source_id s),
          ''ssf_event_type'' \<mapsto> in_event_type s, ''ssf_correlation_id'' \<mapsto> in_correlation_id s])"
proof -
  let ?w1 = "w\<lparr>sent := sent w @ [lookup_rq]\<rparr>"
  have "lookup_entity_id a token w = (Inr i, ?w1)"
    using urls(1) lookup
    by (simp add: lookup_entity_id_def new_request_def set_header_def http_do_def
        vault_request_of_def decode_lookup)
  moreover have "post_flag a s status token i ?w1 = (None, w\<lparr>sent := sent w @ [lookup_rq, post_rq]\<rparr>)"
    using urls(2) post by (simp add: post_flag_def)
  ultimately have "flag_entity a s status w = (None, w\<lparr>sent := sent w @ [lookup_rq, post_rq]\<rparr>)"
    using token lookup(3) by (simp add: flag_entity_cases)
  moreover have "vault_act a s w = flag_entity a s status w"
    using event by (auto simp: vault_act_def)
  moreover have "valid_utf8 (in_event_type s)" "valid_utf8 status"
    using event example_inbound_valid(4,5) by (auto simp: valid_utf8_ascii is_ascii_def byte_def)
  ultimately show ?thesis
    using flag_body_decodes [OF flag_metadata_valid] utf8
    by (simp add: post(1) flag_request_def flag_metadata_lookup)
qed

theorem vault_flags_entity_witness:
  "let a = \<lparr>vault_addr = ''http://v'', token_env = ''TOKEN''\<rparr>;
       w = example_world 200 (marshal (lookup_json ''e1''));
       r = vault_act a (example_inbound event_degraded) w
   in fst r = None \<and> length (sent (snd r)) = 2"
proof -
  let ?a = "\<lparr>vault_addr = ''http://v'', token_env = ''TOKEN''\<rparr>"
  let ?w = "example_world 200 (marshal (lookup_json ''e1''))"
  have "valid_utf8 ''e1''" by (simp add: valid_utf8_ascii is_ascii_def byte_def)
  then have "vault_act ?a (example_inbound event_degraded) ?w = (None, ?w\<lparr>sent := sent ?w @
      [vault_request_of ''GET'' (vault_addr ?a @ ''/v1/auth/token/lookup-self'') ''s.1'',
       flag_request ?a ''s.1'' ''e1'' (flag_body (example_inbound event_degraded) ''degraded'')]\<rparr>)"
    by (intro vault_flags_entity [THEN conjunct1])
      (auto simp: example_inbound_valid, auto simp: example_world_def example_inbound_def)
  then show ?thesis by (simp add: example_world_def)
qed

end
