(* ===== verification/Opa_Policy.thy ===== *)
theory Opa_Policy
  imports Action Emitter
begin

text \<open>
  \<open>actions/opapolicy/adapter.go\<close>: injecting and removing Rego policies. Policy IDs are
  sanitised by a regular expression, one underscore per rune that is not safe. A policy text
  is rendered from a template: templates made of text and \<open>{{.Field}}\<close> only, as the two
  default ones, are modelled; the rest of \<open>text/template\<close> is the parameter \<open>other\<close>.
\<close>

subsection \<open>Policy IDs\<close>

definition safe_char :: "char \<Rightarrow> bool" where
  "safe_char c \<longleftrightarrow> in_range 97 122 c \<or> in_range 65 90 c \<or> in_range 48 57 c \<or> c = CHR ''_''"

text \<open>\<open>safeID.ReplaceAllString(s, "_")\<close>; an invalid byte counts as one rune.\<close>

function safe_id :: "string \<Rightarrow> string" where
  "safe_id [] = []"
| "safe_id (c # cs) =
     (if safe_char c then c # safe_id cs
      else CHR ''_'' # safe_id (drop (snd (decode_rune (c # cs))) (c # cs)))"
  by pat_completeness auto
termination
proof (relation "measure length")
  fix c :: char and cs :: string
  show "(drop (snd (decode_rune (c # cs))) (c # cs), c # cs) \<in> measure length"
    using decode_rune_width [of "c # cs"] by simp
qed auto

declare safe_id.simps(2) [simp del]

lemma safe_char_underscore [simp]: "safe_char CHR ''_''"
  by (simp add: safe_char_def)

lemma safe_id_chars: "list_all safe_char (safe_id s)"
proof (induction s rule: safe_id.induct)
  case (2 c cs)
  then show ?case by (subst safe_id.simps) auto
qed simp

lemma safe_id_fixed: "list_all safe_char s \<Longrightarrow> safe_id s = s"
  by (induction s) (simp_all add: safe_id.simps)

lemma safe_id_idem [simp]: "safe_id (safe_id s) = safe_id s"
  by (rule safe_id_fixed [OF safe_id_chars])

subsection \<open>Templates\<close>

datatype piece = PText string | PField string

datatype scan_mode = InText string | InField string

text \<open>The pieces of a template, or \<open>None\<close> when it uses anything but \<open>{{.Field}}\<close>.\<close>

fun scan_template :: "scan_mode \<Rightarrow> string \<Rightarrow> piece list option" where
  "scan_template (InText t) [] = Some [PText t]"
| "scan_template (InField n) [] = None"
| "scan_template (InText t) (c # cs) =
     (if c = CHR ''{'' \<and> take 1 cs = ''{''
      then (if take 2 cs = ''{.'' then map_option ((#) (PText t)) (scan_template (InField []) (drop 2 cs))
            else None)
      else scan_template (InText (t @ [c])) cs)"
| "scan_template (InField n) (c # cs) =
     (if c = CHR ''}'' then
        (if n \<noteq> [] \<and> take 1 cs = ''}''
         then map_option ((#) (PField n)) (scan_template (InText []) (drop 1 cs)) else None)
      else if safe_char c \<and> (n \<noteq> [] \<or> \<not> in_range 48 57 c)
      then scan_template (InField (n @ [c])) cs else None)"

text \<open>\<open>Execute\<close>: a field the data has not is an error.\<close>

fun exec_pieces :: "piece list \<Rightarrow> (string \<times> string) list \<Rightarrow> string option" where
  "exec_pieces [] data = Some []"
| "exec_pieces (PText t # ps) data = map_option ((@) t) (exec_pieces ps data)"
| "exec_pieces (PField n # ps) data =
     (case map_of data n of
        None \<Rightarrow> None
      | Some v \<Rightarrow> map_option ((@) v) (exec_pieces ps data))"

datatype rendered = ParseError string | RenderError string | Rendered string

type_synonym template_engine = "string \<Rightarrow> (string \<times> string) list \<Rightarrow> rendered"

definition render :: "template_engine \<Rightarrow> template_engine" where
  "render other tmpl data =
     (case scan_template (InText []) tmpl of
        None \<Rightarrow> other tmpl data
      | Some ps \<Rightarrow>
          (case exec_pieces ps data of
             None \<Rightarrow> RenderError ''can't evaluate field''
           | Some text \<Rightarrow> Rendered text))"

definition text_lines :: "string list \<Rightarrow> string" where
  "text_lines ls = concat (map (\<lambda>l. l @ [CHR 0x0A]) ls)"

definition default_compromised_rego :: string where
  "default_compromised_rego = text_lines
     [''package ssf.relay.quarantine.{{.PackageID}}'',
      '''',
      ''# Auto-injected by ssf-relay '' @ em_dash @ '' source-compromised signal'',
      ''# source:     {{.SourceID}}'',
      ''# event_type: {{.EventType}}'',
      ''# reason:     {{.Reason}}'',
      '''',
      ''default allow := false'',
      '''',
      ''deny contains msg if {'',
      ''    input.source == \"{{.SourceID}}\"'',
      ''    msg := \"source {{.SourceID}} quarantined by SSF fabric (compromised)\"'',
      ''}'']"

definition default_degraded_rego :: string where
  "default_degraded_rego = text_lines
     [''package ssf.relay.degraded.{{.PackageID}}'',
      '''',
      ''# Auto-injected by ssf-relay '' @ em_dash @ '' source-degraded signal'',
      ''# source:     {{.SourceID}}'',
      ''# event_type: {{.EventType}}'',
      ''# reason:     {{.Reason}}'',
      '''',
      ''# Adds a warning annotation; does not deny. Consuming policies may check'',
      ''# data.ssf.relay.degraded[id].degraded == true.'',
      ''degraded := true'',
      ''source_id := \"{{.SourceID}}\"'']"

subsection \<open>The adapter\<close>

record opa_policy =
  opa_addr :: string
  policy_id_prefix :: string
  compromised_rego :: string
  degraded_rego :: string

definition new_opa_policy :: "config_map \<Rightarrow> opa_policy" where
  "new_opa_policy cfg =
     \<lparr>opa_addr = cfg_base_url cfg ''opa_addr'' ''http://localhost:8181'',
      policy_id_prefix = cfg_string cfg ''policy_id_prefix'' ''ssf-relay'',
      compromised_rego = cfg_string cfg ''compromised_rego'' default_compromised_rego,
      degraded_rego = cfg_string cfg ''degraded_rego'' default_degraded_rego\<rparr>"

definition policy_id :: "opa_policy \<Rightarrow> string \<Rightarrow> string \<Rightarrow> string" where
  "policy_id a source_id state =
     policy_id_prefix a @ ''_'' @ safe_id source_id @ ''_'' @ state"

definition policy_reason :: "inbound_set \<Rightarrow> string" where
  "policy_reason s =
     (if in_reason s = []
      then (case payload_string s ''reason'' of Some v \<Rightarrow> v | None \<Rightarrow> [])
      else in_reason s)"

definition policy_data :: "opa_policy \<Rightarrow> inbound_set \<Rightarrow> string \<Rightarrow> (string \<times> string) list" where
  "policy_data a s state =
     [(''PolicyID'', policy_id a (in_source_id s) state),
      (''PackageID'', safe_id (policy_id a (in_source_id s) state)),
      (''SourceID'', in_source_id s),
      (''EventType'', in_event_type s),
      (''Reason'', policy_reason s)]"

definition policy_url :: "opa_policy \<Rightarrow> string \<Rightarrow> string" where
  "policy_url a i = opa_addr a @ ''/v1/policies/'' @ i"

definition put_policy :: "template_engine \<Rightarrow> opa_policy \<Rightarrow> inbound_set \<Rightarrow> string \<Rightarrow> string \<Rightarrow> world \<Rightarrow> err \<times> world" where
  "put_policy other a s state rego w =
     (let i = policy_id a (in_source_id s) state
      in case render other rego (policy_data a s state) of
           ParseError t \<Rightarrow> (Some (EWrap ''opa-policy: parse rego template: %w'' [] (EEnv t)), w)
         | RenderError t \<Rightarrow> (Some (EWrap ''opa-policy: render rego template: %w'' [] (EEnv t)), w)
         | Rendered text \<Rightarrow>
     (case new_request w ''PUT'' (policy_url a i) text of
        Inl er \<Rightarrow> (Some (EWrap ''build PUT request: %w'' [] er), w)
      | Inr rq \<Rightarrow>
     (case http_do (set_header ''Content-Type'' ''text/plain'' rq) w of
        (Inl er, w') \<Rightarrow> (Some (EWrap ''PUT policy/%s: %w'' [i] er), w')
      | (Inr resp, w') \<Rightarrow>
          (if 400 \<le> rs_status resp
           then (Some (EMsg ''PUT policy/%s: HTTP %d'' [i, itoa (rs_status resp)]), w')
           else (None, w')))))"

definition delete_policy :: "opa_policy \<Rightarrow> string \<Rightarrow> world \<Rightarrow> err \<times> world" where
  "delete_policy a i w =
     (case new_request w ''DELETE'' (policy_url a i) [] of
        Inl er \<Rightarrow> (Some (EWrap ''build DELETE request: %w'' [] er), w)
      | Inr rq \<Rightarrow>
     (case http_do rq w of
        (Inl er, w') \<Rightarrow> (Some (EWrap ''DELETE policy/%s: %w'' [i] er), w')
      | (Inr resp, w') \<Rightarrow>
          (if rs_status resp = 404 then (None, w')
           else if 400 \<le> rs_status resp
           then (Some (EMsg ''DELETE policy/%s: HTTP %d'' [i, itoa (rs_status resp)]), w')
           else (None, w'))))"

text \<open>The texts of the errors that are not nil, joined by "; ".\<close>

definition join_errs :: "err list \<Rightarrow> err" where
  "join_errs ers =
     (let msgs = List.map_filter id ers in if msgs = [] then None else Some (EJoin msgs))"

definition opa_policy_act :: "template_engine \<Rightarrow> opa_policy \<Rightarrow> inbound_set \<Rightarrow> world \<Rightarrow> err \<times> world" where
  "opa_policy_act other a s w =
     (if in_event_type s = event_compromised
      then put_policy other a s ''compromised'' (compromised_rego a) w
      else if in_event_type s = event_degraded
      then put_policy other a s ''degraded'' (degraded_rego a) w
      else if in_event_type s = event_recovered
      then (case delete_policy a (policy_id a (in_source_id s) ''compromised'') w of
              (e1, w1) \<Rightarrow>
                (case delete_policy a (policy_id a (in_source_id s) ''degraded'') w1 of
                   (e2, w2) \<Rightarrow> (join_errs [e1, e2], w2)))
      else (Some (EMsg ''opa-policy: unhandled event type %q'' [in_event_type s]), w))"

definition opa_policy_adapter :: "template_engine \<Rightarrow> opa_policy \<Rightarrow> adapter" where
  "opa_policy_adapter other a =
     \<lparr>ad_name = ''opa-policy'', ad_types = caep_types, ad_act = opa_policy_act other a\<rparr>"

subsection \<open>The requests it makes\<close>

definition put_request :: "opa_policy \<Rightarrow> string \<Rightarrow> string \<Rightarrow> request" where
  "put_request a i text =
     \<lparr>rq_method = ''PUT'', rq_url = policy_url a i, rq_headers = [(''Content-Type'', ''text/plain'')],
      rq_body = text\<rparr>"

definition delete_request :: "opa_policy \<Rightarrow> string \<Rightarrow> request" where
  "delete_request a i =
     \<lparr>rq_method = ''DELETE'', rq_url = policy_url a i, rq_headers = [], rq_body = []\<rparr>"

lemma delete_policy_cases:
  "delete_policy a i w =
     (if \<not> url_ok w (policy_url a i)
      then (Some (EWrap ''build DELETE request: %w'' [] (EEnv ''parse url'')), w)
      else
        ((case server w (sent w) (delete_request a i) of
            Inl t \<Rightarrow> Some (EWrap ''DELETE policy/%s: %w'' [i] (EEnv t))
          | Inr r \<Rightarrow>
              (if rs_status r < 400 \<or> rs_status r = 404 then None
               else Some (EMsg ''DELETE policy/%s: HTTP %d'' [i, itoa (rs_status r)]))),
         w\<lparr>sent := sent w @ [delete_request a i]\<rparr>))"
  by (auto simp: delete_policy_def new_request_def http_do_def delete_request_def split: sum.split)

lemma put_policy_cases:
  "put_policy other a s state rego w =
     (case render other rego (policy_data a s state) of
        ParseError t \<Rightarrow> (Some (EWrap ''opa-policy: parse rego template: %w'' [] (EEnv t)), w)
      | RenderError t \<Rightarrow> (Some (EWrap ''opa-policy: render rego template: %w'' [] (EEnv t)), w)
      | Rendered text \<Rightarrow>
          (let i = policy_id a (in_source_id s) state
           in if \<not> url_ok w (policy_url a i)
              then (Some (EWrap ''build PUT request: %w'' [] (EEnv ''parse url'')), w)
              else
                ((case server w (sent w) (put_request a i text) of
                    Inl t \<Rightarrow> Some (EWrap ''PUT policy/%s: %w'' [i] (EEnv t))
                  | Inr r \<Rightarrow>
                      (if rs_status r < 400 then None
                       else Some (EMsg ''PUT policy/%s: HTTP %d'' [i, itoa (rs_status r)]))),
                 w\<lparr>sent := sent w @ [put_request a i text]\<rparr>)))"
  by (auto simp: put_policy_def new_request_def set_header_def http_do_def put_request_def Let_def
      split: sum.split rendered.split)

lemma requests_only_delete: "requests_only 1 (delete_policy a i)"
  unfolding requests_only_def by (auto simp: delete_policy_cases intro: exI [of _ "[]"])

lemma requests_only_put: "requests_only 1 (put_policy other a s state rego)"
  unfolding requests_only_def
  by (auto simp: put_policy_cases Let_def intro: exI [of _ "[]"] split: rendered.split)

lemma put_nil:
  "put_policy other a s state rego w = (None, w\<lparr>sent := sent w @ rqs\<rparr>) \<Longrightarrow>
   answered (server w) (sent w) rqs"
  by (auto simp: put_policy_cases Let_def acceptable_def split: if_splits sum.splits rendered.splits)

lemma join_errs_None [simp]: "join_errs [e1, e2] = None \<longleftrightarrow> e1 = None \<and> e2 = None"
  by (auto simp: join_errs_def Let_def map_filter_def)

lemma delete_nil:
  "delete_policy a i w = (None, w') \<Longrightarrow>
   w' = w\<lparr>sent := sent w @ [delete_request a i]\<rparr> \<and> answered (server w) (sent w) [delete_request a i]"
  by (auto simp: delete_policy_cases acceptable_def split: if_splits sum.splits)

interpretation opa_policy: action_adapter "opa_policy_act other a" 2 for other a
proof unfold_locales
  fix s w rqs
  have "requests_only (1 + 1) (\<lambda>w. case delete_policy a i w of (e1, w1) \<Rightarrow>
      (case delete_policy a j w1 of (e2, w2) \<Rightarrow> (join_errs [e1, e2], w2)))" for i j
    by (intro requests_only_bind requests_only_map requests_only_delete)
  then have "requests_only 2 (\<lambda>w. case delete_policy a i w of (e1, w1) \<Rightarrow>
      (case delete_policy a j w1 of (e2, w2) \<Rightarrow> (join_errs [e1, e2], w2)))" for i j
    by (simp add: numeral_2_eq_2)
  then show "requests_only 2 (opa_policy_act other a s)"
    unfolding opa_policy_act_def
    by (intro requests_only_if requests_only_pure requests_only_mono [OF requests_only_put]) simp_all
  assume "opa_policy_act other a s w = (None, w\<lparr>sent := sent w @ rqs\<rparr>)"
  then show "answered (server w) (sent w) rqs"
    by (auto simp: opa_policy_act_def put_nil dest!: delete_nil split: if_splits prod.splits sum.splits)
qed

subsection \<open>The default policies\<close>

lemma default_compromised_pieces:
  "scan_template (InText []) default_compromised_rego = Some
     [PText ''package ssf.relay.quarantine.'', PField ''PackageID'',
      PText (text_lines [[], [], ''# Auto-injected by ssf-relay '' @ em_dash @ '' source-compromised signal'']
        @ ''# source:     ''), PField ''SourceID'',
      PText (text_lines [[]] @ ''# event_type: ''), PField ''EventType'',
      PText (text_lines [[]] @ ''# reason:     ''), PField ''Reason'',
      PText (text_lines [[], [], ''default allow := false'', [], ''deny contains msg if {'']
        @ ''    input.source == \"''), PField ''SourceID'',
      PText (text_lines [''\"''] @ ''    msg := \"source ''), PField ''SourceID'',
      PText (text_lines ['' quarantined by SSF fabric (compromised)\"'', ''}''])]"
  by code_simp

lemma default_degraded_pieces:
  "scan_template (InText []) default_degraded_rego = Some
     [PText ''package ssf.relay.degraded.'', PField ''PackageID'',
      PText (text_lines [[], [], ''# Auto-injected by ssf-relay '' @ em_dash @ '' source-degraded signal'']
        @ ''# source:     ''), PField ''SourceID'',
      PText (text_lines [[]] @ ''# event_type: ''), PField ''EventType'',
      PText (text_lines [[]] @ ''# reason:     ''), PField ''Reason'',
      PText (text_lines [[], [],
          ''# Adds a warning annotation; does not deny. Consuming policies may check'',
          ''# data.ssf.relay.degraded[id].degraded == true.'', ''degraded := true'']
        @ ''source_id := \"''), PField ''SourceID'',
      PText (text_lines [''\"''])]"
  by code_simp

text \<open>The package line of a default policy, whatever the rest of it says.\<close>

lemma default_policy_renders:
  assumes "rego = default_compromised_rego \<and> pkg = ''package ssf.relay.quarantine.'' \<or>
      rego = default_degraded_rego \<and> pkg = ''package ssf.relay.degraded.''"
  shows "\<exists>rest. render other rego (policy_data a s st) =
    Rendered (pkg @ safe_id (policy_id a (in_source_id s) st) @ CHR 0x0A # rest)"
  using assms
  by (elim disjE conjE; simp only: render_def default_compromised_pieces default_degraded_pieces option.case)
    (simp_all add: policy_data_def text_lines_def)

subsection \<open>What a policy server holds\<close>

text \<open>
  OPA's policy store as the requests leave it: a PUT stores the body under the ID in the
  path, a DELETE removes it.
\<close>

definition store_step :: "opa_policy \<Rightarrow> request \<Rightarrow> (string \<rightharpoonup> string) \<Rightarrow> (string \<rightharpoonup> string)" where
  "store_step a rq m =
     (let base = policy_url a []
      in if has_prefix (rq_url rq) base
         then (let i = drop (length base) (rq_url rq)
               in if rq_method rq = ''PUT'' then m(i \<mapsto> rq_body rq)
                  else if rq_method rq = ''DELETE'' then m(i := None) else m)
         else m)"

definition policies :: "opa_policy \<Rightarrow> request list \<Rightarrow> string \<rightharpoonup> string" where
  "policies a rqs = fold (store_step a) rqs Map.empty"

lemma policies_append: "policies a (xs @ ys) = fold (store_step a) ys (policies a xs)"
  by (simp add: policies_def)

lemma policy_url_split: "policy_url a i = policy_url a [] @ i"
  by (simp add: policy_url_def)

lemma store_put [simp]: "store_step a (put_request a i t) m = m(i \<mapsto> t)"
  unfolding store_step_def put_request_def by (simp add: Let_def policy_url_split [of a i])

lemma store_delete [simp]: "store_step a (delete_request a i) m = m(i := None)"
  unfolding store_step_def delete_request_def by (simp add: Let_def policy_url_split [of a i])

lemma policy_id_eq_iff:
  assumes "st \<in> {''compromised'', ''degraded''}" "st' \<in> {''compromised'', ''degraded''}"
  shows "policy_id a x st = policy_id a y st' \<longleftrightarrow> safe_id x = safe_id y \<and> st = st'"
proof
  assume "policy_id a x st = policy_id a y st'"
  then have eq: "(safe_id x @ ''_'') @ st = (safe_id y @ ''_'') @ st'" by (simp add: policy_id_def)
  then have "rev st @ rev (safe_id x @ ''_'') = rev st' @ rev (safe_id y @ ''_'')"
    by (metis rev_append)
  then have "st = st'" using assms by auto
  with eq show "safe_id x = safe_id y \<and> st = st'" by simp
qed (auto simp: policy_id_def)

subsection \<open>Properties\<close>

text \<open>C29: Policy identity: two sources share the policies the relay injects exactly when their
  IDs agree after sanitising, and the policies of the two states are always different. A
  sanitised ID has safe characters only, and an ID that has no others is kept as it is, so
  sources with such IDs never share a policy; IDs such as \<open>a-b\<close> and \<open>a.b\<close> do.\<close>

theorem policy_identity:
  "(policy_id a x ''compromised'' = policy_id a y ''compromised'' \<longleftrightarrow> safe_id x = safe_id y) \<and>
   (policy_id a x ''degraded'' = policy_id a y ''degraded'' \<longleftrightarrow> safe_id x = safe_id y) \<and>
   policy_id a x ''compromised'' \<noteq> policy_id a y ''degraded'' \<and>
   list_all safe_char (safe_id x) \<and> (safe_id x = x \<longleftrightarrow> list_all safe_char x) \<and>
   policy_id a ''a-b'' ''degraded'' = policy_id a ''a.b'' ''degraded''"
proof -
  have "safe_id x = x \<longleftrightarrow> list_all safe_char x"
    using safe_id_chars [of x] safe_id_fixed [of x] by auto
  moreover have "safe_id ''a-b'' = safe_id ''a.b''" by code_simp
  ultimately show ?thesis by (simp add: policy_id_eq_iff safe_id_chars)
qed

text \<open>C5: Recovery undoes injection: against a server that accepts policies and answers a DELETE
  with success or 404, a compromised or degraded signal stores the default policy of the
  state, in a package whose name has safe characters only, and a later recovered signal for
  the same source succeeds and leaves exactly the policies there were, minus the two of the
  source.\<close>

theorem recovery_undoes_injection:
  assumes accepts: "\<forall>hist rq. \<exists>r. server w hist rq = Inr r \<and>
      (rs_status r < 400 \<or> rq_method rq = ''DELETE'' \<and> rs_status r = 404)"
    and urls: "\<forall>u. url_ok w u"
    and default: "compromised_rego a = default_compromised_rego" "degraded_rego a = default_degraded_rego"
    and signal: "in_event_type s = event_compromised \<and> state = ''compromised'' \<or>
      in_event_type s = event_degraded \<and> state = ''degraded''"
    and recovered: "in_event_type s' = event_recovered" "in_source_id s' = in_source_id s"
  shows "\<exists>w1 w2 pkg i rego. opa_policy_act other a s w = (None, w1) \<and>
    policies a (sent w1) = (policies a (sent w))(policy_id a (in_source_id s) state \<mapsto>
       ''package ssf.relay.'' @ pkg @ ''.'' @ i @ CHR 0x0A # rego) \<and> list_all safe_char i \<and>
    opa_policy_act other a s' w1 = (None, w2) \<and>
    policies a (sent w2) = (policies a (sent w))(policy_id a (in_source_id s) ''compromised'' := None,
       policy_id a (in_source_id s) ''degraded'' := None)"
proof -
  let ?i = "\<lambda>st. policy_id a (in_source_id s) st"
  have put_ok: "\<exists>r. server w h (put_request a j t) = Inr r \<and> rs_status r < 400" for h j t
    using accepts [rule_format, of h "put_request a j t"] by (auto simp: put_request_def)
  have del_ok: "\<exists>r. server w h (delete_request a j) = Inr r \<and> (rs_status r < 400 \<or> rs_status r = 404)" for h j
    using accepts [rule_format, of h "delete_request a j"] by (auto simp: delete_request_def)
  define rego where "rego = (if state = ''compromised'' then default_compromised_rego else default_degraded_rego)"
  define pkg where "pkg = (if state = ''compromised'' then ''quarantine'' else ''degraded'')"
  have rego: "rego = default_compromised_rego \<and> pkg = ''quarantine'' \<or>
      rego = default_degraded_rego \<and> pkg = ''degraded''"
    by (simp add: rego_def pkg_def)
  have act: "opa_policy_act other a s w = put_policy other a s state rego w"
    using signal default by (auto simp: opa_policy_act_def rego_def)
  obtain rest where rd: "render other rego (policy_data a s state) =
      Rendered (''package ssf.relay.'' @ pkg @ ''.'' @ safe_id (?i state) @ CHR 0x0A # rest)" (is "_ = Rendered ?t")
    using default_policy_renders [of rego "''package ssf.relay.'' @ pkg @ ''.''" other a s state] rego by auto
  let ?w1 = "w\<lparr>sent := sent w @ [put_request a (?i state) ?t]\<rparr>"
  have w1: "opa_policy_act other a s w = (None, ?w1)"
    using act put_ok [of "sent w" "?i state" ?t] urls by (auto simp: put_policy_cases rd Let_def)
  let ?w2 = "w\<lparr>sent := sent ?w1 @ [delete_request a (?i ''compromised''), delete_request a (?i ''degraded'')]\<rparr>"
  have "delete_policy a j v = (None, v\<lparr>sent := sent v @ [delete_request a j]\<rparr>)"
    if "server v = server w" "url_ok v = url_ok w" for j and v :: world
    using del_ok [of "sent v" j] urls that by (auto simp: delete_policy_cases)
  then have w2: "opa_policy_act other a s' ?w1 = (None, ?w2)"
    using recovered by (simp add: opa_policy_act_def)
  have "policies a (sent ?w2) = (policies a (sent w))(?i ''compromised'' := None, ?i ''degraded'' := None)"
    using signal by (auto simp: policies_append)
  with w1 w2 show ?thesis
    by (intro exI [of _ ?w1] exI [of _ ?w2] exI [of _ pkg] exI [of _ "safe_id (?i state)"] exI [of _ rest])
      (simp add: policies_append safe_id_chars)
qed

theorem recovery_undoes_injection_witness:
  "\<exists>w1 w2. opa_policy_act (\<lambda>_ _. ParseError []) (new_opa_policy [])
       (zero_inbound\<lparr>in_event_type := event_compromised\<rparr>)
       ((example_world 204 [])\<lparr>url_ok := \<lambda>_. True\<rparr>) = (None, w1) \<and>
     opa_policy_act (\<lambda>_ _. ParseError []) (new_opa_policy [])
       (zero_inbound\<lparr>in_event_type := event_recovered\<rparr>) w1 = (None, w2) \<and>
     policies (new_opa_policy []) (sent w2) = Map.empty"
proof -
  let ?w = "(example_world 204 [])\<lparr>url_ok := \<lambda>_. True\<rparr>"
  let ?s = "zero_inbound\<lparr>in_event_type := event_compromised\<rparr>"
  have "\<forall>hist rq. \<exists>r. server ?w hist rq = Inr r \<and>
      (rs_status r < 400 \<or> rq_method rq = ''DELETE'' \<and> rs_status r = 404)"
    "\<forall>u. url_ok ?w u" by (simp_all add: example_world_def)
  moreover have "compromised_rego (new_opa_policy []) = default_compromised_rego"
    "degraded_rego (new_opa_policy []) = default_degraded_rego"
    by (simp_all add: new_opa_policy_def)
  moreover have "policies (new_opa_policy []) (sent ?w) = Map.empty"
    by (simp add: policies_def example_world_def)
  ultimately show ?thesis
    using recovery_undoes_injection [of ?w "new_opa_policy []" ?s "''compromised''"
        "zero_inbound\<lparr>in_event_type := event_recovered\<rparr>" "\<lambda>_ _. ParseError []"]
    by (simp only: fun_upd_triv) (simp add: fun_upd_idem, blast)
qed

end
