(* ===== verification/Router.thy ===== *)
theory Router
  imports Vault_Action Opa_Policy
begin

text \<open>
  \<open>relay/router.go\<close>: a map from event type to the adapters registered for it, in order of
  registration. \<open>handle\<close> calls every adapter of the type, one after the other, and
  combines their errors. The lemmas need of an adapter only the contract
  \<open>action_adapter\<close>.
\<close>

record router =
  routes :: "adapter list gmap"

definition new_router :: router where
  "new_router = \<lparr>routes = []\<rparr>"

definition route :: "router \<Rightarrow> string \<Rightarrow> adapter list" where
  "route r et = (case map_of (routes r) et of None \<Rightarrow> [] | Some as \<Rightarrow> as)"

fun add_routes :: "adapter \<Rightarrow> string list \<Rightarrow> router \<Rightarrow> router" where
  "add_routes a [] r = r"
| "add_routes a (et # ets) r = add_routes a ets (r\<lparr>routes := map_set et (route r et @ [a]) (routes r)\<rparr>)"

definition register_adapter :: "adapter \<Rightarrow> router \<Rightarrow> router" where
  "register_adapter a r = add_routes a (ad_types a) r"

fun run_adapters :: "adapter list \<Rightarrow> inbound_set \<Rightarrow> world \<Rightarrow> (string \<times> go_error) list \<times> world" where
  "run_adapters [] s w = ([], w)"
| "run_adapters (a # as) s w =
     (case ad_act a s w of
        (er, w1) \<Rightarrow>
          (case run_adapters as s w1 of
             (ers, w2) \<Rightarrow> ((case er of None \<Rightarrow> ers | Some e \<Rightarrow> (ad_name a, e) # ers), w2)))"

definition handle :: "router \<Rightarrow> inbound_set \<Rightarrow> world \<Rightarrow> err \<times> world" where
  "handle r s w =
     (let as = route r (in_event_type s)
      in if as = [] then (None, w)
         else
           (case run_adapters as s w of
              (ers, w') \<Rightarrow> (if ers = [] then None else Some (EFanOut ers), w')))"

text \<open>The event types, in the order of the canonical map; the code's order is any order of them.\<close>

definition event_types :: "router \<Rightarrow> string list" where
  "event_types r = map fst (routes r)"

subsection \<open>Registration\<close>

definition router_ok :: "router \<Rightarrow> bool" where
  "router_ok r \<longleftrightarrow> wf_map (routes r) \<and> (\<forall>et \<in> set (event_types r). route r et \<noteq> [])"

lemma route_new [simp]: "route new_router et = []"
  by (simp add: route_def new_router_def)

lemma route_map_set [simp]:
  "route (r\<lparr>routes := map_set et as (routes r)\<rparr>) et' = (if et' = et then as else route r et')"
  by (simp add: route_def)

lemma event_types_map_set [simp]:
  "set (event_types (r\<lparr>routes := map_set et as (routes r)\<rparr>)) = insert et (set (event_types r))"
  by (simp add: event_types_def)

lemma route_add_routes:
  "route (add_routes a ets r) et = route r et @ replicate (count_list ets et) a"
  by (induction a ets r rule: add_routes.induct) (auto simp: replicate_app_Cons_same)

lemma event_types_add_routes:
  "set (event_types (add_routes a ets r)) = set (event_types r) \<union> set ets"
  by (induction a ets r rule: add_routes.induct) auto

lemma router_ok_add_routes: "router_ok r \<Longrightarrow> router_ok (add_routes a ets r)"
  by (induction a ets r rule: add_routes.induct) (auto simp: router_ok_def)

lemma router_ok_new: "router_ok new_router"
  by (simp add: router_ok_def new_router_def event_types_def)

lemma registered_router:
  "router_ok r \<Longrightarrow>
   router_ok (fold register_adapter as r) \<and>
   route (fold register_adapter as r) et =
     route r et @ concat (map (\<lambda>a. replicate (count_list (ad_types a) et) a) as) \<and>
   set (event_types (fold register_adapter as r)) = set (event_types r) \<union> (\<Union>a \<in> set as. set (ad_types a))"
  by (induction as arbitrary: r)
    (auto simp: register_adapter_def route_add_routes event_types_add_routes router_ok_add_routes)

lemma route_empty_iff: "router_ok r \<Longrightarrow> route r et = [] \<longleftrightarrow> et \<notin> set (event_types r)"
  using map_of_SomeD [of "routes r" et]
  by (force simp: router_ok_def route_def event_types_def split: option.splits)

subsection \<open>Dispatch\<close>

text \<open>The world when an adapter's turn comes: every one before it has acted.\<close>

definition after :: "adapter list \<Rightarrow> inbound_set \<Rightarrow> world \<Rightarrow> world" where
  "after as s w = fold (\<lambda>a w. snd (ad_act a s w)) as w"

definition turn_errors :: "adapter list \<Rightarrow> inbound_set \<Rightarrow> world \<Rightarrow> nat \<Rightarrow> (string \<times> go_error) list" where
  "turn_errors as s w i =
     (case fst (ad_act (as ! i) s (after (take i as) s w)) of
        None \<Rightarrow> []
      | Some e \<Rightarrow> [(ad_name (as ! i), e)])"

lemma run_adapters_world: "snd (run_adapters as s w) = after as s w"
  by (induction as s w rule: run_adapters.induct) (auto simp: after_def split: prod.split)

lemma turn_errors_Cons:
  "turn_errors (a # as) s w 0 = (case fst (ad_act a s w) of None \<Rightarrow> [] | Some e \<Rightarrow> [(ad_name a, e)])"
  "turn_errors (a # as) s w (Suc i) = turn_errors as s (snd (ad_act a s w)) i"
  by (simp_all add: turn_errors_def after_def split: option.split)

lemma run_adapters_errors:
  "fst (run_adapters as s w) = concat (map (turn_errors as s w) [0..<length as])"
proof (induction as s w rule: run_adapters.induct)
  case (2 a as s w)
  have "map (turn_errors (a # as) s w) [0..<length (a # as)] =
      turn_errors (a # as) s w 0 # map (turn_errors as s (snd (ad_act a s w))) [0..<length as]"
    by (simp only: length_Cons map_upt_Suc turn_errors_Cons)
  with 2 show ?case
    by (auto simp: turn_errors_Cons split: prod.split option.split)
qed simp

lemma run_adapters_ok:
  assumes "\<forall>a \<in> set as. action_adapter (ad_act a) n"
  shows "\<exists>rqs. snd (run_adapters as s w) = w\<lparr>sent := sent w @ rqs\<rparr> \<and> length rqs \<le> n * length as \<and>
    (fst (run_adapters as s w) = [] \<longrightarrow> answered (server w) (sent w) rqs)"
  using assms
proof (induction as s w rule: run_adapters.induct)
  case (1 s w)
  then show ?case by (auto intro: exI [of _ "[]"])
next
  case (2 a as s w)
  have a: "action_adapter (ad_act a) n" using 2(2) by simp
  obtain er w1 where act: "ad_act a s w = (er, w1)" by fastforce
  obtain r1 where r1: "w1 = w\<lparr>sent := sent w @ r1\<rparr>" "length r1 \<le> n"
    using action_adapter.act_sent [OF a, of s w] act by auto
  have nil: "er = None \<Longrightarrow> answered (server w) (sent w) r1"
    using action_adapter.act_nil [OF a, of s w r1] act r1(1) by simp
  obtain r2 where r2: "snd (run_adapters as s w1) = w1\<lparr>sent := sent w1 @ r2\<rparr>"
    "length r2 \<le> n * length as"
    "fst (run_adapters as s w1) = [] \<longrightarrow> answered (server w1) (sent w1) r2"
    using 2 act by fastforce
  show ?case
    using act r1 r2 nil
    by (intro exI [of _ "r1 @ r2"]) (auto simp: answered_append split: prod.splits option.splits)
qed

subsection \<open>Properties\<close>

text \<open>C31: Registration builds the fan-out: after registering adapters in some order, the adapters of
  an event type are exactly those that declare it, in the order of registration and as often
  as they declare it, and the event types the router knows are exactly the declared ones,
  each once.\<close>

theorem router_fan_out:
  "(\<forall>et. route (fold register_adapter as new_router) et =
      concat (map (\<lambda>a. replicate (count_list (ad_types a) et) a) as)) \<and>
   set (event_types (fold register_adapter as new_router)) = (\<Union>a \<in> set as. set (ad_types a)) \<and>
   distinct (event_types (fold register_adapter as new_router))"
proof -
  have "set (event_types new_router) = {}" by (simp add: event_types_def new_router_def)
  then show ?thesis
    using registered_router [OF router_ok_new, of as]
    by (auto simp: router_ok_def event_types_def wf_map_distinct)
qed

text \<open>C11: Dispatch reaches every adapter: each adapter of the event type acts once, in order, in
  the world the earlier ones left, whether or not they failed; the combined error lists
  exactly the adapters that failed in their turn, in order, and is nil when none did. Under
  the contract of an adapter the whole dispatch makes a bounded number of requests and
  changes nothing else, and a nil result means every one of them was answered without a
  failure. A type nobody registered is dropped without a trace.\<close>

theorem router_dispatch:
  assumes "as = route r (in_event_type s)" "\<forall>a \<in> set as. action_adapter (ad_act a) n"
  shows "snd (handle r s w) = after as s w \<and>
    fst (handle r s w) =
      (let ers = concat (map (turn_errors as s w) [0..<length as])
       in if ers = [] then None else Some (EFanOut ers)) \<and>
    (\<exists>rqs. snd (handle r s w) = w\<lparr>sent := sent w @ rqs\<rparr> \<and> length rqs \<le> n * length as \<and>
       (fst (handle r s w) = None \<longrightarrow> answered (server w) (sent w) rqs))"
proof (cases "as = []")
  case True
  then have "handle r s w = (None, w)" using assms(1) by (simp add: handle_def)
  with True show ?thesis by (simp add: after_def)
next
  case False
  then have h: "handle r s w = (let (ers, w') = run_adapters as s w
      in (if ers = [] then None else Some (EFanOut ers), w'))"
    using assms(1) by (simp add: handle_def)
  show ?thesis
    using run_adapters_world [of as s w] run_adapters_errors [of as s w] run_adapters_ok [OF assms(2), of s w]
    by (simp add: h split_def Let_def) blast
qed

theorem router_dispatch_witness:
  "let v = vault_adapter (new_vault_action []); p = opa_policy_adapter (\<lambda>_ _. ParseError []) (new_opa_policy []);
       r = fold register_adapter [v, p] new_router; s = example_inbound event_recovered
   in \<exists>rqs. snd (handle r s (example_world 404 [])) = (example_world 404 [])\<lparr>sent := rqs\<rparr> \<and> length rqs \<le> 4"
proof -
  let ?v = "vault_adapter (new_vault_action [])"
  let ?p = "opa_policy_adapter (\<lambda>_ _. ParseError []) (new_opa_policy [])"
  let ?r = "fold register_adapter [?v, ?p] new_router"
  let ?s = "example_inbound event_recovered"
  have "route ?r event_recovered = [?v, ?p]"
    using registered_router [OF router_ok_new, of "[?v, ?p]" event_recovered]
    by (simp add: vault_adapter_def opa_policy_adapter_def caep_types_def)
  then have as: "[?v, ?p] = route ?r (in_event_type ?s)" by (simp add: example_inbound_def)
  have "\<forall>a \<in> set [?v, ?p]. action_adapter (ad_act a) 2"
    by (simp add: vault_adapter_def opa_policy_adapter_def vault_action.action_adapter_axioms
        opa_policy.action_adapter_axioms)
  from router_dispatch [OF as this, of "example_world 404 []"] obtain rqs where
    "snd (handle ?r ?s (example_world 404 [])) = (example_world 404 [])\<lparr>sent := sent (example_world 404 []) @ rqs\<rparr>"
    "length rqs \<le> 2 * length [?v, ?p]" by blast
  moreover have "sent (example_world 404 []) = []" by (simp add: example_world_def)
  ultimately show ?thesis unfolding Let_def by auto
qed

end
