(* ===== verification/K8s_Cordon.thy ===== *)
theory K8s_Cordon
  imports Action Emitter
begin

text \<open>
  \<open>actions/k8scordon/adapter.go\<close>: cordoning and uncordoning a node with one PATCH of the
  Kubernetes API. Whether a CA bundle holds a certificate is the parameter \<open>certs_ok\<close>;
  \<open>trim_space\<close> is \<open>strings.TrimSpace\<close> with the Unicode white space it knows.
\<close>

subsection \<open>White space\<close>

definition space_runes :: "string list" where
  "space_runes = map encode_rune
     ([9, 10, 11, 12, 13, 32, 0x85, 0xA0, 0x1680] @ [0x2000..<0x200B] @ [0x2028, 0x2029, 0x202F, 0x205F, 0x3000])"

text \<open>Removes leading strings of \<open>ps\<close>; an empty string in \<open>ps\<close> would stop it.\<close>

function strip_prefixes :: "string list \<Rightarrow> string \<Rightarrow> string" where
  "strip_prefixes ps s =
     (case find (has_prefix s) ps of
        None \<Rightarrow> s
      | Some p \<Rightarrow> (if p = [] \<or> s = [] then s else strip_prefixes ps (drop (length p) s)))"
  by pat_completeness auto
termination
  by (relation "measure (length \<circ> snd)") auto

declare strip_prefixes.simps [simp del]

text \<open>
  From the right, the last rune is white space exactly when the text ends with the rune's
  bytes: the encodings have one leading byte each, so no longer rune can end with one.
\<close>

definition trim_space :: "string \<Rightarrow> string" where
  "trim_space s =
     rev (strip_prefixes (map rev space_runes) (rev (strip_prefixes space_runes s)))"

lemma strip_prefixes_stop: "\<forall>p \<in> set ps. \<not> has_prefix s p \<Longrightarrow> strip_prefixes ps s = s"
proof -
  assume "\<forall>p \<in> set ps. \<not> has_prefix s p"
  then have "find (has_prefix s) ps = None" by (simp add: find_None_iff)
  then show ?thesis by (subst strip_prefixes.simps) simp
qed

lemma strip_prefixes_clean:
  assumes "[] \<notin> set ps"
  shows "\<forall>p \<in> set ps. \<not> has_prefix (strip_prefixes ps s) p"
  using assms
proof (induction ps s rule: strip_prefixes.induct)
  case (1 ps s)
  show ?case
  proof (cases "find (has_prefix s) ps")
    case None
    then have "\<forall>p \<in> set ps. \<not> has_prefix s p" by (simp add: find_None_iff)
    then show ?thesis by (simp add: strip_prefixes_stop)
  next
    case (Some p)
    then have p: "p \<in> set ps" "has_prefix s p" by (auto simp: find_Some_iff)
    with "1.prems" have "p \<noteq> []" "s \<noteq> []" by (auto simp: has_prefix_def)
    with 1 Some show ?thesis by (subst strip_prefixes.simps) simp
  qed
qed

lemma strip_prefixes_split: "\<exists>qs. set qs \<subseteq> set ps \<and> s = concat qs @ strip_prefixes ps s"
proof (induction ps s rule: strip_prefixes.induct)
  case (1 ps s)
  show ?case
  proof (cases "find (has_prefix s) ps")
    case None
    then show ?thesis by (subst strip_prefixes.simps) (auto intro: exI [of _ "[]"])
  next
    case (Some p)
    then have p: "p \<in> set ps" "s = p @ drop (length p) s"
      by (auto simp: find_Some_iff has_prefix_def) (metis append_take_drop_id nth_mem)
    show ?thesis
    proof (cases "p = [] \<or> s = []")
      case True
      with Some show ?thesis by (subst strip_prefixes.simps) (auto intro: exI [of _ "[]"])
    next
      case False
      with 1 Some obtain qs where "set qs \<subseteq> set ps"
        "drop (length p) s = concat qs @ strip_prefixes ps (drop (length p) s)" by blast
      with p False Some show ?thesis
        by (subst strip_prefixes.simps) (auto intro!: exI [of _ "p # qs"])
    qed
  qed
qed

lemma space_runes_nonempty: "[] \<notin> set space_runes"
  by (auto simp: space_runes_def encode_rune_def)

lemma strip_rev:
  "\<exists>qs. set qs \<subseteq> set ps \<and> t = rev (strip_prefixes (map rev ps) (rev t)) @ concat qs"
proof -
  obtain qs where qs: "set qs \<subseteq> set (map rev ps)"
    "rev t = concat qs @ strip_prefixes (map rev ps) (rev t)"
    using strip_prefixes_split by blast
  have "t = rev (strip_prefixes (map rev ps) (rev t)) @ concat (map rev (rev qs))"
    using arg_cong [OF qs(2), of rev] by (simp add: rev_concat rev_map)
  moreover have "set (map rev (rev qs)) \<subseteq> set ps" using qs(1) by auto
  ultimately show ?thesis by blast
qed

text \<open>Only white space goes, and none is left at either end.\<close>

lemma trim_space_split:
  "\<exists>ls rs. set ls \<subseteq> set space_runes \<and> set rs \<subseteq> set space_runes \<and>
     s = concat ls @ trim_space s @ concat rs"
proof -
  obtain ls where "set ls \<subseteq> set space_runes" "s = concat ls @ strip_prefixes space_runes s"
    using strip_prefixes_split by blast
  moreover obtain rs where "set rs \<subseteq> set space_runes"
    "strip_prefixes space_runes s = trim_space s @ concat rs"
    using strip_rev [of space_runes "strip_prefixes space_runes s"] by (auto simp: trim_space_def)
  ultimately show ?thesis by metis
qed

lemma trim_space_clean:
  assumes "p \<in> set space_runes"
  shows "\<not> has_prefix (trim_space s) p" "\<not> has_prefix (rev (trim_space s)) (rev p)"
proof -
  obtain rs where "strip_prefixes space_runes s = trim_space s @ concat rs"
    using strip_rev [of space_runes "strip_prefixes space_runes s"] by (auto simp: trim_space_def)
  moreover have "\<not> has_prefix (strip_prefixes space_runes s) p"
    using strip_prefixes_clean [OF space_runes_nonempty] assms by blast
  ultimately show "\<not> has_prefix (trim_space s) p" by (auto simp: has_prefix_iff)
  have "[] \<notin> set (map rev space_runes)" using space_runes_nonempty by auto
  then show "\<not> has_prefix (rev (trim_space s)) (rev p)"
    using strip_prefixes_clean assms unfolding trim_space_def by fastforce
qed

subsection \<open>The adapter\<close>

record k8s_cordon =
  node_name :: string
  node_name_env :: string
  kube_api :: string
  token_file :: string
  ca_file :: string
  ca_pool :: "string option"

text \<open>The client's roots: the bundle of \<open>ca_file\<close>, or the system's when it cannot be read.\<close>

definition build_client :: "(string \<Rightarrow> bool) \<Rightarrow> world \<Rightarrow> string \<Rightarrow> string option result" where
  "build_client certs_ok w path =
     (case read_file w path of
        Inl _ \<Rightarrow> Inr None
      | Inr ca \<Rightarrow>
          (if certs_ok ca then Inr (Some ca)
           else Inl (EMsg ''no certificates parsed from %s'' [path])))"

definition service_account_dir :: string where
  "service_account_dir = ''/var/run/secrets/kubernetes.io/serviceaccount/''"

definition new_k8s_cordon :: "(string \<Rightarrow> bool) \<Rightarrow> world \<Rightarrow> config_map \<Rightarrow> k8s_cordon result" where
  "new_k8s_cordon certs_ok w cfg =
     (let ca = cfg_string cfg ''ca_file'' (service_account_dir @ ''ca.crt'')
      in case build_client certs_ok w ca of
           Inl er \<Rightarrow> Inl (EWrap ''k8s-cordon: build HTTP client: %w'' [] er)
         | Inr pool \<Rightarrow> Inr
             \<lparr>node_name = cfg_string cfg ''node_name'' [],
              node_name_env = cfg_string cfg ''node_name_env'' ''NODE_NAME'',
              kube_api = cfg_base_url cfg ''kubeapi'' ''https://kubernetes.default.svc'',
              token_file = cfg_string cfg ''token_file'' (service_account_dir @ ''token''),
              ca_file = ca, ca_pool = pool\<rparr>)"

definition resolve_node :: "k8s_cordon \<Rightarrow> inbound_set \<Rightarrow> world \<Rightarrow> string result" where
  "resolve_node a s w =
     (if node_name a \<noteq> [] then Inr (node_name a)
      else if getenv w (node_name_env a) \<noteq> [] then Inr (getenv w (node_name_env a))
      else
        (case payload_string s ''node_name'' of
           Some v \<Rightarrow> (if v \<noteq> [] then Inr v else Inl (EMsg (''k8s-cordon: cannot determine node name ''
             @ em_dash @ '' set node_name config or %s env var'') [node_name_env a]))
         | None \<Rightarrow> Inl (EMsg (''k8s-cordon: cannot determine node name ''
             @ em_dash @ '' set node_name config or %s env var'') [node_name_env a])))"

definition cordon_patch :: "bool \<Rightarrow> string" where
  "cordon_patch unschedulable =
     marshal (JObj [(''spec'', JObj [(''unschedulable'', JBool unschedulable)])])"

definition set_cordon :: "k8s_cordon \<Rightarrow> string \<Rightarrow> bool \<Rightarrow> world \<Rightarrow> err \<times> world" where
  "set_cordon a node unschedulable w =
     (case read_file w (token_file a) of
        Inl t \<Rightarrow> (Some (EWrap ''read service account token: %w'' [] (EEnv t)), w)
      | Inr token \<Rightarrow>
     (case new_request w ''PATCH'' (kube_api a @ ''/api/v1/nodes/'' @ node) (cordon_patch unschedulable) of
        Inl er \<Rightarrow> (Some (EWrap ''build PATCH request: %w'' [] er), w)
      | Inr rq \<Rightarrow>
     (case http_do (set_header ''Authorization'' (''Bearer '' @ trim_space token)
             (set_header ''Content-Type'' ''application/strategic-merge-patch+json'' rq)) w of
        (Inl er, w') \<Rightarrow> (Some (EWrap ''PATCH node/%s: %w'' [node] er), w')
      | (Inr resp, w') \<Rightarrow>
          (if 400 \<le> rs_status resp
           then (Some (EMsg ''PATCH node/%s: HTTP %d'' [node, itoa (rs_status resp)]), w')
           else (None, w')))))"

definition k8s_cordon_act :: "k8s_cordon \<Rightarrow> inbound_set \<Rightarrow> world \<Rightarrow> err \<times> world" where
  "k8s_cordon_act a s w =
     (case resolve_node a s w of
        Inl er \<Rightarrow> (Some er, w)
      | Inr node \<Rightarrow>
          (if in_event_type s = event_compromised \<or> in_event_type s = event_degraded
           then set_cordon a node True w
           else if in_event_type s = event_recovered then set_cordon a node False w
           else (Some (EMsg ''k8s-cordon: unhandled event type %q'' [in_event_type s]), w)))"

definition k8s_cordon_adapter :: "k8s_cordon \<Rightarrow> adapter" where
  "k8s_cordon_adapter a =
     \<lparr>ad_name = ''k8s-cordon'', ad_types = caep_types, ad_act = k8s_cordon_act a\<rparr>"

subsection \<open>The request it makes\<close>

definition cordon_request :: "k8s_cordon \<Rightarrow> string \<Rightarrow> bool \<Rightarrow> string \<Rightarrow> request" where
  "cordon_request a node unschedulable token =
     \<lparr>rq_method = ''PATCH'', rq_url = kube_api a @ ''/api/v1/nodes/'' @ node,
      rq_headers = [(''Authorization'', ''Bearer '' @ trim_space token),
        (''Content-Type'', ''application/strategic-merge-patch+json'')],
      rq_body = cordon_patch unschedulable\<rparr>"

lemma set_cordon_cases:
  "set_cordon a node u w =
     (case read_file w (token_file a) of
        Inl t \<Rightarrow> (Some (EWrap ''read service account token: %w'' [] (EEnv t)), w)
      | Inr token \<Rightarrow>
          (if \<not> url_ok w (kube_api a @ ''/api/v1/nodes/'' @ node)
           then (Some (EWrap ''build PATCH request: %w'' [] (EEnv ''parse url'')), w)
           else
             ((case server w (sent w) (cordon_request a node u token) of
                 Inl t \<Rightarrow> Some (EWrap ''PATCH node/%s: %w'' [node] (EEnv t))
               | Inr r \<Rightarrow>
                   (if rs_status r < 400 then None
                    else Some (EMsg ''PATCH node/%s: HTTP %d'' [node, itoa (rs_status r)]))),
              w\<lparr>sent := sent w @ [cordon_request a node u token]\<rparr>)))"
  by (auto simp: set_cordon_def new_request_def set_header_def http_do_def cordon_request_def
      split: sum.split)

lemma requests_only_cordon: "requests_only 1 (set_cordon a node u)"
  unfolding requests_only_def
  by (auto simp: set_cordon_cases intro: exI [of _ "[]"] split: sum.split)

lemma cordon_nil:
  "set_cordon a node u w = (None, w\<lparr>sent := sent w @ rqs\<rparr>) \<Longrightarrow> answered (server w) (sent w) rqs"
  by (auto simp: set_cordon_cases acceptable_def split: if_splits sum.splits)

interpretation k8s_cordon: action_adapter "k8s_cordon_act a" 1 for a
proof unfold_locales
  fix s w rqs
  show "requests_only 1 (k8s_cordon_act a s)"
    using requests_only_cordon unfolding requests_only_def
    by (auto simp: k8s_cordon_act_def intro: exI [of _ "[]"] split: sum.split)
  assume "k8s_cordon_act a s w = (None, w\<lparr>sent := sent w @ rqs\<rparr>)"
  then show "answered (server w) (sent w) rqs"
    by (auto simp: k8s_cordon_act_def cordon_nil split: sum.splits if_splits)
qed

subsection \<open>Properties\<close>

lemma cordon_patch_parse:
  "json_parse (cordon_patch u) = Some (JObj [(''spec'', JObj [(''unschedulable'', JBool u)])])"
  unfolding cordon_patch_def
  by (subst json_parse_marshal) (simp_all add: is_ascii_def byte_def)

text \<open>C28: Cordoning: for each of the three CAEP events, once the node is known and the token can be
  read, the adapter makes exactly one request, a PATCH of that node whose JSON text sets
  \<open>spec.unschedulable\<close> to true for a compromised or degraded source and to false for a
  recovered one, and the result is nil exactly for an answer below 400. The node is the
  configured name, else the environment's, else the payload's \<open>node_name\<close>.\<close>

theorem cordon_outcome:
  assumes "in_event_type s \<in> set caep_types" "read_file w (token_file a) = Inr token"
    and "node = (if node_name a \<noteq> [] then node_name a
      else if getenv w (node_name_env a) \<noteq> [] then getenv w (node_name_env a)
      else (case map_of (in_payload s) ''node_name'' of Some (JStr v) \<Rightarrow> v | _ \<Rightarrow> []))"
    and "node \<noteq> []" "url_ok w (kube_api a @ ''/api/v1/nodes/'' @ node)"
    and "rq = cordon_request a node (in_event_type s \<noteq> event_recovered) token"
  shows "snd (k8s_cordon_act a s w) = w\<lparr>sent := sent w @ [rq]\<rparr> \<and>
    (fst (k8s_cordon_act a s w) = None \<longleftrightarrow>
       (\<exists>r. server w (sent w) rq = Inr r \<and> rs_status r < 400)) \<and>
    json_parse (rq_body rq) =
      Some (JObj [(''spec'', JObj [(''unschedulable'', JBool (in_event_type s \<noteq> event_recovered))])])"
proof -
  have "resolve_node a s w = Inr node"
    using assms(3,4) by (auto simp: resolve_node_def payload_string_def split: option.splits json.splits)
  then have "k8s_cordon_act a s w = set_cordon a node (in_event_type s \<noteq> event_recovered) w"
    using assms(1) by (auto simp: k8s_cordon_act_def caep_types_def)
  then show ?thesis
    using assms by (simp add: set_cordon_cases cordon_request_def cordon_patch_parse split: sum.split)
qed

theorem cordon_outcome_witness:
  "let a = \<lparr>node_name = [], node_name_env = ''X'', kube_api = ''http://k'', token_file = ''token'',
         ca_file = [], ca_pool = None\<rparr>;
       s = zero_inbound\<lparr>in_event_type := event_recovered, in_payload := [(''node_name'', JStr ''n1'')]\<rparr>;
       r = k8s_cordon_act a s (example_world 200 [])
   in fst r = None \<and> map rq_url (sent (snd r)) = [''http://k/api/v1/nodes/n1'']"
  using cordon_outcome [of "zero_inbound\<lparr>in_event_type := event_recovered, in_payload := [(''node_name'', JStr ''n1'')]\<rparr>"
      "example_world 200 []" "\<lparr>node_name = [], node_name_env = ''X'', kube_api = ''http://k'',
         token_file = ''token'', ca_file = [], ca_pool = None\<rparr>" "''s.2''" "''n1''"]
  by (simp add: Let_def example_world_def caep_types_def cordon_request_def)

text \<open>C22: The credential of a cordon request is the token file's content without the white space
  around it: the header is \<open>Bearer\<close> and a text that neither starts nor ends with a Unicode
  white-space rune and that the file surrounds with such runes only.\<close>

theorem cordon_token_trimmed:
  "\<exists>t ls rs. map_of (rq_headers (cordon_request a node u token)) ''Authorization'' = Some (''Bearer '' @ t) \<and>
     set ls \<subseteq> set space_runes \<and> set rs \<subseteq> set space_runes \<and> token = concat ls @ t @ concat rs \<and>
     list_all (\<lambda>p. \<not> has_prefix t p \<and> \<not> has_prefix (rev t) (rev p)) space_runes"
  using trim_space_split [of token] trim_space_clean [of _ token]
  by (auto simp: cordon_request_def list_all_iff intro!: exI [of _ "trim_space token"])

end
