(* ===== verification/Webhook.thy ===== *)
theory Webhook
  imports Action Emitter "HOL-Library.Multiset"
begin

text \<open>
  \<open>actions/webhook/adapter.go\<close>: posting an inbound SET to a configured address. Two things the
  language leaves open are parameters: \<open>num\<close>, the text \<open>encoding/json\<close> prints for the float64
  a number literal was read into, and \<open>ord\<close>, the order in which a \<open>range\<close> loop visits the
  configured headers.
\<close>

record webhook =
  wh_url :: string
  wh_headers :: "string gmap"
  wh_types :: "string list"
  wh_timeout :: duration

text \<open>An integer beyond 64 bits is not an \<open>int\<close> for the type switch.\<close>

definition webhook_timeout :: "config_map \<Rightarrow> duration" where
  "webhook_timeout cfg =
     (case map_of cfg ''timeout_secs'' of
        Some (GInt n) \<Rightarrow>
          (if - (2 ^ 63) \<le> n \<and> n < 2 ^ 63 then word_of_int n * second else 10 * second)
      | Some (GFloat _ n) \<Rightarrow> word_of_int n * second
      | _ \<Rightarrow> 10 * second)"

definition webhook_config_headers :: "config_map \<Rightarrow> string gmap result" where
  "webhook_config_headers cfg =
     (case map_of cfg ''headers'' of
        None \<Rightarrow> Inr []
      | Some v \<Rightarrow>
          (case remarshal (dec_map dec_string []) [] v of
             MarshalError \<Rightarrow> Inl (EWrap ''webhook: marshal headers: %w'' [] EJson)
           | UnmarshalError \<Rightarrow> Inl (EWrap ''webhook: parse headers: %w'' [] EJson)
           | Decoded m \<Rightarrow> Inr m))"

text \<open>The configured types are decoded over the three default ones.\<close>

definition webhook_config_types :: "config_map \<Rightarrow> string list result" where
  "webhook_config_types cfg =
     (case map_of cfg ''event_types'' of
        None \<Rightarrow> Inr caep_types
      | Some v \<Rightarrow>
          (case remarshal (dec_list dec_string []) caep_types v of
             MarshalError \<Rightarrow> Inl (EWrap ''webhook: marshal event_types: %w'' [] EJson)
           | UnmarshalError \<Rightarrow> Inl (EWrap ''webhook: parse event_types: %w'' [] EJson)
           | Decoded ts \<Rightarrow> Inr ts))"

definition new_webhook :: "config_map \<Rightarrow> webhook result" where
  "new_webhook cfg =
     (case map_of cfg ''url'' of
        Some (GStr url) \<Rightarrow>
          (if url = [] then Inl (EMsg ''webhook: url is required'' [])
           else
     (case webhook_config_headers cfg of
        Inl er \<Rightarrow> Inl er
      | Inr hs \<Rightarrow>
     (case webhook_config_types cfg of
        Inl er \<Rightarrow> Inl er
      | Inr ts \<Rightarrow>
          Inr \<lparr>wh_url = url, wh_headers = hs, wh_types = ts, wh_timeout = webhook_timeout cfg\<rparr>)))
      | _ \<Rightarrow> Inl (EMsg ''webhook: url is required'' []))"

subsection \<open>The body\<close>

fun reprint :: "(string \<Rightarrow> string) \<Rightarrow> json \<Rightarrow> json"
  and reprint_elems :: "(string \<Rightarrow> string) \<Rightarrow> json list \<Rightarrow> json list"
  and reprint_members :: "(string \<Rightarrow> string) \<Rightarrow> (string \<times> json) list \<Rightarrow> (string \<times> json) list" where
  "reprint num (JNum t) = JNum (num t)"
| "reprint num (JArr vs) = JArr (reprint_elems num vs)"
| "reprint num (JObj ms) = JObj (reprint_members num ms)"
| "reprint num JNull = JNull"
| "reprint num (JBool b) = JBool b"
| "reprint num (JStr s) = JStr s"
| "reprint_elems num [] = []"
| "reprint_elems num (v # vs) = reprint num v # reprint_elems num vs"
| "reprint_members num [] = []"
| "reprint_members num ((k, v) # ms) = (k, reprint num v) # reprint_members num ms"

text \<open>Marshalling a SET that was decoded from JSON cannot fail.\<close>

definition webhook_body :: "(string \<Rightarrow> string) \<Rightarrow> inbound_set \<Rightarrow> string" where
  "webhook_body num s =
     marshal (inbound_json (s\<lparr>in_payload := reprint_members num (in_payload s)\<rparr>))"

subsection \<open>Headers\<close>

text \<open>\<open>textproto.CanonicalMIMEHeaderKey\<close>, which \<open>Header.Set\<close> applies to its key.\<close>

definition header_char :: "char \<Rightarrow> bool" where
  "header_char c \<longleftrightarrow> in_range 97 122 c \<or> in_range 65 90 c \<or> in_range 48 57 c \<or>
     c \<in> set ''!#$%&*+-.^_`|~'' \<or> c = CHR 0x27"

definition lower_byte :: "char \<Rightarrow> char" where
  "lower_byte c = (if in_range 65 90 c then char_of (byte c + 32) else c)"

fun canonical_bytes :: "bool \<Rightarrow> string \<Rightarrow> string" where
  "canonical_bytes up [] = []"
| "canonical_bytes up (c # cs) =
     (if up then upper_byte c else lower_byte c) # canonical_bytes (c = CHR ''-'') cs"

definition canonical_key :: "string \<Rightarrow> string" where
  "canonical_key k = (if list_all header_char k then canonical_bytes True k else k)"

type_synonym header_order = "string gmap \<Rightarrow> (string \<times> string) list"

definition webhook_headers :: "header_order \<Rightarrow> webhook \<Rightarrow> string gmap" where
  "webhook_headers ord a =
     map_sets (map (\<lambda>(k, v). (canonical_key k, v)) (ord (wh_headers a)))
       [(''Content-Type'', ''application/json'')]"

definition webhook_act :: "(string \<Rightarrow> string) \<Rightarrow> header_order \<Rightarrow> webhook \<Rightarrow> inbound_set \<Rightarrow> world \<Rightarrow> err \<times> world" where
  "webhook_act num ord a s w =
     (case new_request w ''POST'' (wh_url a) (webhook_body num s) of
        Inl er \<Rightarrow> (Some (EWrap ''webhook: build request: %w'' [] er), w)
      | Inr rq \<Rightarrow>
     (case http_do (rq\<lparr>rq_headers := webhook_headers ord a\<rparr>) w of
        (Inl er, w') \<Rightarrow> (Some (EWrap ''webhook POST %s: %w'' [wh_url a] er), w')
      | (Inr resp, w') \<Rightarrow>
          (if 400 \<le> rs_status resp
           then (Some (EMsg ''webhook POST %s: HTTP %d'' [wh_url a, itoa (rs_status resp)]), w')
           else (None, w'))))"

definition webhook_adapter :: "(string \<Rightarrow> string) \<Rightarrow> header_order \<Rightarrow> webhook \<Rightarrow> adapter" where
  "webhook_adapter num ord a =
     \<lparr>ad_name = ''webhook'', ad_types = wh_types a, ad_act = webhook_act num ord a\<rparr>"

subsection \<open>The request it makes\<close>

definition webhook_request :: "(string \<Rightarrow> string) \<Rightarrow> header_order \<Rightarrow> webhook \<Rightarrow> inbound_set \<Rightarrow> request" where
  "webhook_request num ord a s =
     \<lparr>rq_method = ''POST'', rq_url = wh_url a, rq_headers = webhook_headers ord a,
      rq_body = webhook_body num s\<rparr>"

lemma webhook_act_cases:
  "webhook_act num ord a s w =
     (if \<not> url_ok w (wh_url a)
      then (Some (EWrap ''webhook: build request: %w'' [] (EEnv ''parse url'')), w)
      else
        ((case server w (sent w) (webhook_request num ord a s) of
            Inl t \<Rightarrow> Some (EWrap ''webhook POST %s: %w'' [wh_url a] (EEnv t))
          | Inr r \<Rightarrow>
              (if rs_status r < 400 then None
               else Some (EMsg ''webhook POST %s: HTTP %d'' [wh_url a, itoa (rs_status r)]))),
         w\<lparr>sent := sent w @ [webhook_request num ord a s]\<rparr>))"
  by (auto simp: webhook_act_def new_request_def http_do_def webhook_request_def split: sum.split)

interpretation webhook: action_adapter "webhook_act num ord a" 1 for num ord a
proof unfold_locales
  fix s w rqs
  show "requests_only 1 (webhook_act num ord a s)"
    unfolding requests_only_def by (auto simp: webhook_act_cases intro: exI [of _ "[]"])
  assume "webhook_act num ord a s w = (None, w\<lparr>sent := sent w @ rqs\<rparr>)"
  then show "answered (server w) (sent w) rqs"
    by (auto simp: webhook_act_cases acceptable_def split: if_splits sum.splits)
qed

lemma map_set_wf_eq:
  assumes "wf_map m" "mset kvs = mset kvs'" "distinct (map fst kvs)"
  shows "map_sets kvs m = map_sets kvs' m"
proof (rule wf_map_ext)
  have "distinct (map fst kvs')"
    using assms(2,3) by (metis mset_map mset_eq_imp_distinct_iff)
  moreover have "set kvs = set kvs'" using assms(2) by (rule mset_eq_setD)
  ultimately have "map_of (rev kvs) = map_of (rev kvs')"
    using assms(3) by (simp add: map_of_rev_distinct map_of_inject_set)
  then show "map_of (map_sets kvs m) = map_of (map_sets kvs' m)" by (simp add: map_of_map_sets)
qed (use assms(1) in simp_all)

subsection \<open>Properties\<close>

text \<open>C30: The webhook forwards the SET: with a usable address it makes exactly one request, a
  POST to that address, and reports success exactly for an answer below 400. When printing
  keeps the payload's number texts, a receiver that decodes the body with the relay's own
  struct recovers the SET.\<close>

theorem webhook_forwards:
  assumes "url_ok w (wh_url a)" "inbound_ok s"
    and "reprint_members num (in_payload s) = in_payload s"
  shows "\<exists>rq. snd (webhook_act num ord a s w) = w\<lparr>sent := sent w @ [rq]\<rparr> \<and>
    rq_method rq = ''POST'' \<and> rq_url rq = wh_url a \<and>
    (fst (webhook_act num ord a s w) = None \<longleftrightarrow>
       (\<exists>r. server w (sent w) rq = Inr r \<and> rs_status r < 400)) \<and>
    unmarshal dec_inbound zero_inbound (rq_body rq) = Some s"
  using assms
  by (intro exI [of _ "webhook_request num ord a s"])
    (auto simp: webhook_act_cases webhook_request_def webhook_body_def unmarshal_inbound split: sum.split)

theorem webhook_forwards_witness:
  "\<exists>rq. sent (snd (webhook_act id id \<lparr>wh_url = ''http://h'', wh_headers = [], wh_types = [], wh_timeout = 0\<rparr>
      (zero_inbound\<lparr>in_event_type := ''t'', in_payload := [(''k'', JBool True)]\<rparr>) (example_world 200 []))) = [rq] \<and>
    unmarshal dec_inbound zero_inbound (rq_body rq) =
      Some (zero_inbound\<lparr>in_event_type := ''t'', in_payload := [(''k'', JBool True)]\<rparr>)"
proof -
  let ?a = "\<lparr>wh_url = ''http://h'', wh_headers = [], wh_types = [], wh_timeout = 0\<rparr>"
  let ?s = "zero_inbound\<lparr>in_event_type := ''t'', in_payload := [(''k'', JBool True)]\<rparr>"
  have "inbound_ok ?s"
    by (simp add: inbound_ok_def zero_inbound_def valid_utf8_def is_ascii_def byte_def max_depth_def)
  moreover have "url_ok (example_world 200 []) (wh_url ?a)" "sent (example_world 200 []) = []"
    "reprint_members id (in_payload ?s) = in_payload ?s"
    by (simp_all add: example_world_def)
  ultimately show ?thesis
    using webhook_forwards [of "example_world 200 []" ?a ?s id id] by auto
qed

text \<open>C25: The random order in which Go visits a map does not show in the request: as long as no
  two configured headers have the same canonical name, every order gives the same headers,
  the configured value under each canonical name and \<open>application/json\<close> as the content type
  unless it is configured otherwise.\<close>

theorem webhook_headers_deterministic:
  assumes "mset (ord (wh_headers a)) = mset (wh_headers a)"
    and "distinct (map (canonical_key \<circ> fst) (wh_headers a))"
  shows "webhook_headers ord a = webhook_headers id a \<and>
    map_of (webhook_headers ord a) k =
      (case map_of (map (\<lambda>(k, v). (canonical_key k, v)) (wh_headers a)) k of
         Some v \<Rightarrow> Some v
       | None \<Rightarrow> (if k = ''Content-Type'' then Some ''application/json'' else None))"
proof -
  let ?c = "map (\<lambda>(k, v). (canonical_key k, v))"
  have d: "distinct (map fst (?c (wh_headers a)))"
    using assms(2) by (simp add: comp_def split_def)
  have m: "mset (?c (ord (wh_headers a))) = mset (?c (wh_headers a))" using assms(1) by simp
  have "distinct (map fst (?c (ord (wh_headers a))))"
    using d m by (metis mset_map mset_eq_imp_distinct_iff)
  then have "webhook_headers ord a = webhook_headers id a"
    unfolding webhook_headers_def by (intro map_set_wf_eq) (use m in \<open>auto simp: wf_map_def\<close>)
  moreover have "map_of (webhook_headers id a) k =
      (case map_of (?c (wh_headers a)) k of
         Some v \<Rightarrow> Some v
       | None \<Rightarrow> (if k = ''Content-Type'' then Some ''application/json'' else None))"
    using d by (simp add: webhook_headers_def map_of_map_sets map_of_rev_distinct map_add_def
        split: option.split)
  ultimately show ?thesis by simp
qed

theorem webhook_headers_deterministic_witness:
  "webhook_headers rev \<lparr>wh_url = ''u'', wh_headers = [(''authorization'', ''b''), (''x-relay-id'', ''7'')],
      wh_types = [], wh_timeout = 0\<rparr> =
    [(''Authorization'', ''b''), (''Content-Type'', ''application/json''), (''X-Relay-Id'', ''7'')]"
proof -
  let ?a = "\<lparr>wh_url = ''u'', wh_headers = [(''authorization'', ''b''), (''x-relay-id'', ''7'')],
      wh_types = [], wh_timeout = 0\<rparr>"
  have "distinct (map (canonical_key \<circ> fst) (wh_headers ?a))" by code_simp
  then have "webhook_headers rev ?a = webhook_headers id ?a"
    by (intro webhook_headers_deterministic [THEN conjunct1]) simp_all
  also have "\<dots> = [(''Authorization'', ''b''), (''Content-Type'', ''application/json''), (''X-Relay-Id'', ''7'')]"
    by code_simp
  finally show ?thesis .
qed

end
