(* ===== verification/Registry.thy ===== *)
theory Registry
  imports Vault_Source K8s_Source Opa_Source Router K8s_Cordon Webhook
begin

text \<open>
  \<open>sources/registry.go\<close>, \<open>actions/registry.go\<close> and the \<open>init\<close> functions that fill them: the two
  registries are the same code over different factories. A duplicate registration panics
  (\<open>None\<close>). \<open>build_source\<close> provides the contract \<open>source_builder\<close> the manager relies on: what
  it builds is a log source; \<open>build_action\<close> provides the same for action adapters.
\<close>

definition registry_add :: "string \<Rightarrow> 'f \<Rightarrow> 'f gmap \<Rightarrow> 'f gmap option" where
  "registry_add name f reg = (if map_of reg name \<noteq> None then None else Some (map_set name f reg))"

fun register_all :: "(string \<times> 'f) list \<Rightarrow> 'f gmap \<Rightarrow> 'f gmap option" where
  "register_all [] reg = Some reg"
| "register_all ((name, f) # inits) reg =
     (case registry_add name f reg of None \<Rightarrow> None | Some reg' \<Rightarrow> register_all inits reg')"

definition registry_build :: "string \<Rightarrow> (config_map \<Rightarrow> 'a result) gmap \<Rightarrow> string \<Rightarrow> config_map \<Rightarrow> 'a result" where
  "registry_build unknown reg name cfg =
     (case map_of reg name of
        None \<Rightarrow> Inl (EMsg unknown [name])
      | Some f \<Rightarrow> f cfg)"

lemma register_all_None_iff:
  "register_all inits reg = None \<longleftrightarrow> \<not> (distinct (map fst inits) \<and> fst ` set inits \<inter> fst ` set reg = {})"
proof (induction inits reg rule: register_all.induct)
  case (2 name f inits reg)
  then show ?case
    by (auto simp: registry_add_def map_of_eq_None_iff split: option.splits)
qed simp

lemma register_all_lookup:
  "register_all inits reg = Some reg' \<Longrightarrow> map_of reg' = map_of reg ++ map_of inits"
proof (induction inits reg rule: register_all.induct)
  case (2 name f inits reg)
  then have r: "map_of reg name = None" "register_all inits (map_set name f reg) = Some reg'"
    by (auto simp: registry_add_def split: if_splits)
  then have "register_all inits (map_set name f reg) \<noteq> None" by simp
  then have "map_of inits name = None"
    unfolding register_all_None_iff by (auto simp: map_of_eq_None_iff)
  with 2 r show ?case by (auto simp: registry_add_def map_add_def split: option.split)
qed simp

subsection \<open>Sources\<close>

definition map_result :: "('a \<Rightarrow> 'b) \<Rightarrow> 'a result \<Rightarrow> 'b result" where
  "map_result g r = (case r of Inl e \<Rightarrow> Inl e | Inr x \<Rightarrow> Inr (g x))"

definition k8s_source_init :: "string \<times> (config_map \<Rightarrow> line_parser result)" where
  [simp]: "k8s_source_init = (''k8s-audit'', \<lambda>cfg. map_result k8s_parse (new_k8s_source cfg))"

definition opa_source_init :: "string \<times> (config_map \<Rightarrow> line_parser result)" where
  [simp]: "opa_source_init = (''opa-decision'', \<lambda>cfg. map_result opa_parse (new_opa_source cfg))"

definition vault_source_init :: "string \<times> (config_map \<Rightarrow> line_parser result)" where
  [simp]: "vault_source_init = (''vault-audit'', \<lambda>cfg. map_result vault_parse (new_vault_source cfg))"

text \<open>The \<open>init\<close> functions in the order of the imports of \<open>main\<close>.\<close>

definition source_inits :: "(string \<times> (config_map \<Rightarrow> line_parser result)) list" where
  "source_inits =
     [k8s_source_init, opa_source_init, vault_source_init]"

definition source_registry :: "(config_map \<Rightarrow> line_parser result) gmap" where
  "source_registry = (case register_all source_inits [] of Some reg \<Rightarrow> reg | None \<Rightarrow> [])"

definition build_source :: "string \<Rightarrow> config_map \<Rightarrow> line_parser result" where
  "build_source = registry_build ''unknown source type %q (did you blank-import it?)'' source_registry"

locale source_builder =
  fixes build :: "string \<Rightarrow> config_map \<Rightarrow> line_parser result"
  assumes built: "build ty cfg = Inr parse \<Longrightarrow> log_source parse"

lemma registry_of_inits:
  assumes "distinct (map fst inits)"
  shows "\<exists>reg. register_all inits [] = Some reg \<and> map_of reg = map_of inits"
proof -
  have "register_all inits [] \<noteq> None" using assms by (simp add: register_all_None_iff)
  then obtain reg where "register_all inits [] = Some reg" by blast
  with register_all_lookup [OF this] show ?thesis by simp
qed

lemma source_registry_started:
  "register_all source_inits [] = Some source_registry" "map_of source_registry = map_of source_inits"
proof -
  have "distinct (map fst source_inits)" by (simp add: source_inits_def)
  from registry_of_inits [OF this]
  show "register_all source_inits [] = Some source_registry" "map_of source_registry = map_of source_inits"
    by (auto simp: source_registry_def)
qed

lemma map_result_Inr: "map_result g r = Inr y \<longleftrightarrow> (\<exists>x. r = Inr x \<and> y = g x)"
  by (auto simp: map_result_def split: sum.split)

lemma build_source_cases [consumes 1]:
  assumes "build_source ty cfg = Inr parse"
  obtains (k8s) s where "ty = ''k8s-audit''" "new_k8s_source cfg = Inr s" "parse = k8s_parse s"
  | (opa) s where "ty = ''opa-decision''" "new_opa_source cfg = Inr s" "parse = opa_parse s"
  | (vault) s where "ty = ''vault-audit''" "new_vault_source cfg = Inr s" "parse = vault_parse s"
  using assms
  by (auto simp: build_source_def registry_build_def source_registry_started(2) source_inits_def map_result_Inr
      split: if_splits)

interpretation sources: source_builder build_source
proof (rule source_builder.intro)
  fix ty cfg and parse :: line_parser
  assume "build_source ty cfg = Inr parse"
  then show "log_source parse"
    by (cases rule: build_source_cases)
      (simp_all add: k8s.log_source_axioms opa.log_source_axioms vault.log_source_axioms)
qed

subsection \<open>Actions\<close>

text \<open>What the adapters take from outside the program, gathered.\<close>

record externs =
  ext_certs_ok :: "string \<Rightarrow> bool"
  ext_template :: template_engine
  ext_number :: "string \<Rightarrow> string"
  ext_order :: header_order

definition k8s_cordon_init :: "externs \<Rightarrow> world \<Rightarrow> string \<times> (config_map \<Rightarrow> adapter result)" where
  [simp]: "k8s_cordon_init ext w =
     (''k8s-cordon'', \<lambda>cfg. map_result k8s_cordon_adapter (new_k8s_cordon (ext_certs_ok ext) w cfg))"

definition opa_policy_init :: "externs \<Rightarrow> string \<times> (config_map \<Rightarrow> adapter result)" where
  [simp]: "opa_policy_init ext =
     (''opa-policy'', \<lambda>cfg. Inr (opa_policy_adapter (ext_template ext) (new_opa_policy cfg)))"

definition vault_action_init :: "string \<times> (config_map \<Rightarrow> adapter result)" where
  [simp]: "vault_action_init = (''vault'', \<lambda>cfg. Inr (vault_adapter (new_vault_action cfg)))"

definition webhook_init :: "externs \<Rightarrow> string \<times> (config_map \<Rightarrow> adapter result)" where
  [simp]: "webhook_init ext =
     (''webhook'', \<lambda>cfg. map_result (webhook_adapter (ext_number ext) (ext_order ext)) (new_webhook cfg))"

definition action_inits :: "externs \<Rightarrow> world \<Rightarrow> (string \<times> (config_map \<Rightarrow> adapter result)) list" where
  "action_inits ext w = [k8s_cordon_init ext w, opa_policy_init ext, vault_action_init, webhook_init ext]"

definition action_registry :: "externs \<Rightarrow> world \<Rightarrow> (config_map \<Rightarrow> adapter result) gmap" where
  "action_registry ext w = (case register_all (action_inits ext w) [] of Some reg \<Rightarrow> reg | None \<Rightarrow> [])"

definition build_action :: "externs \<Rightarrow> world \<Rightarrow> string \<Rightarrow> config_map \<Rightarrow> adapter result" where
  "build_action ext w =
     registry_build ''unknown action type %q (did you blank-import it?)'' (action_registry ext w)"

locale action_builder =
  fixes build :: "string \<Rightarrow> config_map \<Rightarrow> adapter result" and bound :: nat
  assumes built: "build ty cfg = Inr a \<Longrightarrow> action_adapter (ad_act a) bound"

lemma action_registry_started:
  "register_all (action_inits ext w) [] = Some (action_registry ext w)"
  "map_of (action_registry ext w) = map_of (action_inits ext w)"
proof -
  have "distinct (map fst (action_inits ext w))" by (simp add: action_inits_def)
  from registry_of_inits [OF this]
  show "register_all (action_inits ext w) [] = Some (action_registry ext w)"
    "map_of (action_registry ext w) = map_of (action_inits ext w)"
    by (auto simp: action_registry_def)
qed

text \<open>The contract with a larger bound.\<close>

lemma action_adapter_mono: "action_adapter act m \<Longrightarrow> m \<le> n \<Longrightarrow> action_adapter act n"
  unfolding action_adapter_def using requests_only_mono by blast

interpretation actions: action_builder "build_action ext w" 2 for ext w
proof (rule action_builder.intro)
  fix ty cfg a
  assume "build_action ext w ty cfg = Inr a"
  moreover have "action_adapter (k8s_cordon_act x) 2" for x
    by (rule action_adapter_mono [OF k8s_cordon.action_adapter_axioms]) simp
  moreover have "action_adapter (webhook_act num ord x) 2" for num ord x
    by (rule action_adapter_mono [OF webhook.action_adapter_axioms]) simp
  ultimately show "action_adapter (ad_act a) 2"
    by (auto simp: build_action_def registry_build_def action_registry_started(2) action_inits_def map_result_Inr
        k8s_cordon_adapter_def opa_policy_adapter_def vault_adapter_def webhook_adapter_def
        opa_policy.action_adapter_axioms vault_action.action_adapter_axioms split: if_splits)
qed

subsection \<open>Properties\<close>

text \<open>C35: A registry: registering panics exactly when a name repeats; otherwise building a name
  calls the factory registered under it, whatever the order of registration, and an unknown
  name is an error that names it. Both registries of the relay start without panic, and
  know exactly the three sources and the four actions.\<close>

theorem registry_semantics:
  "(register_all inits [] = None \<longleftrightarrow> \<not> distinct (map fst inits)) \<and>
   (\<forall>reg name cfg. register_all inits [] = Some reg \<longrightarrow>
      registry_build u reg name cfg =
        (case map_of inits name of None \<Rightarrow> Inl (EMsg u [name]) | Some f \<Rightarrow> f cfg)) \<and>
   register_all source_inits [] = Some source_registry \<and>
   register_all (action_inits ext w) [] = Some (action_registry ext w) \<and>
   fst ` set source_inits = {''k8s-audit'', ''opa-decision'', ''vault-audit''} \<and>
   fst ` set (action_inits ext w) = {''k8s-cordon'', ''opa-policy'', ''vault'', ''webhook''}"
proof (intro conjI allI impI)
  show "register_all source_inits [] = Some source_registry"
    by (rule source_registry_started)
  show "register_all (action_inits ext w) [] = Some (action_registry ext w)"
    by (rule action_registry_started)
  show "register_all inits [] = None \<longleftrightarrow> \<not> distinct (map fst inits)"
    by (simp add: register_all_None_iff)
  show "registry_build u reg name cfg =
      (case map_of inits name of None \<Rightarrow> Inl (EMsg u [name]) | Some f \<Rightarrow> f cfg)"
    if "register_all inits [] = Some reg" for reg name cfg
    using register_all_lookup [OF that] by (simp add: registry_build_def)
qed (simp_all add: source_inits_def action_inits_def)

theorem registry_semantics_witness:
  "registry_build ''?'' source_registry ''syslog'' [] = Inl (EMsg ''?'' [''syslog''])"
proof -
  have "registry_build ''?'' source_registry ''syslog'' [] =
      (case map_of source_inits ''syslog'' of None \<Rightarrow> Inl (EMsg ''?'' [''syslog'']) | Some f \<Rightarrow> f [])"
    by (rule registry_semantics [where inits = source_inits, THEN conjunct2, THEN conjunct1, rule_format,
        OF source_registry_started(1)])
  then show ?thesis by (simp add: source_inits_def)
qed

end
