(* ===== verification/Config.thy ===== *)
theory Config
  imports Emitter
begin

text \<open>
  \<open>config/config.go\<close>: the configuration and where the signing key comes from. Reading YAML is
  the parameter \<open>yaml\<close>, which gives the decoded configuration or the text of an error.
\<close>

record ssf_config =
  receiver_url :: string
  issuer :: string
  timeout_secs :: int
  signing_key_pem_file :: string
  signing_key_pem :: string
  jwks_addr :: string

record sink_config =
  sink_event_type :: string
  sink_action :: string
  sink_options :: config_map

record source_config =
  src_name :: string
  src_type :: string
  src_transport :: string
  src_path :: string
  src_options :: config_map

record config =
  cfg_ssf :: ssf_config
  cfg_sources :: "source_config list"
  cfg_sinks :: "sink_config list"

definition resolve_pem :: "ssf_config \<Rightarrow> world \<Rightarrow> string option result" where
  "resolve_pem c w =
     (if signing_key_pem c \<noteq> [] then Inr (Some (signing_key_pem c))
      else if signing_key_pem_file c \<noteq> [] then
        (case read_file w (signing_key_pem_file c) of
           Inl t \<Rightarrow> Inl (EWrap ''read signing key file %q: %w'' [signing_key_pem_file c] (EEnv t))
         | Inr pem \<Rightarrow> Inr (Some pem))
      else Inr None)"

definition load_config :: "(string \<Rightarrow> string + config) \<Rightarrow> world \<Rightarrow> string \<Rightarrow> config result" where
  "load_config yaml w path =
     (case read_file w path of
        Inl t \<Rightarrow> Inl (EWrap ''read config: %w'' [] (EEnv t))
      | Inr text \<Rightarrow>
          (case yaml text of
             Inl t \<Rightarrow> Inl (EWrap ''parse config: %w'' [] (EEnv t))
           | Inr c \<Rightarrow>
               Inr (if timeout_secs (cfg_ssf c) \<le> 0
                    then c\<lparr>cfg_ssf := (cfg_ssf c)\<lparr>timeout_secs := 5\<rparr>\<rparr> else c)))"

lemma load_config_timeout: "load_config yaml w path = Inr c \<Longrightarrow> 0 < timeout_secs (cfg_ssf c)"
  by (auto simp: load_config_def split: sum.splits if_splits)

lemma resolve_pem_None: "resolve_pem c w = Inr None \<longleftrightarrow> signing_key_pem c = [] \<and> signing_key_pem_file c = []"
  by (auto simp: resolve_pem_def split: sum.split)

end
