(* ===== verification/Lines.thy ===== *)
theory Lines
  imports Source
begin

text \<open>
  How bytes become lines. \<open>split_lines\<close> is the newline loop of the file tailer;
  \<open>scan_reads\<close> is \<open>bufio.Scanner\<close> with \<open>ScanLines\<close>, which the socket listener and the SSE
  reader use: a buffer of at most \<open>cap\<close> bytes is filled by reads of any size, a full
  buffer without a newline ends the scan, and a last line without newline is delivered
  when the stream ends. The lemmas show that the lines do not depend on how the bytes
  arrive, and what is lost when a line is too long.
\<close>

definition nl :: char where
  "nl = CHR 0x0A"

subsection \<open>Splitting at newlines\<close>

text \<open>The complete lines, and the rest after the last newline.\<close>

fun split_lines :: "string \<Rightarrow> string \<Rightarrow> string list \<times> string" where
  "split_lines p [] = ([], p)"
| "split_lines p (c # cs) =
     (if c = nl then (case split_lines [] cs of (ls, r) \<Rightarrow> (p # ls, r))
      else split_lines (p @ [c]) cs)"

lemma split_lines_append:
  "split_lines p (xs @ ys) =
     (case split_lines p xs of (ls, r) \<Rightarrow> (case split_lines r ys of (ls', r') \<Rightarrow> (ls @ ls', r')))"
  by (induction p xs rule: split_lines.induct) (auto split: prod.split)

lemma split_lines_rest: "nl \<notin> set p \<Longrightarrow> split_lines p xs = (ls, r) \<Longrightarrow> nl \<notin> set r"
  by (induction p xs arbitrary: ls rule: split_lines.induct) (auto split: prod.splits if_splits)

lemma split_lines_no_nl: "nl \<notin> set xs \<Longrightarrow> split_lines p xs = ([], p @ xs)"
  by (induction p xs rule: split_lines.induct) auto

lemma split_lines_line: "nl \<notin> set l \<Longrightarrow> split_lines p (l @ nl # ys) = (case split_lines [] ys of (ls, r) \<Rightarrow> ((p @ l) # ls, r))"
  by (simp add: split_lines_append split_lines_no_nl split: prod.split)

definition unlines :: "string list \<Rightarrow> string" where
  "unlines ls = concat (map (\<lambda>l. l @ [nl]) ls)"

lemma unlines_simps [simp]: "unlines [] = []" "unlines (l # ls) = l @ nl # unlines ls"
  by (simp_all add: unlines_def)

lemma split_lines_unlines:
  "list_all (\<lambda>l. nl \<notin> set l) ls \<Longrightarrow> nl \<notin> set r \<Longrightarrow> split_lines [] (unlines ls @ r) = (ls, r)"
  by (induction ls) (auto simp: split_lines_line split_lines_no_nl)

lemma unlines_split_lines: "split_lines p xs = (ls, r) \<Longrightarrow> unlines ls @ r = p @ xs"
  by (induction p xs arbitrary: ls rule: split_lines.induct) (auto split: prod.splits if_splits)

lemma split_lines_no_nl_lines:
  "nl \<notin> set p \<Longrightarrow> split_lines p xs = (ls, r) \<Longrightarrow> list_all (\<lambda>l. nl \<notin> set l) ls"
  by (induction p xs arbitrary: ls rule: split_lines.induct) (auto split: prod.splits if_splits)

subsection \<open>The scanner\<close>

definition drop_cr :: "string \<Rightarrow> string" where
  "drop_cr l = (if l \<noteq> [] \<and> last l = CHR 0x0D then butlast l else l)"

text \<open>
  The bytes of one read, with \<open>p\<close> already in the buffer: the tokens it completes and what
  stays in the buffer, or \<open>None\<close> when the buffer is full and more has to be read.
\<close>

fun feed :: "nat \<Rightarrow> string \<Rightarrow> string \<Rightarrow> string list \<times> string option" where
  "feed cap p [] = ([], Some p)"
| "feed cap p (c # cs) =
     (if cap \<le> length p then ([], None)
      else if c = nl then (case feed cap [] cs of (ts, r) \<Rightarrow> (drop_cr p # ts, r))
      else feed cap (p @ [c]) cs)"

text \<open>How a stream ends, and how a scan does.\<close>

datatype ending = Eof | ReadError string

datatype scan_end = Reading string | TooLong | Ended ending

type_synonym read = "string \<times> ending option"

fun scan_reads :: "nat \<Rightarrow> string \<Rightarrow> read list \<Rightarrow> string list \<times> scan_end" where
  "scan_reads cap p [] = ([], Reading p)"
| "scan_reads cap p ((bs, e) # rs) =
     (if cap \<le> length p then ([], TooLong)
      else
        (case feed cap p bs of
           (ts, None) \<Rightarrow> (ts, TooLong)
         | (ts, Some p') \<Rightarrow>
             (case e of
                Some en \<Rightarrow> (ts @ (if p' = [] then [] else [drop_cr p']), Ended en)
              | None \<Rightarrow> (case scan_reads cap p' rs of (ts', f) \<Rightarrow> (ts @ ts', f)))))"

lemma feed_append:
  "feed cap p (xs @ ys) =
     (case feed cap p xs of
        (ts, None) \<Rightarrow> (ts, None)
      | (ts, Some r) \<Rightarrow> (case feed cap r ys of (ts', r') \<Rightarrow> (ts @ ts', r')))"
  by (induction cap p xs rule: feed.induct) (auto split: prod.split option.split)

text \<open>A chunked stream scans like the one read of all its bytes.\<close>

definition chunks :: "string list \<Rightarrow> read list" where
  "chunks bss = map (\<lambda>bs. (bs, None)) bss"

lemma scan_reads_chunks:
  "scan_reads cap p (chunks bss @ [([], Some e)]) =
     (case feed cap p (concat bss) of
        (ts, None) \<Rightarrow> (ts, TooLong)
      | (ts, Some r) \<Rightarrow>
          (if cap \<le> length r then (ts, TooLong)
           else (ts @ (if r = [] then [] else [drop_cr r]), Ended e)))"
proof (induction bss arbitrary: p)
  case Nil
  then show ?case by (simp add: chunks_def)
next
  case (Cons bs bss)
  show ?case
  proof (cases "cap \<le> length p")
    case True
    then have "feed cap p xs = ([], if xs = [] then Some p else None)" for xs
      by (cases xs) auto
    with True show ?thesis by (simp add: chunks_def)
  next
    case False
    with Cons show ?thesis
      by (auto simp: chunks_def feed_append split: prod.split option.split)
  qed
qed

text \<open>Lines that fit are delivered, in order; a line that does not fit ends the scan.\<close>

lemma feed_partial: "nl \<notin> set bs \<Longrightarrow> length p + length bs \<le> cap \<Longrightarrow> feed cap p bs = ([], Some (p @ bs))"
  by (induction cap p bs rule: feed.induct) auto

lemma feed_line:
  "nl \<notin> set l \<Longrightarrow> length l < cap \<Longrightarrow>
   feed cap [] (l @ nl # ys) = (case feed cap [] ys of (ts, r) \<Rightarrow> (drop_cr l # ts, r))"
  by (simp add: feed_append feed_partial split: prod.split)

definition fits :: "nat \<Rightarrow> string \<Rightarrow> bool" where
  "fits cap l \<longleftrightarrow> nl \<notin> set l \<and> length l < cap"

lemma feed_unlines:
  "list_all (fits cap) ls \<Longrightarrow>
   feed cap [] (unlines ls @ ys) = (case feed cap [] ys of (ts, r) \<Rightarrow> (map drop_cr ls @ ts, r))"
  by (induction ls) (auto simp: fits_def feed_line split: prod.split)

lemma feed_overflow:
  assumes "nl \<notin> set l" "cap \<le> length l" "ys \<noteq> []"
  shows "feed cap [] (l @ ys) = ([], None)"
proof -
  obtain a b where l: "l = a @ b" "length a = cap"
    using assms(2) by (metis append_take_drop_id length_take min.absorb2)
  have "feed cap [] a = ([], Some a)"
    using assms(1) l by (subst feed_partial) auto
  then show ?thesis
    using assms(3) l by (cases "b @ ys") (auto simp: feed_append)
qed

lemma scan_fitting:
  assumes "list_all (fits cap) ls" "fits cap r" "concat bss = unlines ls @ r"
  shows "scan_reads cap [] (chunks bss @ [([], Some e)]) =
    (map drop_cr ls @ (if r = [] then [] else [drop_cr r]), Ended e)"
  using assms by (auto simp: scan_reads_chunks feed_unlines feed_partial fits_def)

lemma scan_too_long:
  assumes "list_all (fits cap) ls" "nl \<notin> set l" "cap \<le> length l" "concat bss = unlines ls @ l @ ys"
  shows "scan_reads cap [] (chunks bss @ [([], Some e)]) = (map drop_cr ls, TooLong)"
proof (cases ys)
  case Nil
  have "feed cap [] l = (if cap < length l then ([], None) else ([], Some l))"
  proof (cases "cap < length l")
    case True
    have "nl \<notin> set (take cap l)" using assms(2) by (meson in_set_takeD)
    with True show ?thesis using feed_overflow [of "take cap l" cap "drop cap l"] by simp
  next
    case False
    with assms(2) show ?thesis by (simp add: feed_partial)
  qed
  with assms Nil show ?thesis
    by (simp add: scan_reads_chunks feed_unlines)
next
  case (Cons y ys')
  with assms show ?thesis by (simp add: scan_reads_chunks feed_unlines feed_overflow)
qed

subsection \<open>From lines to events\<close>

text \<open>A reader that may run until it is cancelled: still running, or returned with its error.\<close>

datatype outcome = Running | Returned err

text \<open>Both readers skip empty lines before they ask the source.\<close>

definition line_events :: "line_parser \<Rightarrow> string list \<Rightarrow> event list" where
  "line_events parse ls = List.map_filter parse (filter (\<lambda>l. l \<noteq> []) ls)"

lemma line_events_append [simp]: "line_events parse (xs @ ys) = line_events parse xs @ line_events parse ys"
  by (simp add: line_events_def map_filter_def)

lemma line_events_Nil [simp]: "line_events parse [] = []"
  by (simp add: line_events_def map_filter_def)

text \<open>Under the contract of a source the skipping is not observable.\<close>

context log_source
begin

lemma line_events_all: "line_events parse ls = List.map_filter parse ls"
  unfolding line_events_def by (induction ls) (auto simp: map_filter_simps parse_blank split: option.split)

lemma line_events_sound: "e \<in> set (line_events parse ls) \<longleftrightarrow> (\<exists>l \<in> set ls. parse l = Some e)"
  unfolding line_events_all by (induction ls) (auto simp: map_filter_simps split: option.split)

end

end
