(* ===== verification/Socket_Listener.thy ===== *)
theory Socket_Listener
  imports Lines Vault_Source
begin

text \<open>
  \<open>relay/socket_listener.go\<close>: the address, the accept loop and the connection handler. What the
  network does is input: the result of \<open>net.Listen\<close>, the results of \<open>Accept\<close> (each with
  whether the context was cancelled by then) and the reads of each connection. Handlers run
  concurrently; the model gives the events of each connection in the order it emits them.
\<close>

definition socket_scan_buf :: nat where
  "socket_scan_buf = 2 ^ 20"

definition parse_socket_addr :: "string \<Rightarrow> string \<times> string" where
  "parse_socket_addr addr =
     (if has_prefix addr ''tcp://'' then (''tcp'', trim_prefix addr ''tcp://'') else (''unix'', addr))"

datatype os_call = OsRemove string | OsListen string string

text \<open>What is asked of the system before the first connection; a failing \<open>Remove\<close> is ignored.\<close>

definition listen_calls :: "string \<Rightarrow> os_call list" where
  "listen_calls addr =
     (case parse_socket_addr addr of
        (network, address) \<Rightarrow>
          (if network = ''unix'' then [OsRemove address] else []) @ [OsListen network address])"

subsection \<open>One connection\<close>

definition handle_conn :: "line_parser \<Rightarrow> read list \<Rightarrow> event list" where
  "handle_conn parse conn = line_events parse (fst (scan_reads socket_scan_buf [] conn))"

text \<open>Whether the handler logs a read error, given whether the context is cancelled.\<close>

definition conn_warning :: "bool \<Rightarrow> read list \<Rightarrow> bool" where
  "conn_warning cancelled conn =
     (case snd (scan_reads socket_scan_buf [] conn) of
        TooLong \<Rightarrow> \<not> cancelled
      | Ended (ReadError _) \<Rightarrow> \<not> cancelled
      | _ \<Rightarrow> False)"

subsection \<open>Closing on cancellation\<close>

text \<open>
  A goroutine per listener and per connection waits for the context and closes it, so that a
  blocked \<open>Accept\<close> or \<open>Read\<close> returns. \<open>CtxDone\<close> is the cancellation, \<open>Closer\<close> the moment that
  goroutine gets to run (it blocks as long as the context lives), \<open>Ready r\<close> a result the
  network has for the next call. After the close a call returns the error, whatever the
  network has. The results of the calls, each with whether the context was cancelled by then:
\<close>

datatype 'r io_event = CtxDone | Closer | Ready 'r

fun io_results :: "'r \<Rightarrow> bool \<Rightarrow> bool \<Rightarrow> 'r io_event list \<Rightarrow> ('r \<times> bool) list" where
  "io_results at_close cancelled closed [] = []"
| "io_results at_close cancelled closed (CtxDone # evs) = io_results at_close True closed evs"
| "io_results at_close cancelled closed (Closer # evs) = io_results at_close cancelled (closed \<or> cancelled) evs"
| "io_results at_close cancelled closed (Ready r # evs) =
     (if closed then at_close else r, cancelled) # io_results at_close cancelled closed evs"

definition closed_error :: string where
  "closed_error = ''use of closed network connection''"

definition closed_read :: read where
  "closed_read = ([], Some (ReadError closed_error))"

text \<open>A handler with its closing goroutine.\<close>

definition conn_run :: "line_parser \<Rightarrow> read io_event list \<Rightarrow> event list" where
  "conn_run parse evs = handle_conn parse (map fst (io_results closed_read False False evs))"

lemma io_results_closed:
  "\<exists>xs ys. io_results cl c d (pre @ CtxDone # mid @ Closer # Ready r # evs) = xs @ (cl, True) # ys"
proof -
  have "\<exists>xs ys. io_results cl True d (mid @ Closer # Ready r # evs) = xs @ (cl, True) # ys" for d
  proof (induction mid arbitrary: d)
    case Nil
    show ?case by (simp, metis append_Nil)
  next
    case (Cons ev mid)
    show ?case by (cases ev) (use Cons in \<open>simp_all, metis append_Cons\<close>)
  qed
  then show ?thesis
  proof (induction pre arbitrary: c d)
    case (Cons ev pre)
    show ?case by (cases ev) (use Cons in \<open>simp_all, metis append_Cons\<close>)
  qed simp
qed

lemma scan_reads_error: "\<not> (\<exists>p'. snd (scan_reads cap p (xs @ (bs, Some e) # ys)) = Reading p')"
proof (induction xs arbitrary: p)
  case (Cons x xs)
  then show ?case by (cases x) (auto split: prod.split option.split, (metis snd_conv)+)
qed (auto split: prod.split option.split)

subsection \<open>The accept loop\<close>

datatype accept = Accepted "read io_event list" | AcceptError string

fun accept_loop :: "(accept \<times> bool) list \<Rightarrow> outcome \<times> read io_event list list" where
  "accept_loop [] = (Running, [])"
| "accept_loop ((Accepted conn, cancelled) # as) =
     (case accept_loop as of (out, conns) \<Rightarrow> (out, conn # conns))"
| "accept_loop ((AcceptError t, cancelled) # as) =
     (if cancelled then (Returned None, []) else accept_loop as)"

definition listen_socket :: "line_parser \<Rightarrow> string \<Rightarrow> string option \<Rightarrow> (accept \<times> bool) list \<Rightarrow> outcome \<times> event list list" where
  "listen_socket parse addr listen_error accepts =
     (case listen_error of
        Some t \<Rightarrow> (Returned (Some (EWrap ''socket listen %q: %w'' [addr] (EEnv t))), [])
      | None \<Rightarrow>
          (case accept_loop accepts of (out, conns) \<Rightarrow> (out, map (conn_run parse) conns)))"

text \<open>The listener with its closing goroutine.\<close>

definition listener_run :: "line_parser \<Rightarrow> string \<Rightarrow> string option \<Rightarrow> accept io_event list \<Rightarrow> outcome \<times> event list list" where
  "listener_run parse addr listen_error evs =
     listen_socket parse addr listen_error (io_results (AcceptError closed_error) False False evs)"

definition shutdown :: "accept \<times> bool \<Rightarrow> bool" where
  "shutdown a \<longleftrightarrow> snd a \<and> (case fst a of AcceptError _ \<Rightarrow> True | Accepted _ \<Rightarrow> False)"

definition accepted_conns :: "(accept \<times> bool) list \<Rightarrow> read io_event list list" where
  "accepted_conns as = List.map_filter (\<lambda>a. case fst a of Accepted c \<Rightarrow> Some c | AcceptError _ \<Rightarrow> None) as"

lemma accept_loop_split:
  "list_all (\<lambda>a. \<not> shutdown a) pre \<Longrightarrow>
   accept_loop (pre @ as) = (case accept_loop as of (out, cs) \<Rightarrow> (out, accepted_conns pre @ cs))"
  by (induction pre rule: accept_loop.induct)
    (auto simp: shutdown_def accepted_conns_def map_filter_simps split: prod.split)

lemma accept_loop_shutdown: "shutdown a \<Longrightarrow> accept_loop (a # as) = (Returned None, [])"
  by (cases a) (auto simp: shutdown_def split: accept.splits)

lemma accept_loop_returns: "fst (accept_loop (xs @ (AcceptError t, True) # ys)) = Returned None"
  by (induction xs rule: accept_loop.induct) (auto split: prod.split)

subsection \<open>Properties\<close>

text \<open>C24: Framing on a socket: when a connection carries lines shorter than one megabyte and
  perhaps an unterminated last one, cut into reads in any way, the handler emits exactly the
  events of these lines, in order, with a carriage return before a newline removed, and
  logs nothing.\<close>

theorem socket_framing:
  assumes "list_all (fits socket_scan_buf) ls" "fits socket_scan_buf last_line"
    and "concat bss = unlines ls @ last_line"
  shows "handle_conn parse (chunks bss @ [([], Some Eof)]) =
      line_events parse (map drop_cr (ls @ (if last_line = [] then [] else [last_line]))) \<and>
    \<not> conn_warning cancelled (chunks bss @ [([], Some Eof)])"
  using scan_fitting [OF assms] by (simp add: handle_conn_def conn_warning_def)

theorem socket_framing_witness:
  "handle_conn (\<lambda>l. if l = ''ev'' then Some (vault_build_event zero_entry ''t'' []) else None)
      (chunks [''e'', [CHR ''v'', CHR 0x0D], [CHR 0x0A, CHR 0x0A], ''ev''] @ [([], Some Eof)]) =
   [vault_build_event zero_entry ''t'' [], vault_build_event zero_entry ''t'' []]"
proof -
  have "list_all (fits socket_scan_buf) [[CHR ''e'', CHR ''v'', CHR 0x0D], []]" "fits socket_scan_buf ''ev''"
    "concat [''e'', [CHR ''v'', CHR 0x0D], [CHR 0x0A, CHR 0x0A], ''ev''] =
      unlines [[CHR ''e'', CHR ''v'', CHR 0x0D], []] @ ''ev''"
    by (simp_all add: fits_def socket_scan_buf_def nl_def)
  from socket_framing [OF this, THEN conjunct1] show ?thesis
    by (simp add: drop_cr_def line_events_def map_filter_simps)
qed

text \<open>C25: A line of a megabyte or more ends the connection: the events of the lines before it are
  emitted, the line itself and everything after it are lost, and the handler logs the error
  unless the context is cancelled.\<close>

theorem socket_oversized_line:
  assumes "list_all (fits socket_scan_buf) ls" "nl \<notin> set l" "socket_scan_buf \<le> length l"
    and "concat bss = unlines ls @ l @ tail_bytes"
  shows "handle_conn parse (chunks bss @ [([], Some e)]) = line_events parse (map drop_cr ls) \<and>
    conn_warning cancelled (chunks bss @ [([], Some e)]) = (\<not> cancelled)"
  using scan_too_long [OF assms] by (simp add: handle_conn_def conn_warning_def)

theorem socket_oversized_line_witness:
  "handle_conn (vault_parse vault_example_source) (chunks [replicate (2 ^ 20) CHR ''x'', unlines [''a'', ''b'']] @ [([], Some Eof)]) = []"
  using socket_oversized_line [of "[]" "replicate (2 ^ 20) CHR ''x''"
      "[replicate (2 ^ 20) CHR ''x'', unlines [''a'', ''b'']]" "unlines [''a'', ''b'']" "vault_parse vault_example_source" Eof]
  by (simp add: socket_scan_buf_def nl_def)

text \<open>The listener: it returns an error only when it cannot listen; while the context lives accept
  errors are skipped and every connection accepted is handled; and once the context is done
  and its goroutine has closed it, it returns nil at its next accept, whatever the network
  would have handed it. A stale socket file is removed before listening on a Unix path, and
  nothing is removed for a TCP address.\<close>

theorem listener_lifecycle:
  assumes "list_all (\<lambda>ev. ev \<noteq> CtxDone) pre"
  shows "listener_run parse addr (Some t) evs =
      (Returned (Some (EWrap ''socket listen %q: %w'' [addr] (EEnv t))), []) \<and>
    listener_run parse addr None pre =
      (Running, map (conn_run parse) (List.map_filter (\<lambda>ev. case ev of Ready (Accepted c) \<Rightarrow> Some c | _ \<Rightarrow> None) pre)) \<and>
    fst (listener_run parse addr None (evs @ CtxDone # mid @ Closer # Ready r # post)) = Returned None \<and>
    listen_calls (''tcp://'' @ addr) = [OsListen ''tcp'' addr] \<and>
    (has_prefix addr ''tcp://'' \<or> listen_calls addr = [OsRemove addr, OsListen ''unix'' addr])"
proof -
  let ?res = "io_results (AcceptError closed_error) False False"
  have live: "accept_loop (?res pre) =
      (Running, List.map_filter (\<lambda>ev. case ev of Ready (Accepted c) \<Rightarrow> Some c | _ \<Rightarrow> None) pre)"
    using assms
  proof (induction pre)
    case (Cons ev pre)
    show ?case
    proof (cases ev)
      case (Ready a)
      with Cons show ?thesis by (cases a) (auto simp: map_filter_simps)
    qed (use Cons in \<open>simp_all add: map_filter_simps\<close>)
  qed (simp add: map_filter_simps)
  obtain xs ys where "?res (evs @ CtxDone # mid @ Closer # Ready r # post) = xs @ (AcceptError closed_error, True) # ys"
    using io_results_closed [of "AcceptError closed_error" False False evs mid r post] by blast
  with accept_loop_returns [of xs closed_error ys] live show ?thesis
    by (auto simp: listener_run_def listen_socket_def listen_calls_def parse_socket_addr_def trim_prefix_def
        has_prefix_def split: prod.split)
qed

theorem listener_lifecycle_witness:
  "fst (listener_run (vault_parse vault_example_source) ''/tmp/x.sock'' None
     ([Ready (Accepted [Ready ([], Some Eof)])] @ CtxDone # [] @ Closer # Ready (Accepted []) # [])) = Returned None"
  using listener_lifecycle [of "[]" "vault_parse vault_example_source" "''/tmp/x.sock''" "[]"
      "[Ready (Accepted [Ready ([], Some Eof)])]" "[]" "Accepted []" "[]"] by simp

text \<open>And a handler whose connection its goroutine has closed reads no further.\<close>

lemma conn_closed_ends:
  "\<not> (\<exists>p. snd (scan_reads socket_scan_buf [] (map fst
      (io_results closed_read False False (evs @ CtxDone # mid @ Closer # Ready r # post)))) = Reading p)"
proof -
  obtain xs ys where "io_results closed_read False False (evs @ CtxDone # mid @ Closer # Ready r # post) =
      xs @ (closed_read, True) # ys" using io_results_closed [of closed_read False False evs mid r post] by blast
  then show ?thesis using scan_reads_error [of socket_scan_buf "[]" "map fst xs" "[]" _ "map fst ys"]
    by (simp add: closed_read_def)
qed

end
