(* ===== verification/Tailer.thy ===== *)
theory Tailer
  imports Lines K8s_Source
begin

text \<open>
  \<open>relay/tailer.go\<close>: following a log file. The file system is input: one snapshot per tick of
  the 500 ms ticker, or per attempt to open. A snapshot says which file the path names for
  \<open>os.Stat\<close> and for \<open>os.Open\<close>, and what each file holds; an open file is its inode, its
  offset and the bytes after the last newline read.
\<close>

definition tail_buf_size :: nat where
  "tail_buf_size = 4096"

record file_sys =
  stat_path :: "string \<Rightarrow> nat option"
  open_path :: "string \<Rightarrow> nat option"
  fstat_ok :: "nat \<Rightarrow> bool"
  seek_ok :: "nat \<Rightarrow> bool"
  content :: "nat \<Rightarrow> string"
  read_fault :: "nat \<Rightarrow> bool"

record tailer =
  t_ino :: nat
  t_off :: nat
  t_pending :: string

text \<open>
  \<open>Unopened\<close> is \<open>Tail\<close> before its first attempt to open, \<open>Opening\<close> the \<open>select\<close> of
  \<open>openWithRetry\<close> after an attempt that failed; at the start (\<open>True\<close>) the file is then read
  from its end, after a rotation from its beginning.
\<close>

datatype tail_state = Unopened | Opening bool | Tailing tailer | Stopped err

datatype tail_event = Cancel | Tick file_sys

definition ctx_error :: go_error where
  "ctx_error = EMsg ''context canceled'' []"

definition try_open :: "bool \<Rightarrow> string \<Rightarrow> file_sys \<Rightarrow> tail_state" where
  "try_open at_start path fs =
     (case open_path fs path of
        None \<Rightarrow> Opening at_start
      | Some i \<Rightarrow>
          (if at_start
           then (if seek_ok fs i
                 then Tailing \<lparr>t_ino = i, t_off = length (content fs i), t_pending = []\<rparr>
                 else Stopped (Some (EEnv ''seek'')))
           else Tailing \<lparr>t_ino = i, t_off = 0, t_pending = []\<rparr>))"

text \<open>When the open file cannot be examined, \<open>isRotated\<close> returns an error and the caller goes on.\<close>

definition is_rotated :: "string \<Rightarrow> file_sys \<Rightarrow> tailer \<Rightarrow> bool" where
  "is_rotated path fs t \<longleftrightarrow> fstat_ok fs (t_ino t) \<and> stat_path fs path \<noteq> Some (t_ino t)"

definition is_truncated :: "file_sys \<Rightarrow> tailer \<Rightarrow> bool" where
  "is_truncated fs t \<longleftrightarrow> fstat_ok fs (t_ino t) \<and> length (content fs (t_ino t)) < t_off t"

definition read_bytes :: "file_sys \<Rightarrow> tailer \<Rightarrow> string" where
  "read_bytes fs t =
     (if read_fault fs (t_ino t) then []
      else take tail_buf_size (drop (t_off t) (content fs (t_ino t))))"

definition tail_tick :: "line_parser \<Rightarrow> string \<Rightarrow> file_sys \<Rightarrow> tailer \<Rightarrow> tail_state \<times> event list" where
  "tail_tick parse path fs t =
     (if is_rotated path fs t then (try_open False path fs, [])
      else if is_truncated fs t then (Tailing (t\<lparr>t_off := 0, t_pending := []\<rparr>), [])
      else
        (case split_lines (t_pending t) (read_bytes fs t) of
           (ls, rest) \<Rightarrow>
             (Tailing (t\<lparr>t_off := t_off t + length (read_bytes fs t), t_pending := rest\<rparr>),
              line_events parse ls)))"

text \<open>The context is looked at between two attempts and between two ticks, never before the first attempt.\<close>

fun tail_step :: "line_parser \<Rightarrow> string \<Rightarrow> tail_state \<Rightarrow> tail_event \<Rightarrow> tail_state \<times> event list" where
  "tail_step parse path Unopened Cancel = (Unopened, [])"
| "tail_step parse path Unopened (Tick fs) = (try_open True path fs, [])"
| "tail_step parse path (Opening at_start) Cancel = (Stopped (Some ctx_error), [])"
| "tail_step parse path (Opening at_start) (Tick fs) = (try_open at_start path fs, [])"
| "tail_step parse path (Tailing t) Cancel = (Stopped None, [])"
| "tail_step parse path (Tailing t) (Tick fs) = tail_tick parse path fs t"
| "tail_step parse path (Stopped er) ev = (Stopped er, [])"

fun tail_run :: "line_parser \<Rightarrow> string \<Rightarrow> tail_state \<Rightarrow> tail_event list \<Rightarrow> tail_state \<times> event list" where
  "tail_run parse path st [] = (st, [])"
| "tail_run parse path st (ev # evs) =
     (case tail_step parse path st ev of
        (st', out) \<Rightarrow> (case tail_run parse path st' evs of (st'', out') \<Rightarrow> (st'', out @ out')))"

text \<open>\<open>Tail\<close>, which starts by opening the file.\<close>

definition tail_file :: "line_parser \<Rightarrow> string \<Rightarrow> tail_event list \<Rightarrow> tail_state \<times> event list" where
  "tail_file parse path evs = tail_run parse path Unopened evs"

subsection \<open>The invariant\<close>

text \<open>Between two ticks the buffer holds a part of one line, all of it read from the open file.\<close>

definition tail_inv :: "tail_state \<Rightarrow> bool" where
  "tail_inv st = (case st of Tailing t \<Rightarrow> nl \<notin> set (t_pending t) \<and> length (t_pending t) \<le> t_off t | _ \<Rightarrow> True)"

lemma split_lines_length: "split_lines p xs = (ls, r) \<Longrightarrow> length r \<le> length p + length xs"
  using unlines_split_lines [of p xs ls r] by (metis length_append le_add2)

lemma tail_inv_try_open: "tail_inv (try_open b path fs)"
  by (simp add: tail_inv_def try_open_def split: option.split)

lemma tail_inv_tick:
  assumes "tail_inv (Tailing t)"
  shows "tail_inv (fst (tail_tick parse path fs t))"
proof -
  obtain ls r where s: "split_lines (t_pending t) (read_bytes fs t) = (ls, r)" by fastforce
  have "nl \<notin> set r" "length r \<le> t_off t + length (read_bytes fs t)"
    using assms split_lines_rest [OF _ s] split_lines_length [OF s] by (auto simp: tail_inv_def)
  then show ?thesis
    using tail_inv_try_open [of False path fs]
    by (auto simp: tail_tick_def s) (auto simp: tail_inv_def)
qed

lemma tail_inv_step: "tail_inv st \<Longrightarrow> tail_inv (fst (tail_step parse path st ev))"
  by (cases "(parse, path, st, ev)" rule: tail_step.cases)
    (simp_all add: tail_inv_try_open tail_inv_tick, simp_all add: tail_inv_def)

lemma tail_inv_run: "tail_inv st \<Longrightarrow> tail_inv (fst (tail_run parse path st evs))"
proof (induction evs arbitrary: st)
  case (Cons ev evs)
  then have "tail_inv (fst (tail_run parse path (fst (tail_step parse path st ev)) evs))"
    using tail_inv_step by blast
  then show ?case by (simp add: split_def)
qed simp

lemma tail_run_append:
  "tail_run parse path st (xs @ ys) =
     (case tail_run parse path st xs of
        (st', out) \<Rightarrow> (case tail_run parse path st' ys of (st'', out') \<Rightarrow> (st'', out @ out')))"
  by (induction xs arbitrary: st) (auto split: prod.split)

subsection \<open>A file that only grows\<close>

text \<open>Snapshots in which the path keeps naming file \<open>i\<close>, readable, with ever more bytes.\<close>

fun growing :: "string \<Rightarrow> nat \<Rightarrow> string \<Rightarrow> file_sys list \<Rightarrow> bool" where
  "growing path i c [] = True"
| "growing path i c (fs # fss) \<longleftrightarrow>
     stat_path fs path = Some i \<and> \<not> read_fault fs i \<and> has_prefix (content fs i) c \<and>
     growing path i (content fs i) fss"

definition final_content :: "nat \<Rightarrow> string \<Rightarrow> file_sys list \<Rightarrow> string" where
  "final_content i c fss = (if fss = [] then c else content (last fss) i)"

lemma final_content_simps [simp]:
  "final_content i c [] = c" "final_content i c (fs # fss) = final_content i (content fs i) fss"
  by (simp_all add: final_content_def)

lemma growing_prefix: "growing path i c fss \<Longrightarrow> \<exists>d. final_content i c fss = c @ d"
proof (induction fss arbitrary: c)
  case (Cons fs fss)
  from Cons.prems obtain d where "content fs i = c @ d" by (auto simp: has_prefix_iff)
  moreover from Cons.prems Cons.IH [of "content fs i"] obtain e where
    "final_content i (content fs i) fss = content fs i @ e" by auto
  ultimately show ?case by simp
qed simp

lemma tick_growing:
  assumes "stat_path fs path = Some (t_ino t)" "\<not> read_fault fs (t_ino t)" "t_off t \<le> length (content fs (t_ino t))"
  shows "tail_tick parse path fs t =
    (let bs = take tail_buf_size (drop (t_off t) (content fs (t_ino t)));
         (ls, rest) = split_lines (t_pending t) bs
     in (Tailing (t\<lparr>t_off := t_off t + length bs, t_pending := rest\<rparr>), line_events parse ls))"
  using assms by (simp add: tail_tick_def is_rotated_def is_truncated_def read_bytes_def Let_def)

lemma take_drop_extend:
  "off \<le> length c \<Longrightarrow> take n (drop off c) = take (length (take n (drop off c))) (drop off (c @ e))"
  by (simp add: min_def)

lemma take_join:
  "xs = take (length xs) zs \<Longrightarrow> ys = take (length ys) (drop (length xs) zs) \<Longrightarrow>
   xs @ ys = take (length (xs @ ys)) zs"
  by (metis length_append take_add)

lemma progress_arith:
  fixes l l' off b n x :: nat
  assumes "l \<le> l'" "off \<le> l'" "min l' (off + min (l' - off) b + n) \<le> x"
  shows "min l (off + (b + n)) \<le> x"
  using assms by linarith

lemma tail_growing:
  assumes "growing path (t_ino t) c fss" "t_off t \<le> length c"
  shows "\<exists>t' bs ls rest. tail_run parse path (Tailing t) (map Tick fss) = (Tailing t', line_events parse ls) \<and>
    t_ino t' = t_ino t \<and> t_off t' = t_off t + length bs \<and> t_off t' \<le> length (final_content (t_ino t) c fss) \<and>
    bs = take (length bs) (drop (t_off t) (final_content (t_ino t) c fss)) \<and>
    split_lines (t_pending t) bs = (ls, rest) \<and> t_pending t' = rest \<and>
    min (length c) (t_off t + tail_buf_size * length fss) \<le> t_off t'"
  using assms
proof (induction fss arbitrary: t c)
  case Nil
  then show ?case by (intro exI [of _ t] exI [of _ "[]"] exI [of _ "[]"] exI [of _ "t_pending t"]) simp
next
  case (Cons fs fss)
  let ?c = "content fs (t_ino t)"
  let ?b = "take tail_buf_size (drop (t_off t) ?c)"
  from Cons.prems obtain d where d: "?c = c @ d" by (auto simp: has_prefix_iff)
  have le: "t_off t \<le> length ?c" using Cons.prems(2) d by simp
  obtain ls r where s: "split_lines (t_pending t) ?b = (ls, r)" by fastforce
  let ?t = "t\<lparr>t_off := t_off t + length ?b, t_pending := r\<rparr>"
  have tick: "tail_tick parse path fs t = (Tailing ?t, line_events parse ls)"
    using Cons.prems(1) le by (subst tick_growing) (simp_all add: Let_def s)
  have off: "t_off ?t \<le> length ?c" using Cons.prems(2) d by simp
  from Cons.IH [of ?t ?c] Cons.prems off obtain t' bs ls' rest where IH:
    "tail_run parse path (Tailing ?t) (map Tick fss) = (Tailing t', line_events parse ls')"
    "t_ino t' = t_ino t" "t_off t' = t_off ?t + length bs"
    "t_off t' \<le> length (final_content (t_ino t) ?c fss)"
    "bs = take (length bs) (drop (t_off ?t) (final_content (t_ino t) ?c fss))"
    "split_lines r bs = (ls', rest)" "t_pending t' = rest"
    "min (length ?c) (t_off ?t + tail_buf_size * length fss) \<le> t_off t'" by auto
  from growing_prefix [of path "t_ino t" ?c fss] Cons.prems obtain e where
    e: "final_content (t_ino t) ?c fss = ?c @ e" by auto
  let ?all = "final_content (t_ino t) c (fs # fss)"
  have all: "?all = ?c @ e" by (simp add: e)
  have c1: "tail_run parse path (Tailing t) (map Tick (fs # fss)) = (Tailing t', line_events parse (ls @ ls'))"
    using tick IH(1) by simp
  have c2: "t_off t' = t_off t + length (?b @ bs)" using IH(3) by simp
  have c3: "t_off t' \<le> length ?all" using IH(4) by simp
  have c4: "?b @ bs = take (length (?b @ bs)) (drop (t_off t) ?all)"
  proof (rule take_join)
    show "?b = take (length ?b) (drop (t_off t) ?all)"
      unfolding all by (rule take_drop_extend [OF le])
    have "drop (t_off ?t) ?all = drop (length ?b) (drop (t_off t) ?all)"
      by (simp only: drop_drop tailer.simps) (simp add: add.commute)
    with IH(5) show "bs = take (length bs) (drop (length ?b) (drop (t_off t) ?all))"
      by (simp only: final_content_simps)
  qed
  have c5: "split_lines (t_pending t) (?b @ bs) = (ls @ ls', rest)"
    using s IH(6) by (simp add: split_lines_append)
  have "length c \<le> length ?c" by (simp add: d)
  moreover have "min (length ?c) (t_off t + min (length ?c - t_off t) tail_buf_size + tail_buf_size * length fss) \<le> t_off t'"
    using IH(8) by (simp add: min.commute)
  ultimately have c6: "min (length c) (t_off t + tail_buf_size * length (fs # fss)) \<le> t_off t'"
    using progress_arith [OF _ le] by simp
  show ?case by (intro exI conjI) (rule c1 c2 c3 c4 c5 c6 IH(2) IH(7))+
qed

text \<open>How far the ticks get: to the end of each snapshot, or one buffer further.\<close>

lemma tail_offset:
  assumes "growing path (t_ino t) c fss" "t_off t \<le> length c"
    and "tail_run parse path (Tailing t) (map Tick fss) = (Tailing t', evs)"
  shows "t_off t' = fold (\<lambda>q off. min (length (content q (t_ino t))) (off + 4096)) fss (t_off t)"
  using assms
proof (induction fss arbitrary: t c evs)
  case (Cons fs fss)
  let ?c = "content fs (t_ino t)"
  let ?b = "take tail_buf_size (drop (t_off t) ?c)"
  obtain d where d: "?c = c @ d" using Cons.prems(1) by (auto simp: has_prefix_iff)
  have le: "t_off t \<le> length ?c" using Cons.prems(2) d by simp
  obtain ls r where s: "split_lines (t_pending t) ?b = (ls, r)" by fastforce
  let ?t = "t\<lparr>t_off := t_off t + length ?b, t_pending := r\<rparr>"
  have "tail_tick parse path fs t = (Tailing ?t, line_events parse ls)"
    using Cons.prems(1) le by (subst tick_growing) (simp_all add: Let_def s)
  with Cons.prems(3) obtain evs' where "tail_run parse path (Tailing ?t) (map Tick fss) = (Tailing t', evs')"
    by (auto split: prod.splits)
  moreover have "t_off t + length ?b = min (length ?c) (t_off t + 4096)"
    using Cons.prems(2) by (simp add: d tail_buf_size_def)
  ultimately show ?case using Cons.IH [of ?t ?c] Cons.prems(1) by simp
qed simp

text \<open>From a known offset on, what is added is delivered; enough quiet ticks deliver all of it.\<close>

lemma tail_from_offset:
  assumes "growing path i c fss" "final_content i c fss = take off c @ added" "off \<le> length c"
  shows "\<exists>t bs ls. tail_run parse path (Tailing \<lparr>t_ino = i, t_off = off, t_pending = []\<rparr>) (map Tick fss) =
      (Tailing t, line_events parse ls) \<and> t_ino t = i \<and> t_off t = off + length bs \<and>
    prefix bs added \<and> split_lines [] bs = (ls, t_pending t) \<and>
    min (length c - off) (tail_buf_size * length fss) \<le> length bs"
proof -
  let ?t = "\<lparr>t_ino = i, t_off = off, t_pending = []\<rparr>"
  have "length (take off c) = off" using assms(3) by simp
  then have d: "drop off (final_content i c fss) = added" using assms(2) by (simp add: drop_all)
  from tail_growing [of path ?t c fss parse] assms(1,3) obtain t' bs ls rest where t:
    "tail_run parse path (Tailing ?t) (map Tick fss) = (Tailing t', line_events parse ls)"
    "t_ino t' = i" "t_off t' = off + length bs" "bs = take (length bs) added"
    "split_lines [] bs = (ls, rest)" "t_pending t' = rest"
    "min (length c) (off + tail_buf_size * length fss) \<le> t_off t'"
    by (auto simp: d)
  have "prefix bs added" using t(4) by (metis take_is_prefix)
  moreover have "min (length c - off) (tail_buf_size * length fss) \<le> length bs"
    using t(3,7) assms(3) by linarith
  ultimately show ?thesis using t by blast
qed

lemma tail_caught_up:
  assumes "open_path fs path = Some i" "seek_ok fs i"
    and "growing path i (content fs i) (fss @ quiet)"
    and "final_content i (content fs i) fss = content fs i @ unlines ls @ rest"
    and "\<forall>q \<in> set quiet. content q i = content fs i @ unlines ls @ rest"
    and "list_all (\<lambda>l. nl \<notin> set l) ls" "nl \<notin> set rest"
    and "length (unlines ls @ rest) \<le> tail_buf_size * length quiet"
  shows "\<exists>t. tail_file parse path (Tick fs # map Tick (fss @ quiet)) = (Tailing t, line_events parse ls) \<and>
    t_pending t = rest \<and> t_off t = length (content fs i @ unlines ls @ rest)"
proof -
  let ?all = "content fs i @ unlines ls @ rest"
  have grow: "growing path i c fss \<and> growing path i (final_content i c fss) quiet"
    if "growing path i c (fss @ quiet)" for c
    using that by (induction fss arbitrary: c) auto
  note g = grow [OF assms(3)]
  from tail_from_offset [of path i "content fs i" fss "length (content fs i)" "unlines ls @ rest" parse]
  obtain t1 bs1 ls1 where t1:
    "tail_run parse path (Tailing \<lparr>t_ino = i, t_off = length (content fs i), t_pending = []\<rparr>) (map Tick fss) =
      (Tailing t1, line_events parse ls1)"
    "t_ino t1 = i" "t_off t1 = length (content fs i) + length bs1" "prefix bs1 (unlines ls @ rest)"
    "split_lines [] bs1 = (ls1, t_pending t1)" using g assms(4) by auto
  have all: "final_content i ?all quiet = ?all" using assms(5) by (auto simp: final_content_def)
  have off1: "t_off t1 \<le> length ?all" using t1(3,4) prefix_length_le by fastforce
  from tail_growing [of path t1 ?all quiet parse] g off1 t1(2) obtain t bs2 ls2 where t2:
    "tail_run parse path (Tailing t1) (map Tick quiet) = (Tailing t, line_events parse ls2)"
    "t_off t = t_off t1 + length bs2" "t_off t \<le> length ?all"
    "bs2 = take (length bs2) (drop (t_off t1) ?all)"
    "split_lines (t_pending t1) bs2 = (ls2, t_pending t)"
    "min (length ?all) (t_off t1 + tail_buf_size * length quiet) \<le> t_off t"
    by (auto simp: assms(4) all)
  have full: "t_off t = length ?all" using t2(3,6) assms(8) t1(3) by (simp add: min_def split: if_splits)
  obtain d where d: "unlines ls @ rest = bs1 @ d" using t1(4) by (auto simp: prefix_def)
  have "drop (t_off t1) ?all = d" by (simp add: d t1(3))
  moreover have "length bs2 = length d" using t2(2) full by (simp add: d t1(3))
  ultimately have "bs2 = d" using t2(4) by (metis order_refl take_all)
  then have "split_lines [] (unlines ls @ rest) = (ls1 @ ls2, t_pending t)"
    using t1(5) t2(5) by (simp add: d split_lines_append)
  then have "ls1 @ ls2 = ls" "t_pending t = rest"
    using split_lines_unlines [OF assms(6,7)] by simp_all
  moreover have "tail_file parse path (Tick fs # map Tick (fss @ quiet)) =
      (Tailing t, line_events parse ls1 @ line_events parse ls2)"
    using t1(1) t2(1) assms(1,2) by (simp add: tail_file_def try_open_def tail_run_append)
  ultimately show ?thesis
    using full line_events_append [of parse ls1 ls2] by metis
qed

subsection \<open>Properties\<close>

definition example_fs :: "nat \<Rightarrow> (nat \<Rightarrow> string) \<Rightarrow> file_sys" where
  "example_fs i c = \<lparr>stat_path = (\<lambda>_. Some i), open_path = (\<lambda>_. Some i), fstat_ok = (\<lambda>_. True),
     seek_ok = (\<lambda>_. True), content = c, read_fault = (\<lambda>_. False)\<rparr>"

text \<open>Whatever happens to the file, in any order of ticks, failed opens, rotations, truncations
  and read errors, the tailer's buffer never holds a complete line, and never more than it
  has read from the file that is open.\<close>

theorem tail_invariant:
  "tail_inv (fst (tail_file parse path evs))"
  unfolding tail_file_def by (rule tail_inv_run) (simp add: tail_inv_def)

text \<open>C4: Exactly once, from the end of the file on: when the file is opened and then only grows,
  every tick advances the tailer to the end of what its snapshot holds, or by a full buffer
  of 4096 bytes if more is there, and what has been delivered at any moment are the events of
  exactly the complete lines of the file between the offset at the start and that offset, in
  order; the unfinished line is kept for the next tick, and no history is replayed.\<close>

theorem tail_exactly_once:
  assumes "open_path fs path = Some i" "seek_ok fs i" "growing path i (content fs i) fss"
  shows "\<exists>t ls. tail_file parse path (Tick fs # map Tick fss) = (Tailing t, line_events parse ls) \<and>
    t_off t = fold (\<lambda>q off. min (length (content q i)) (off + 4096)) fss (length (content fs i)) \<and>
    take (t_off t) (final_content i (content fs i) fss) = content fs i @ unlines ls @ t_pending t \<and>
    t_off t \<le> length (final_content i (content fs i) fss) \<and>
    list_all (\<lambda>l. nl \<notin> set l) ls \<and> nl \<notin> set (t_pending t)"
proof -
  let ?c = "content fs i" and ?t = "\<lparr>t_ino = i, t_off = length (content fs i), t_pending = []\<rparr>"
  let ?all = "final_content i ?c fss"
  obtain d where d: "?all = ?c @ d" using growing_prefix [OF assms(3)] by blast
  from tail_growing [of path ?t ?c fss parse] assms(3) obtain t bs ls where t:
    "tail_run parse path (Tailing ?t) (map Tick fss) = (Tailing t, line_events parse ls)"
    "t_off t = length ?c + length bs" "t_off t \<le> length ?all" "bs = take (length bs) (drop (length ?c) ?all)"
    "split_lines [] bs = (ls, t_pending t)" by auto
  have off: "t_off t = fold (\<lambda>q off. min (length (content q i)) (off + 4096)) fss (length ?c)"
    using tail_offset [of path ?t ?c fss parse t] assms(3) t(1) by simp
  have "take (t_off t) ?all = ?c @ bs" using t(2,4) by (simp add: d)
  moreover have "unlines ls @ t_pending t = bs" using unlines_split_lines [OF t(5)] by simp
  moreover have "list_all (\<lambda>l. nl \<notin> set l) ls" "nl \<notin> set (t_pending t)"
    using split_lines_no_nl_lines [OF _ t(5)] split_lines_rest [OF _ t(5)] by simp_all
  moreover have "tail_file parse path (Tick fs # map Tick fss) = (Tailing t, line_events parse ls)"
    using assms(1,2) t(1) by (simp add: tail_file_def try_open_def)
  ultimately show ?thesis using off t(3) by blast
qed

theorem tail_exactly_once_witness:
  "\<exists>t. tail_file (k8s_parse k8s_example_source) ''log''
      (Tick (example_fs 1 (\<lambda>_. ''old'')) # map Tick [example_fs 1 (\<lambda>_. ''old'' @ unlines [''a''] @ ''b'')])
    = (Tailing t, line_events (k8s_parse k8s_example_source) [''a'']) \<and> t_off t = 6 \<and> t_pending t = ''b''"
proof -
  let ?q = "example_fs 1 (\<lambda>_. ''old'' @ unlines [''a''] @ ''b'')"
  have "growing ''log'' 1 (content (example_fs 1 (\<lambda>_. ''old'')) 1) [?q]"
    by (simp add: example_fs_def has_prefix_def)
  with tail_exactly_once [of "example_fs 1 (\<lambda>_. ''old'')" "''log''" 1 "[?q]" "k8s_parse k8s_example_source"]
  obtain t ls where t: "tail_file (k8s_parse k8s_example_source) ''log''
      (Tick (example_fs 1 (\<lambda>_. ''old'')) # map Tick [?q]) = (Tailing t, line_events (k8s_parse k8s_example_source) ls)"
    "t_off t = 6" "unlines [''a''] @ ''b'' = unlines ls @ t_pending t"
    "list_all (\<lambda>l. nl \<notin> set l) ls" "nl \<notin> set (t_pending t)"
    by (auto simp: example_fs_def)
  have "split_lines [] (unlines [''a''] @ ''b'') = ([''a''], ''b'')"
    by (rule split_lines_unlines) (simp_all add: nl_def)
  moreover have "split_lines [] (unlines ls @ t_pending t) = (ls, t_pending t)"
    by (rule split_lines_unlines [OF t(4,5)])
  ultimately have "(ls, t_pending t) = ([''a''], ''b'')" using t(3) by metis
  with t(1,2) show ?thesis by blast
qed

text \<open>C22: The tailer catches up: once the file stops growing, one tick per 4096 added bytes is
  enough to have read all of it, and then every complete line added since the start has been
  delivered, and the buffer is exactly the unfinished last line.\<close>

theorem tail_catches_up:
  assumes "open_path fs path = Some i" "seek_ok fs i"
    and "growing path i (content fs i) (fss @ quiet)"
    and "final_content i (content fs i) fss = content fs i @ unlines ls @ rest"
    and "\<forall>q \<in> set quiet. content q i = content fs i @ unlines ls @ rest"
    and "list_all (\<lambda>l. nl \<notin> set l) ls" "nl \<notin> set rest"
    and "length (unlines ls @ rest) \<le> tail_buf_size * length quiet"
  shows "\<exists>t. tail_file parse path (Tick fs # map Tick (fss @ quiet)) = (Tailing t, line_events parse ls) \<and>
    t_pending t = rest \<and> t_off t = length (content fs i @ unlines ls @ rest)"
  using assms by (rule tail_caught_up)

theorem tail_catches_up_witness:
  "\<exists>t. tail_file (k8s_parse k8s_example_source) ''log''
      (Tick (example_fs 1 (\<lambda>_. [])) # map Tick
        ([example_fs 1 (\<lambda>_. unlines [''a'']  @ ''b'')] @ [example_fs 1 (\<lambda>_. unlines [''a''] @ ''b'')])) =
      (Tailing t, line_events (k8s_parse k8s_example_source) [''a'']) \<and> t_pending t = ''b'' \<and> t_off t = 3"
  using tail_catches_up [of "example_fs 1 (\<lambda>_. [])" "''log''" 1
      "[example_fs 1 (\<lambda>_. unlines [''a'']  @ ''b'')]" "[example_fs 1 (\<lambda>_. unlines [''a'']  @ ''b'')]" "[''a'']" "''b''"
      "k8s_parse k8s_example_source"]
  by (auto simp: example_fs_def nl_def tail_buf_size_def has_prefix_def numeral_3_eq_3)

text \<open>C23: Rotation: at the first tick that finds another file under the path, the tailer starts at
  the beginning of that file, whose lines are then delivered as in the growing case. Nothing
  of the old file comes out any more: neither its unfinished line nor the complete lines that
  were written to it after the last tick.\<close>

theorem tail_rotation:
  assumes "is_rotated path fs t" "open_path fs path = Some j"
    and "growing path j (content fs j) fss" "final_content j (content fs j) fss = c"
  shows "\<exists>t' bs ls. tail_run parse path (Tailing t) (Tick fs # map Tick fss) = (Tailing t', line_events parse ls) \<and>
    t_ino t' = j \<and> prefix bs c \<and> split_lines [] bs = (ls, t_pending t') \<and> t_off t' = length bs \<and>
    min (length (content fs j)) (tail_buf_size * length fss) \<le> length bs"
  using tail_from_offset [of path j "content fs j" fss 0 c parse] assms
  by (auto simp: tail_tick_def try_open_def)

theorem tail_rotation_witness:
  "\<exists>t' bs ls. tail_run (k8s_parse k8s_example_source) ''log''
      (Tailing \<lparr>t_ino = 1, t_off = 0, t_pending = []\<rparr>)
      (Tick (example_fs 2 (\<lambda>i. if i = 1 then unlines [''lost''] else ''n'')) #
        map Tick [example_fs 2 (\<lambda>i. if i = 1 then unlines [''lost''] else ''n'')]) =
      (Tailing t', line_events (k8s_parse k8s_example_source) ls) \<and> prefix bs ''n'' \<and>
      split_lines [] bs = (ls, t_pending t')"
proof -
  let ?fs = "example_fs 2 (\<lambda>i. if i = 1 then unlines [''lost''] else ''n'')"
  have "is_rotated ''log'' ?fs \<lparr>t_ino = 1, t_off = 0, t_pending = []\<rparr>"
    "growing ''log'' 2 (content ?fs 2) [?fs]" "final_content 2 (content ?fs 2) [?fs] = ''n''"
    "open_path ?fs ''log'' = Some 2"
    by (simp_all add: is_rotated_def example_fs_def)
  from tail_rotation [OF this(1,4,2,3)] show ?thesis by blast
qed

text \<open>Cancelling while the file cannot be opened yet makes \<open>Tail\<close> return the context's error.\<close>

lemma tail_cancelled_before_open:
  assumes "\<forall>fs \<in> set (fs0 # fss). open_path fs path = None"
  shows "tail_file parse path (map Tick (fs0 # fss) @ [Cancel]) = (Stopped (Some ctx_error), [])"
proof -
  have "tail_run parse path (Opening True) (map Tick fss) = (Opening True, [])"
    using assms by (induction fss) (auto simp: try_open_def)
  then show ?thesis using assms by (simp add: tail_file_def tail_run_append try_open_def)
qed

subsection \<open>The loop over the newlines\<close>

text \<open>\<open>bytes.IndexByte\<close>\<close>

fun index_byte :: "string \<Rightarrow> char \<Rightarrow> nat option" where
  "index_byte [] c = None"
| "index_byte (x # xs) c = (if x = c then Some 0 else map_option Suc (index_byte xs c))"

lemma index_byte_bound: "index_byte xs c = Some i \<Longrightarrow> i < length xs"
  by (induction xs arbitrary: i) (auto split: if_splits)

text \<open>The inner loop of \<open>Tail\<close> as it is written: cut at the first newline until there is none.\<close>

function newline_loop :: "line_parser \<Rightarrow> string \<Rightarrow> event list \<times> string" where
  "newline_loop parse pending =
     (case index_byte pending nl of
        None \<Rightarrow> ([], pending)
      | Some idx \<Rightarrow>
          (case newline_loop parse (drop (idx + 1) pending) of
             (evs, rest) \<Rightarrow>
               (if take idx pending = [] then (evs, rest)
                else (case parse (take idx pending) of
                        Some e \<Rightarrow> (e # evs, rest)
                      | None \<Rightarrow> (evs, rest)))))"
  by pat_completeness auto
termination
proof (relation "measure (\<lambda>(parse, pending). length pending)")
  fix parse pending idx
  assume "index_byte pending nl = Some idx"
  then have "idx < length pending" by (rule index_byte_bound)
  then show "((parse, drop (idx + 1) pending), parse, pending) \<in> measure (\<lambda>(parse, pending). length pending)" by simp
qed simp

declare newline_loop.simps [simp del]

lemma index_byte_None: "nl \<notin> set xs \<Longrightarrow> index_byte xs nl = None"
  by (induction xs) auto

lemma index_byte_first: "nl \<notin> set l \<Longrightarrow> index_byte (l @ nl # xs) nl = Some (length l)"
  by (induction l) auto

lemma newline_loop_split:
  "nl \<notin> set p \<Longrightarrow> newline_loop parse (p @ bs) = (case split_lines p bs of (ls, r) \<Rightarrow> (line_events parse ls, r))"
proof (induction p bs rule: split_lines.induct)
  case (1 p)
  then show ?case by (simp add: newline_loop.simps index_byte_None)
next
  case (2 p c cs)
  show ?case
  proof (cases "c = nl")
    case True
    have "newline_loop parse cs = (case split_lines [] cs of (ls, r) \<Rightarrow> (line_events parse ls, r))"
      using 2(1) [OF True] by simp
    with True 2(3) show ?thesis
      by (subst newline_loop.simps)
        (auto simp: index_byte_first line_events_def map_filter_simps split: prod.split option.split)
  next
    case False
    with 2(2) [OF False] 2(3) show ?thesis by simp
  qed
qed

text \<open>C16: The loop over the newlines ends, and it does what the model says: in every state the tailer
  can reach, cutting its buffer and the bytes just read at the first newline again and again
  yields the events and the rest that reading the bytes one by one yields, so a tick is the
  code's.\<close>

theorem tail_loop_equivalent:
  assumes "tail_file parse path evs = (Tailing t, out)"
  shows "tail_tick parse path fs t =
    (if is_rotated path fs t then (try_open False path fs, [])
     else if is_truncated fs t then (Tailing (t\<lparr>t_off := 0, t_pending := []\<rparr>), [])
     else
       (case newline_loop parse (t_pending t @ read_bytes fs t) of
          (es, rest) \<Rightarrow> (Tailing (t\<lparr>t_off := t_off t + length (read_bytes fs t), t_pending := rest\<rparr>), es)))"
proof -
  have "tail_inv (fst (tail_file parse path evs))"
    unfolding tail_file_def by (rule tail_inv_run) (simp add: tail_inv_def)
  then have "nl \<notin> set (t_pending t)" using assms by (simp add: tail_inv_def)
  from newline_loop_split [OF this] show ?thesis by (simp add: tail_tick_def split: prod.split)
qed

theorem tail_loop_equivalent_witness:
  "\<exists>t. tail_tick (\<lambda>_. None) ''log'' (example_fs 1 (\<lambda>_. ''xa'' @ [nl])) t =
    (case newline_loop (\<lambda>_. None) (t_pending t @ ''a'' @ [nl]) of
       (es, rest) \<Rightarrow> (Tailing (t\<lparr>t_off := 3, t_pending := rest\<rparr>), es))"
proof -
  let ?t = "\<lparr>t_ino = 1, t_off = 1, t_pending = []\<rparr>"
  let ?fs = "example_fs 1 (\<lambda>_. ''xa'' @ [nl])"
  have "tail_file (\<lambda>_. None) ''log'' [Tick (example_fs 1 (\<lambda>_. ''x''))] = (Tailing ?t, [])"
    by (simp add: tail_file_def try_open_def example_fs_def)
  from tail_loop_equivalent [OF this, of ?fs]
  have "tail_tick (\<lambda>_. None) ''log'' ?fs ?t =
      (case newline_loop (\<lambda>_. None) (t_pending ?t @ read_bytes ?fs ?t) of
        (es, rest) \<Rightarrow> (Tailing (?t\<lparr>t_off := t_off ?t + length (read_bytes ?fs ?t), t_pending := rest\<rparr>), es))"
    by (simp add: is_rotated_def is_truncated_def example_fs_def)
  moreover have "read_bytes ?fs ?t = ''a'' @ [nl]"
    by (simp add: read_bytes_def example_fs_def tail_buf_size_def)
  ultimately show ?thesis by (intro exI [of _ ?t]) (simp add: numeral_3_eq_3)
qed

end
