(* ===== verification/Manager.thy ===== *)
theory Manager
  imports Registry Config Socket_Listener Tailer
begin

text \<open>
  \<open>relay/manager.go\<close>: starting one reader per configured source, posting what the readers
  emit, and the result of \<open>Run\<close>, one source at a time: each reader's run is a function of its
  input, and \<open>Run\<close> sees the readers' results in the order in which they finish. Manager_Run
  runs them together.
\<close>

text \<open>The manager: configuration, emitter and the builder of sources \<open>main\<close> passes in.\<close>

record 'k manager =
  mg_config :: config
  mg_emitter :: "'k emitter"
  mg_build :: "string \<Rightarrow> config_map \<Rightarrow> line_parser result"

definition new_manager :: "config \<Rightarrow> 'k emitter \<Rightarrow> (string \<Rightarrow> config_map \<Rightarrow> line_parser result) \<Rightarrow> 'k manager" where
  "new_manager cfg em build = \<lparr>mg_config = cfg, mg_emitter = em, mg_build = build\<rparr>"

text \<open>The sources whose goroutine was started, and the error that stopped the loop, if any.\<close>

fun start_sources :: "(string \<Rightarrow> config_map \<Rightarrow> line_parser result) \<Rightarrow> source_config list \<Rightarrow>
    (source_config \<times> line_parser) list \<times> err" where
  "start_sources build [] = ([], None)"
| "start_sources build (sc # scs) =
     (case build (src_type sc) (src_options sc) of
        Inl er \<Rightarrow> ([], Some (EWrap ''build source %q (type %q): %w'' [src_name sc, src_type sc] er))
      | Inr parse \<Rightarrow>
          (case start_sources build scs of (started, er) \<Rightarrow> ((sc, parse) # started, er)))"

definition transport_of :: "source_config \<Rightarrow> string" where
  "transport_of sc = (if src_transport sc = [] then ''file'' else src_transport sc)"

text \<open>What happens to a source while it runs: both readers' inputs; one of them is used.\<close>

record source_input =
  in_listen :: "string option"
  in_accepts :: "accept io_event list"
  in_tail :: "tail_event list"

definition tail_outcome :: "tail_state \<Rightarrow> outcome" where
  "tail_outcome st = (case st of Stopped er \<Rightarrow> Returned er | _ \<Rightarrow> Running)"

text \<open>The reader's result so far and its events: one list per connection, or one for the file.\<close>

definition run_source :: "source_config \<Rightarrow> line_parser \<Rightarrow> source_input \<Rightarrow> outcome \<times> event list list" where
  "run_source sc parse inp =
     (if transport_of sc = ''socket''
      then listener_run parse (src_path sc) (in_listen inp) (in_accepts inp)
      else
        (case tail_file parse (src_path sc) (in_tail inp) of
           (st, evs) \<Rightarrow> (tail_outcome st, [evs])))"

text \<open>\<open>onEvent\<close>: the error of \<open>Emit\<close> is logged and the reader goes on. \<open>stamp\<close> is the clock and a
  fresh UUID.\<close>

type_synonym stamp = "int \<times> string"

definition on_event :: "('k, 'j) crypto \<Rightarrow> 'k emitter \<Rightarrow> string \<Rightarrow> stamp \<Rightarrow> event \<Rightarrow> world \<Rightarrow> world" where
  "on_event cr em name st e w = snd (emit cr em (fst st) (snd st) name e w)"

fun on_events :: "('k, 'j) crypto \<Rightarrow> 'k emitter \<Rightarrow> string \<Rightarrow> (stamp \<times> event) list \<Rightarrow> world \<Rightarrow> world" where
  "on_events cr em name [] w = w"
| "on_events cr em name ((st, e) # es) w = on_events cr em name es (on_event cr em name st e w)"

text \<open>The first error the channel delivers; sources that return nil send nothing.\<close>

fun first_error :: "(string \<times> err) list \<Rightarrow> err" where
  "first_error [] = None"
| "first_error ((name, None) # rs) = first_error rs"
| "first_error ((name, Some er) # rs) = Some (EWrap ''source %q: %w'' [name] er)"

definition manager_run :: "(string \<Rightarrow> config_map \<Rightarrow> line_parser result) \<Rightarrow> config \<Rightarrow> (string \<times> err) list \<Rightarrow> err" where
  "manager_run build cfg finished =
     (case start_sources build (cfg_sources cfg) of
        (started, Some er) \<Rightarrow> Some er
      | (started, None) \<Rightarrow> first_error finished)"

subsection \<open>Starting\<close>

lemma start_sources_ok:
  "snd (start_sources build scs) = None \<longleftrightarrow> list_all (\<lambda>sc. is_ok (build (src_type sc) (src_options sc))) scs"
  by (induction scs) (auto split: sum.split prod.split)

lemma start_sources_prefix:
  "start_sources build scs = (started, er) \<Longrightarrow>
   map fst started = takeWhile (\<lambda>sc. is_ok (build (src_type sc) (src_options sc))) scs \<and>
   (\<forall>(sc, parse) \<in> set started. build (src_type sc) (src_options sc) = Inr parse)"
  by (induction scs arbitrary: started) (auto split: sum.splits prod.splits)

lemma start_sources_mem:
  "(sc, parse) \<in> set (fst (start_sources build scs)) \<Longrightarrow>
   sc \<in> set scs \<and> build (src_type sc) (src_options sc) = Inr parse"
  by (induction scs) (auto split: sum.splits prod.splits)

lemma first_error_None: "first_error rs = None \<longleftrightarrow> (\<forall>r \<in> set rs. snd r = None)"
  by (induction rs rule: first_error.induct) auto

context log_source
begin

text \<open>Whatever a reader emits was made from a line.\<close>

lemma tail_events_sound:
  assumes "x \<in> set (snd (tail_run parse path st es))"
  shows "\<exists>l. parse l = Some x"
  using assms
proof (induction es arbitrary: st)
  case (Cons ev es)
  have step: "\<exists>l. parse l = Some x" if "x \<in> set (snd (tail_step parse path st ev))"
    using that line_events_sound
    by (cases "(parse, path, st, ev)" rule: tail_step.cases)
      (auto simp: tail_tick_def split: if_splits prod.splits)
  from Cons.prems have "x \<in> set (snd (tail_step parse path st ev)) \<or>
      x \<in> set (snd (tail_run parse path (fst (tail_step parse path st ev)) es))"
    by (simp add: split_def)
  then show ?case using step Cons.IH by blast
qed simp

lemma conn_events_sound: "x \<in> set (handle_conn parse c) \<Longrightarrow> \<exists>l. parse l = Some x"
  using line_events_sound by (auto simp: handle_conn_def)

end

context source_builder
begin

text \<open>Every reader that is started reads with a parser that keeps the contract of a source.\<close>

lemma started_sources:
  assumes "(sc, parse) \<in> set (fst (start_sources build scs))"
  shows "log_source parse"
proof -
  obtain started er where s: "start_sources build scs = (started, er)" by fastforce
  with assms start_sources_prefix [OF s] have "build (src_type sc) (src_options sc) = Inr parse" by auto
  then show ?thesis by (rule built)
qed

lemma started_events:
  assumes "(sc, parse) \<in> set (fst (start_sources build scs))" "evs \<in> set (snd (run_source sc parse inp))"
    "e \<in> set evs"
  shows "\<exists>l. parse l = Some e \<and> payload_faithful e"
proof -
  have src: "log_source parse" using assms(1) by (rule started_sources)
  have "\<exists>l. parse l = Some e"
    using assms(2,3) log_source.conn_events_sound [OF src]
      log_source.tail_events_sound [OF src, of e "src_path sc" Unopened "in_tail inp"]
    by (auto simp: run_source_def listener_run_def listen_socket_def conn_run_def tail_file_def split: if_splits option.splits prod.splits)
  then show ?thesis using log_source.payload_is_faithful [OF src] by blast
qed

end

subsection \<open>Posting\<close>

lemma on_event_request:
  assumes "em_signing_key em = None" "url_ok w (em_receiver_url em)"
  shows "on_event cr em name st e w =
    w\<lparr>sent := sent w @ [emit_request em (marshal_set (build_set em (fst st) (snd st) name e)) ''application/json'']\<rparr>"
  using assms by (simp add: on_event_def emit_cases set_message_def)

lemma on_events_posted:
  assumes "em_signing_key em = None" "url_ok w (em_receiver_url em)"
  shows "on_events cr em name es w =
    w\<lparr>sent := sent w @ map (\<lambda>((now, uuid), e).
       emit_request em (marshal_set (build_set em now uuid name e)) ''application/json'') es\<rparr>"
  using assms
proof (induction es arbitrary: w)
  case (Cons x es)
  obtain now uuid e where x: "x = ((now, uuid), e)" by (metis surj_pair)
  let ?w = "on_event cr em name (now, uuid) e w"
  have w: "?w = w\<lparr>sent := sent w @ [emit_request em (marshal_set (build_set em now uuid name e)) ''application/json'']\<rparr>"
    using on_event_request [OF Cons.prems, of cr name "(now, uuid)" e] by simp
  then have "url_ok ?w (em_receiver_url em)" using Cons.prems(2) by simp
  from Cons.IH [OF Cons.prems(1) this] show ?case by (simp add: x w)
qed simp

subsection \<open>Properties\<close>

text \<open>Nothing an emitter does stops the relay: with a usable receiver address and unsigned
  delivery, the events of a source are posted one by one, in order, exactly one request
  each, whatever the receiver answers.\<close>

theorem every_event_is_posted:
  assumes "em_signing_key em = None" "url_ok w (em_receiver_url em)"
  shows "on_events cr em name es w =
    w\<lparr>sent := sent w @ map (\<lambda>((now, uuid), e).
       emit_request em (marshal_set (build_set em now uuid name e)) ''application/json'') es\<rparr>"
  using assms by (rule on_events_posted)

theorem every_event_is_posted_witness:
  "length (sent (on_events example_crypto (new_emitter ''http://r'' ''i'' 5 None) ''n''
     [((1, ''a''), example_event), ((2, ''b''), example_event)] (example_world 500 []))) = 2"
proof -
  let ?em = "new_emitter ''http://r'' ''i'' 5 None :: nat emitter"
  let ?es = "[((1, ''a''), example_event), ((2, ''b''), example_event)]"
  have "em_signing_key ?em = None" "url_ok (example_world 500 []) (em_receiver_url ?em)"
    by (simp_all add: new_emitter_def example_world_def)
  from every_event_is_posted [OF this, of example_crypto "''n''" ?es]
  show ?thesis by (simp add: example_world_def)
qed

text \<open>Starting sources: the manager starts the sources before the first whose type is unknown or
  whose configuration is bad, and then fails with that error; when all build it returns nil
  exactly when every reader it waited for returned nil. Every event of a reader it started
  was made by the configured source from one line, and its SET payload carries the event's
  identity, its correlation ID and all its metadata.\<close>

theorem manager_sources:
  assumes "start_sources build_source (cfg_sources cfg) = (started, er)"
  shows "map fst started = takeWhile (\<lambda>sc. is_ok (build_source (src_type sc) (src_options sc))) (cfg_sources cfg) \<and>
    (er = None \<longleftrightarrow> list_all (\<lambda>sc. is_ok (build_source (src_type sc) (src_options sc))) (cfg_sources cfg)) \<and>
    (manager_run build_source cfg finished = None \<longleftrightarrow> er = None \<and> (\<forall>r \<in> set finished. snd r = None)) \<and>
    (\<forall>sc parse inp evs e. (sc, parse) \<in> set started \<longrightarrow> evs \<in> set (snd (run_source sc parse inp)) \<longrightarrow>
       e \<in> set evs \<longrightarrow>
       build_source (src_type sc) (src_options sc) = Inr parse \<and> (\<exists>l. parse l = Some e) \<and> payload_faithful e)"
proof (intro conjI allI impI)
  show "map fst started = takeWhile (\<lambda>sc. is_ok (build_source (src_type sc) (src_options sc))) (cfg_sources cfg)"
    using start_sources_prefix [OF assms] by blast
  show "er = None \<longleftrightarrow> list_all (\<lambda>sc. is_ok (build_source (src_type sc) (src_options sc))) (cfg_sources cfg)"
    using start_sources_ok [of build_source "cfg_sources cfg"] assms by simp
  show "manager_run build_source cfg finished = None \<longleftrightarrow> er = None \<and> (\<forall>r \<in> set finished. snd r = None)"
    using assms by (cases er) (simp_all add: manager_run_def first_error_None)
  fix sc parse inp evs e
  assume s: "(sc, parse) \<in> set started" and "evs \<in> set (snd (run_source sc parse inp))" "e \<in> set evs"
  then show "\<exists>l. parse l = Some e" "payload_faithful e"
    using sources.started_events [of sc parse "cfg_sources cfg" evs inp e] assms by auto
  show "build_source (src_type sc) (src_options sc) = Inr parse"
    using start_sources_prefix [OF assms] s by auto
qed

theorem manager_sources_witness:
  "let bad = \<lparr>src_name = ''x'', src_type = ''syslog'', src_transport = [], src_path = [], src_options = []\<rparr>
   in manager_run build_source
        \<lparr>cfg_ssf = \<lparr>receiver_url = [], issuer = [], timeout_secs = 5, signing_key_pem_file = [],
            signing_key_pem = [], jwks_addr = []\<rparr>, cfg_sources = [bad], cfg_sinks = []\<rparr> [] \<noteq> None"
proof -
  let ?bad = "\<lparr>src_name = ''x'', src_type = ''syslog'', src_transport = [], src_path = [], src_options = []\<rparr>"
  let ?cfg = "\<lparr>cfg_ssf = \<lparr>receiver_url = [], issuer = [], timeout_secs = 5, signing_key_pem_file = [],
      signing_key_pem = [], jwks_addr = []\<rparr>, cfg_sources = [?bad], cfg_sinks = []\<rparr>"
  obtain started er where s: "start_sources build_source (cfg_sources ?cfg) = (started, er)" by fastforce
  have "\<not> is_ok (build_source ''syslog'' [])"
    by (simp add: build_source_def registry_build_def source_registry_started(2) source_inits_def)
  with manager_sources [OF s, of "[]"] show ?thesis by (simp add: Let_def del: not_None_eq)
qed

end
