(* ===== verification/JsonLine.thy ===== *)
theory JsonLine
  imports JsonDecode
begin

text \<open>
  JSON text as \<open>json.Marshal\<close> prints it holds no control byte: strings escape them and
  nothing else prints any. So a printed value stays on one line, which is what the
  newline-delimited formats the relay reads and writes rely on.
\<close>

definition printable :: "char \<Rightarrow> bool" where
  "printable c \<longleftrightarrow> 32 \<le> byte c"

lemma printable_hex: "d < 16 \<Longrightarrow> printable (hex_digit d)"
  by (auto simp: printable_def hex_digit_def byte_def take_bit_eq_mod)

lemma printable_escape_letters:
  "printable bslash" "printable dquote" "printable CHR ''u''" "printable CHR ''0''"
  "e \<in> set [CHR ''b'', CHR ''f'', CHR ''n'', CHR ''r'', CHR ''t'', bslash, CHR ''/'', dquote] \<Longrightarrow> printable e"
  by (auto simp: printable_def bslash_def dquote_def byte_def)

lemma printable_esc_byte: "list_all printable (esc_byte c)"
proof (cases rule: esc_byte_cases [of c])
  case (1 e)
  then show ?thesis using esc_byte_short [of c e] printable_escape_letters by simp
next
  case 2
  have "byte c div 16 < 16" using byte_less [of c] by (simp add: less_mult_imp_div_less)
  then show ?thesis unfolding 2 esc_u_def by (simp add: printable_hex printable_escape_letters)
next
  case 3
  then show ?thesis by (simp add: printable_def)
qed

lemma printable_esc_u: "list_all printable hex \<Longrightarrow> list_all printable (esc_u hex)"
  by (simp add: esc_u_def printable_def bslash_def byte_def)

lemma printable_esc_string: "list_all printable (esc_string s)"
proof (induction s rule: esc_string.induct)
  case (2 c cs)
  have u: "list_all printable (esc_u ''2028'')" "list_all printable (esc_u ''2029'')"
    "list_all printable (esc_u ''fffd'')"
    by (rule printable_esc_u; simp add: printable_def byte_def)+
  have "list_all printable (take (snd (decode_rune (c # cs))) (c # cs))" if "\<not> is_ascii c" "valid_head (c # cs)"
    using rune_bytes_high [of "c # cs"] that by (fastforce simp: list_all_iff printable_def)
  with 2 u show ?case
    by (subst esc_string.simps) (simp add: printable_esc_byte)
qed simp

lemma printable_quote: "list_all printable (quote s)"
  by (simp add: quote_def printable_esc_string) (simp add: printable_def dquote_def byte_def)

lemma printable_num_step: "num_step ns c = Some ns' \<Longrightarrow> printable c"
  by (cases "(ns, c)" rule: num_step.cases)
    (auto simp: printable_def is_digit_def byte_def split: if_splits)

lemma printable_num_run: "num_run ns cs = Some ns' \<Longrightarrow> list_all printable cs"
  by (induction ns cs rule: num_run.induct) (auto simp: printable_num_step split: option.splits)

lemma printable_number: "valid_number t \<Longrightarrow> list_all printable t"
  using printable_num_run
  by (fastforce simp: valid_number_def num_start_def printable_def is_digit_def byte_def
      split: list.splits option.splits if_splits)

lemma printable_marshal:
  "numbers_ok v \<Longrightarrow> list_all printable (marshal v)"
  "numbers_ok_elems vs \<Longrightarrow> list_all printable (marshal_elems vs)"
  "numbers_ok_members ms \<Longrightarrow> list_all printable (marshal_members ms)"
  by (induction v and vs and ms rule: marshal_marshal_elems_marshal_members.induct)
    (simp_all add: printable_quote printable_number, simp_all add: printable_def byte_def)

lemma printable_not_control: "list_all printable t \<Longrightarrow> CHR 0x0A \<notin> set t \<and> CHR 0x0D \<notin> set t"
  by (auto simp: list_all_iff printable_def byte_def)

end
