(* ===== verification/Subscriber.thy ===== *)
theory Subscriber
  imports Router Lines JsonLine
begin

text \<open>
  \<open>relay/subscriber.go\<close>: creating a stream subscription, reading the SSE stream into the router,
  and the reconnect loop with its back-off, a step relation whose steps are what can happen
  next: an attempt fails or succeeds, a wait ends, the context is cancelled. How a response
  body ends and when the context is seen cancelled are inputs.
\<close>

record subscriber =
  sub_url :: string
  sub_router :: router

definition new_subscriber :: "string \<Rightarrow> router \<Rightarrow> subscriber" where
  "new_subscriber receiver_url r = \<lparr>sub_url = trim_right receiver_url CHR ''/'', sub_router = r\<rparr>"

subsection \<open>Creating the stream\<close>

definition stream_json :: "subscriber \<Rightarrow> string list \<Rightarrow> json" where
  "stream_json sub types = JObj
     [(''transmitter_url'', JStr (sub_url sub)),
      (''event_types'', JArr (map JStr types)),
      (''enrollment_policy'', JStr ''implicit'')]"

definition dec_stream :: "string decoder" where
  "dec_stream = dec_struct [(''id'', dec_string)]"

definition create_stream :: "subscriber \<Rightarrow> string list \<Rightarrow> world \<Rightarrow> string result \<times> world" where
  "create_stream sub types w =
     (case new_request w ''POST'' (sub_url sub @ ''/v1/streams'') (marshal (stream_json sub types)) of
        Inl er \<Rightarrow> (Inl (EWrap ''build request: %w'' [] er), w)
      | Inr rq \<Rightarrow>
     (case http_do (set_header ''Content-Type'' ''application/json'' rq) w of
        (Inl er, w') \<Rightarrow> (Inl (EWrap ''POST /v1/streams: %w'' [] er), w')
      | (Inr resp, w') \<Rightarrow>
          (if rs_status resp \<noteq> 201
           then (Inl (EMsg ''POST /v1/streams: HTTP %d'' [itoa (rs_status resp)]), w')
           else
             (case decode_body dec_stream [] (rs_body resp) of
                None \<Rightarrow> (Inl (EWrap ''decode stream response: %w'' [] EJson), w')
              | Some i \<Rightarrow>
                  (if i = [] then (Inl (EMsg ''stream response missing id'' []), w')
                   else (Inr i, w'))))))"

subsection \<open>Reading the stream\<close>

text \<open>The default buffer of a \<open>bufio.Scanner\<close> and the \<open>io.LimitReader\<close> before it.\<close>

definition sse_scan_buf :: nat where
  "sse_scan_buf = 2 ^ 16"

definition sse_limit :: nat where
  "sse_limit = 2 ^ 23"

definition sse_payload :: "string \<Rightarrow> string option" where
  "sse_payload line =
     (if has_prefix line '':'' \<or> line = [] then None
      else if \<not> has_prefix line ''data: '' then None
      else Some (trim_prefix line ''data: ''))"

text \<open>One line; an error of the router is only logged.\<close>

definition sse_line :: "router \<Rightarrow> string \<Rightarrow> world \<Rightarrow> world" where
  "sse_line r line w =
     (case sse_payload line of
        None \<Rightarrow> w
      | Some payload \<Rightarrow>
          (case unmarshal dec_inbound zero_inbound payload of
             None \<Rightarrow> w
           | Some s \<Rightarrow> snd (handle r s w)))"

text \<open>The loop over the lines; \<open>cancelled k\<close> says what \<open>ctx.Err\<close> finds at line \<open>k\<close>.\<close>

fun sse_lines :: "router \<Rightarrow> (nat \<Rightarrow> bool) \<Rightarrow> nat \<Rightarrow> string list \<Rightarrow> world \<Rightarrow> bool \<times> world" where
  "sse_lines r cancelled k [] w = (False, w)"
| "sse_lines r cancelled k (l # ls) w =
     (if cancelled k then (True, w) else sse_lines r cancelled (Suc k) ls (sse_line r l w))"

definition sse_reads :: "string \<Rightarrow> ending \<Rightarrow> read list" where
  "sse_reads body fin =
     [(take sse_limit body, None), ([], Some (if sse_limit \<le> length body then Eof else fin))]"

definition scan_error :: "scan_end \<Rightarrow> err" where
  "scan_error e =
     (case e of
        TooLong \<Rightarrow> Some (EMsg ''bufio.Scanner: token too long'' [])
      | Ended (ReadError t) \<Rightarrow> Some (EEnv t)
      | _ \<Rightarrow> None)"

definition sse_url :: "subscriber \<Rightarrow> string \<Rightarrow> string" where
  "sse_url sub i = sub_url sub @ ''/v1/streams/'' @ i @ ''/events''"

definition read_sse :: "subscriber \<Rightarrow> ending \<Rightarrow> (nat \<Rightarrow> bool) \<Rightarrow> string \<Rightarrow> world \<Rightarrow> err \<times> world" where
  "read_sse sub fin cancelled i w =
     (case new_request w ''GET'' (sse_url sub i) [] of
        Inl er \<Rightarrow> (Some (EWrap ''build SSE request: %w'' [] er), w)
      | Inr rq \<Rightarrow>
     (case http_do (set_header ''Cache-Control'' ''no-cache'' (set_header ''Accept'' ''text/event-stream'' rq)) w of
        (Inl er, w') \<Rightarrow> (Some (EWrap ''GET %s: %w'' [sse_url sub i] er), w')
      | (Inr resp, w') \<Rightarrow>
          (if rs_status resp \<noteq> 200
           then (Some (EMsg ''GET %s: HTTP %d'' [sse_url sub i, itoa (rs_status resp)]), w')
           else
             (case scan_reads sse_scan_buf [] (sse_reads (rs_body resp) fin) of
                (ls, scanned) \<Rightarrow>
             (case sse_lines (sub_router sub) cancelled 0 ls w' of
                (True, w'') \<Rightarrow> (None, w'')
              | (False, w'') \<Rightarrow>
                  (case scan_error scanned of
                     Some er \<Rightarrow> (Some (EWrap ''SSE read error: %w'' [] er), w'')
                   | None \<Rightarrow> (Some (EMsg ''SSE stream closed'' []), w'')))))))"

subsection \<open>The reconnect loop\<close>

definition cap_duration :: "duration \<Rightarrow> duration \<Rightarrow> duration" where
  "cap_duration a b = (if sint a < sint b then a else b)"

definition initial_backoff :: duration where
  "initial_backoff = 2 * second"

definition max_backoff :: duration where
  "max_backoff = 60 * second"

text \<open>Where \<open>Run\<close> is: idle without sinks, about to connect, waiting, or returned (nil).\<close>

datatype sub_phase = Idle | Connect duration | Wait duration | Done

inductive sub_step :: "subscriber \<Rightarrow> string list \<Rightarrow> sub_phase \<times> world \<Rightarrow> sub_phase \<times> world \<Rightarrow> bool"
  for sub types where
  idle_cancelled: "sub_step sub types (Idle, w) (Done, w)"
| connect_cancelled: "sub_step sub types (Connect b, w) (Done, w)"
| connect_failed:
    "create_stream sub types w = (Inl er, w') \<Longrightarrow> sub_step sub types (Connect b, w) (Wait b, w')"
| connect_streamed:
    "create_stream sub types w = (Inr i, w1) \<Longrightarrow> read_sse sub fin cancelled i w1 = (er, w2) \<Longrightarrow>
     sub_step sub types (Connect b, w) (Wait initial_backoff, w2)"
| wait_cancelled: "sub_step sub types (Wait b, w) (Done, w)"
| wait_over:
    "sub_step sub types (Wait b, w) (Connect (cap_duration (b * 2) max_backoff), w)"

definition sub_start :: "string list \<Rightarrow> sub_phase" where
  "sub_start types = (if types = [] then Idle else Connect initial_backoff)"

inductive_cases connect_stepE: "sub_step sub types (Connect b, w) st"
inductive_cases wait_stepE: "sub_step sub types (Wait b, w) st"
inductive_simps idle_step_simps: "sub_step sub types (Idle, w) st"
inductive_simps done_step_simps: "sub_step sub types (Done, w) st"

definition sub_reachable :: "subscriber \<Rightarrow> string list \<Rightarrow> world \<Rightarrow> sub_phase \<times> world \<Rightarrow> bool" where
  "sub_reachable sub types w st \<longleftrightarrow> (sub_step sub types)\<^sup>*\<^sup>* (sub_start types, w) st"

text \<open>The delays the loop can be at: 2, 4, 8, 16, 32 and 60 seconds.\<close>

definition backoff_ok :: "duration \<Rightarrow> bool" where
  "backoff_ok b \<longleftrightarrow> b \<in> {2 * second, 4 * second, 8 * second, 16 * second, 32 * second, 60 * second}"

definition phase_ok :: "string list \<Rightarrow> sub_phase \<Rightarrow> bool" where
  "phase_ok types p \<longleftrightarrow>
     (case p of
        Idle \<Rightarrow> types = []
      | Connect b \<Rightarrow> types \<noteq> [] \<and> backoff_ok b
      | Wait b \<Rightarrow> types \<noteq> [] \<and> backoff_ok b
      | Done \<Rightarrow> True)"

lemma backoff_next: "backoff_ok b \<Longrightarrow> backoff_ok (cap_duration (b * 2) max_backoff)"
  by (auto simp: backoff_ok_def cap_duration_def max_backoff_def second_def)

lemma phase_ok_step:
  "sub_step sub types (p, w) (p', w') \<Longrightarrow> phase_ok types p \<Longrightarrow> phase_ok types p'"
  by (cases rule: sub_step.cases)
    (auto simp: phase_ok_def backoff_next, auto simp: backoff_ok_def initial_backoff_def)

lemma phase_ok_reachable: "sub_reachable sub types w st \<Longrightarrow> phase_ok types (fst st)"
  unfolding sub_reachable_def
proof (induction rule: rtranclp_induct)
  case base
  show ?case by (simp add: sub_start_def phase_ok_def backoff_ok_def initial_backoff_def)
next
  case (step st st')
  then show ?case using phase_ok_step [of sub types "fst st" "snd st" "fst st'" "snd st'"] by simp
qed

subsection \<open>A stream as the receiver writes it\<close>

datatype sse_item = KeepAlive string | Data inbound_set

fun item_line :: "sse_item \<Rightarrow> string" where
  "item_line (KeepAlive t) = '':'' @ t"
| "item_line (Data s) = ''data: '' @ marshal (inbound_json s)"

text \<open>Each item is a line followed by an empty one.\<close>

definition sse_body :: "sse_item list \<Rightarrow> string" where
  "sse_body items = unlines (concat (map (\<lambda>x. [item_line x, []]) items))"

definition item_ok :: "sse_item \<Rightarrow> bool" where
  "item_ok x \<longleftrightarrow> fits sse_scan_buf (item_line x) \<and> (case x of KeepAlive _ \<Rightarrow> True | Data s \<Rightarrow> inbound_ok s)"

definition item_sets :: "sse_item list \<Rightarrow> inbound_set list" where
  "item_sets items = List.map_filter (\<lambda>x. case x of KeepAlive _ \<Rightarrow> None | Data s \<Rightarrow> Some s) items"

lemma drop_cr_json: "drop_cr (t @ marshal (JObj ms)) = t @ marshal (JObj ms)"
  by (simp add: drop_cr_def)

lemma inbound_json_obj: "\<exists>ms. inbound_json s = JObj ms"
  by (simp add: inbound_json_def)

lemma sse_line_data:
  assumes "inbound_ok s"
  shows "sse_line r (drop_cr (item_line (Data s))) w = snd (handle r s w)"
proof -
  obtain ms where "inbound_json s = JObj ms" using inbound_json_obj by blast
  then have "drop_cr (item_line (Data s)) = ''data: '' @ marshal (inbound_json s)"
    by (simp only: item_line.simps drop_cr_json)
  then show ?thesis
    using unmarshal_inbound [OF assms]
    by (simp add: sse_line_def sse_payload_def has_prefix_def trim_prefix_def)
qed

lemma sse_line_comment: "sse_line r (drop_cr (item_line (KeepAlive t))) w = w"
  by (cases t rule: rev_cases) (auto simp: sse_line_def sse_payload_def has_prefix_def drop_cr_def)

lemma sse_lines_live: "sse_lines r (\<lambda>_. False) k ls w = (False, fold (sse_line r) ls w)"
  by (induction ls arbitrary: k w) auto

lemma sse_line_empty [simp]: "sse_line r (drop_cr []) w = w"
  by (simp add: sse_line_def sse_payload_def drop_cr_def)

lemma fold_sse_items:
  "list_all item_ok items \<Longrightarrow>
   fold (sse_line r) (map drop_cr (concat (map (\<lambda>x. [item_line x, []]) items))) w =
     fold (\<lambda>s w. snd (handle r s w)) (item_sets items) w"
proof (induction items arbitrary: w)
  case (Cons x items)
  then show ?case
    by (cases x)
      (simp_all add: item_ok_def item_sets_def map_filter_simps sse_line_data sse_line_comment
        del: item_line.simps)
qed (simp add: item_sets_def map_filter_simps)

lemma scan_sse_body:
  assumes "list_all item_ok items" "length (sse_body items) \<le> sse_limit"
  shows "scan_reads sse_scan_buf [] (sse_reads (sse_body items) Eof) =
    (map drop_cr (concat (map (\<lambda>x. [item_line x, []]) items)), Ended Eof)"
proof -
  let ?L = "concat (map (\<lambda>x. [item_line x, []]) items)"
  have "list_all (fits sse_scan_buf) ?L"
    using assms(1) by (induction items) (auto simp: item_ok_def fits_def sse_scan_buf_def)
  moreover have "fits sse_scan_buf []" by (simp add: fits_def sse_scan_buf_def)
  moreover have "concat [take sse_limit (sse_body items)] = unlines ?L @ []"
    using assms(2) by (simp add: sse_body_def)
  ultimately show ?thesis
    using scan_fitting [of sse_scan_buf ?L "[]" "[take sse_limit (sse_body items)]" Eof]
    by (simp add: sse_reads_def chunks_def)
qed

definition sse_request :: "subscriber \<Rightarrow> string \<Rightarrow> request" where
  "sse_request sub i =
     \<lparr>rq_method = ''GET'', rq_url = sse_url sub i,
      rq_headers = [(''Accept'', ''text/event-stream''), (''Cache-Control'', ''no-cache'')], rq_body = []\<rparr>"


lemma read_sse_items:
  assumes "url_ok w (sse_url sub i)"
    and "server w (sent w) (sse_request sub i) = Inr \<lparr>rs_status = 200, rs_body = sse_body items\<rparr>"
    and "list_all item_ok items" "length (sse_body items) \<le> sse_limit"
  shows "read_sse sub Eof (\<lambda>_. False) i w =
    (Some (EMsg ''SSE stream closed'' []),
     fold (\<lambda>s w. snd (handle (sub_router sub) s w)) (item_sets items)
       (w\<lparr>sent := sent w @ [sse_request sub i]\<rparr>))"
  using assms(1,2) scan_sse_body [OF assms(3,4)]
  by (simp add: read_sse_def new_request_def set_header_def http_do_def sse_request_def sse_lines_live
      fold_sse_items [OF assms(3)] scan_error_def)

subsection \<open>Properties\<close>



text \<open>C10: Nothing of a well-formed stream is lost: when the receiver sends keep-alive comments and
  SETs as JSON data lines, each line below 64 KiB and the whole stream at most 8 MiB, the
  reader hands exactly these SETs to the router, in order, and then reports that the stream
  closed.\<close>

theorem sse_dispatches_sets:
  assumes "url_ok w (sse_url sub i)"
    and "server w (sent w) (sse_request sub i) = Inr \<lparr>rs_status = 200, rs_body = sse_body items\<rparr>"
    and "list_all item_ok items" "length (sse_body items) \<le> sse_limit"
  shows "read_sse sub Eof (\<lambda>_. False) i w =
    (Some (EMsg ''SSE stream closed'' []),
     fold (\<lambda>s w. snd (handle (sub_router sub) s w)) (item_sets items)
       (w\<lparr>sent := sent w @ [sse_request sub i]\<rparr>))"
  using assms by (rule read_sse_items)

theorem sse_dispatches_sets_witness:
  "let sub = new_subscriber ''http://r'' new_router;
       w = example_world 200 (sse_body [KeepAlive ''hb'', Data (zero_inbound\<lparr>in_event_type := ''t''\<rparr>)])
   in fst (read_sse sub Eof (\<lambda>_. False) ''i'' w) = Some (EMsg ''SSE stream closed'' [])"
proof -
  let ?sub = "new_subscriber ''http://r'' new_router"
  let ?items = "[KeepAlive ''hb'', Data (zero_inbound\<lparr>in_event_type := ''t''\<rparr>)]"
  let ?w = "example_world 200 (sse_body ?items)"
  have line: "item_line (Data (zero_inbound\<lparr>in_event_type := ''t''\<rparr>)) = ''data: {\"event_type\":\"t\"}''"
    by code_simp
  have ok: "inbound_ok (zero_inbound\<lparr>in_event_type := ''t''\<rparr>)"
    by (simp add: inbound_ok_def zero_inbound_def valid_utf8_def is_ascii_def byte_def max_depth_def)
  have "list_all item_ok ?items"
    by (simp add: item_ok_def fits_def sse_scan_buf_def nl_def ok line del: item_line.simps(2))
  moreover have "length (sse_body ?items) \<le> sse_limit"
    by (simp add: sse_body_def sse_limit_def line del: item_line.simps(2))
  moreover have "url_ok ?w (sse_url ?sub ''i'')"
    "server ?w (sent ?w) (sse_request ?sub ''i'') = Inr \<lparr>rs_status = 200, rs_body = sse_body ?items\<rparr>"
    by (simp_all add: example_world_def sse_url_def)
  ultimately show ?thesis using sse_dispatches_sets [of ?w ?sub "''i''" ?items] by (simp add: Let_def)
qed

lemma create_stream_500:
  "create_stream (new_subscriber [] new_router) [''t''] (example_world 500 []) =
     (Inl (EMsg ''POST /v1/streams: HTTP %d'' [itoa 500]),
      snd (create_stream (new_subscriber [] new_router) [''t''] (example_world 500 [])))"
  by (simp add: create_stream_def new_request_def set_header_def http_do_def example_world_def)

text \<open>C34: The waits of the reconnect loop are 2, 4, 8, 16, 32 or 60 seconds in every reachable state,
  it is idle only without event types, and a wait that follows a created stream is 2 seconds,
  however the stream ended; only failed attempts lengthen the wait.\<close>

theorem backoff_bounded:
  assumes "sub_reachable sub types w (p, w1)"
  shows "phase_ok types p \<and>
    (\<forall>b b' w2. p = Connect b \<longrightarrow> sub_step sub types (p, w1) (Wait b', w2) \<longrightarrow>
       (b' = b \<and> (\<exists>er. create_stream sub types w1 = (Inl er, w2))) \<or>
       (b' = 2 * second \<and> (\<exists>i. fst (create_stream sub types w1) = Inr i)))"
  using phase_ok_reachable [OF assms]
  by (auto simp: initial_backoff_def elim!: connect_stepE)

theorem backoff_bounded_witness:
  "phase_ok [''t''] (Wait initial_backoff)"
proof -
  let ?sub = "new_subscriber [] new_router"
  have "sub_step ?sub [''t''] (sub_start [''t''], example_world 500 [])
      (Wait initial_backoff, snd (create_stream ?sub [''t''] (example_world 500 [])))"
    unfolding sub_start_def using create_stream_500 by (auto intro: connect_failed)
  then have "sub_reachable ?sub [''t''] (example_world 500 [])
      (Wait initial_backoff, snd (create_stream ?sub [''t''] (example_world 500 [])))"
    unfolding sub_reachable_def by blast
  from backoff_bounded [OF this] show ?thesis by simp
qed

definition failed_round :: "subscriber \<Rightarrow> string list \<Rightarrow> duration \<times> world \<Rightarrow> duration \<times> world \<Rightarrow> bool" where
  "failed_round sub types x y \<longleftrightarrow>
     (\<exists>er. create_stream sub types (snd x) = (Inl er, snd y)) \<and>
     sub_step sub types (Connect (fst x), snd x) (Wait (fst x), snd y) \<and>
     sub_step sub types (Wait (fst x), snd y) (Connect (fst y), snd y)"

lemma backoff_double:
  "sint ((b :: duration)) = min 60 (2 ^ Suc n) * 1000000000 \<Longrightarrow>
   sint (cap_duration (b * 2) max_backoff) = min 60 (2 ^ Suc (Suc n)) * 1000000000"
proof -
  assume a: "sint b = min 60 (2 ^ Suc n) * 1000000000"
  have "b * 2 = word_of_int (sint b * 2)" by (simp flip: wi_hom_mult)
  then have "sint (b * 2) = signed_take_bit 63 (sint b * 2)" by (simp only: sint_duration)
  moreover have "(0 :: int) \<le> sint b * 2" "sint b * 2 \<le> 120000000000" using a by simp_all
  ultimately have "sint (b * 2) = sint b * 2"
    by (simp add: signed_take_bit_int_eq_self_iff)
  then show ?thesis
    using a by (simp add: cap_duration_def max_backoff_def second_def min_def)
qed

text \<open>C30: The back-off doubles: after \<open>n\<close> failed attempts in a row since the start the next wait is
  the smaller of sixty seconds and \<open>2 ^ (n + 1)\<close> seconds.\<close>

theorem backoff_schedule:
  assumes "(failed_round sub types ^^ n) (initial_backoff, w) (b, w')"
  shows "sint b = min 60 (2 ^ Suc n) * 1000000000"
  using assms
proof (induction n arbitrary: b w')
  case 0
  then show ?case by (simp add: initial_backoff_def second_def)
next
  case (Suc n)
  then obtain b1 w1 where "(failed_round sub types ^^ n) (initial_backoff, w) (b1, w1)"
    "failed_round sub types (b1, w1) (b, w')" by auto
  moreover from this(2) have "b = cap_duration (b1 * 2) max_backoff"
    by (auto simp: failed_round_def elim: wait_stepE)
  ultimately show ?case using Suc.IH backoff_double by simp
qed

theorem backoff_schedule_witness:
  "sint (cap_duration (initial_backoff * 2) max_backoff) = 4000000000"
proof -
  let ?sub = "new_subscriber [] new_router"
  let ?w = "snd (create_stream ?sub [''t''] (example_world 500 []))"
  have "failed_round ?sub [''t''] (initial_backoff, example_world 500 [])
      (cap_duration (initial_backoff * 2) max_backoff, ?w)"
    unfolding failed_round_def using create_stream_500
    by (auto intro: connect_failed wait_over)
  then have "(failed_round ?sub [''t''] ^^ 1) (initial_backoff, example_world 500 [])
      (cap_duration (initial_backoff * 2) max_backoff, ?w)" by (simp only: relpowp_1)
  from backoff_schedule [OF this] show ?thesis by simp
qed

end
