(* ===== verification/Relay_Main.thy ===== *)
theory Relay_Main
  imports Manager Subscriber
begin

text \<open>
  \<open>cmd/ssf-relay/main.go\<close>: from the command line to the running relay, and its exit code. One
  adapter is built per action, from the first sink that names it. The JWKS endpoint is the
  address and the body it serves.
\<close>

text \<open>Leaving with status 1 (the usage message, or a logged error), or up and running.\<close>

datatype 'a startup = Usage | Failed string go_error | Started 'a

definition load_key :: "('k, 'j) crypto \<Rightarrow> ssf_config \<Rightarrow> world \<Rightarrow> 'k signing_key option startup" where
  "load_key cr c w =
     (case resolve_pem c w of
        Inl er \<Rightarrow> Failed ''failed to read signing key'' er
      | Inr None \<Rightarrow> Started None
      | Inr (Some pem) \<Rightarrow>
          (case load_signing_key cr pem of
             Inl er \<Rightarrow> Failed ''failed to parse signing key'' er
           | Inr key \<Rightarrow> Started (Some key)))"

definition jwks_body :: "'k signing_key \<Rightarrow> string" where
  "jwks_body key = ''{\"keys\":['' @ public_jwk key @ '']}''"

definition jwks_endpoint :: "ssf_config \<Rightarrow> 'k signing_key option \<Rightarrow> (string \<times> string) option" where
  "jwks_endpoint c key =
     (case key of
        None \<Rightarrow> None
      | Some k \<Rightarrow> (if jwks_addr c \<noteq> [] then Some (jwks_addr c, jwks_body k) else None))"

fun add_sinks :: "(string \<Rightarrow> config_map \<Rightarrow> adapter result) \<Rightarrow> string list \<Rightarrow> sink_config list \<Rightarrow> router \<Rightarrow> router result" where
  "add_sinks build seen [] r = Inr r"
| "add_sinks build seen (sink # sinks) r =
     (if sink_action sink \<in> set seen then add_sinks build seen sinks r
      else
        (case build (sink_action sink) (sink_options sink) of
           Inl er \<Rightarrow> Inl er
         | Inr a \<Rightarrow> add_sinks build (sink_action sink # seen) sinks (register_adapter a r)))"

record 'k relay =
  rl_config :: config
  rl_emitter :: "'k emitter"
  rl_jwks :: "(string \<times> string) option"
  rl_subscriber :: subscriber

definition main_start :: "externs \<Rightarrow> ('k, 'j) crypto \<Rightarrow> (string \<Rightarrow> string + config) \<Rightarrow> string list \<Rightarrow> world \<Rightarrow> 'k relay startup" where
  "main_start ext cr yaml args w =
     (case args of
        prog # path # _ \<Rightarrow>
          (case load_config yaml w path of
             Inl er \<Rightarrow> Failed ''failed to load config'' er
           | Inr cfg \<Rightarrow>
          (case load_key cr (cfg_ssf cfg) w of
             Usage \<Rightarrow> Usage
           | Failed msg er \<Rightarrow> Failed msg er
           | Started key \<Rightarrow>
          (case add_sinks (build_action ext w) [] (cfg_sinks cfg) new_router of
             Inl er \<Rightarrow> Failed ''failed to build action adapter'' er
           | Inr r \<Rightarrow>
               Started
                 \<lparr>rl_config = cfg,
                  rl_emitter = new_emitter (receiver_url (cfg_ssf cfg)) (issuer (cfg_ssf cfg))
                    (timeout_secs (cfg_ssf cfg)) key,
                  rl_jwks = jwks_endpoint (cfg_ssf cfg) key,
                  rl_subscriber = new_subscriber (receiver_url (cfg_ssf cfg)) r\<rparr>)))
      | _ \<Rightarrow> Usage)"

text \<open>The results of the manager and the subscriber, in the order in which they arrive.\<close>

fun exit_code :: "err list \<Rightarrow> int" where
  "exit_code [] = 0"
| "exit_code (Some er # rs) = 1"
| "exit_code (None # rs) = exit_code rs"

subsection \<open>Sinks\<close>

fun first_sinks :: "string list \<Rightarrow> sink_config list \<Rightarrow> sink_config list" where
  "first_sinks seen [] = []"
| "first_sinks seen (sink # sinks) =
     (if sink_action sink \<in> set seen then first_sinks seen sinks
      else sink # first_sinks (sink_action sink # seen) sinks)"

lemma first_sinks_distinct:
  "distinct (map sink_action (first_sinks seen sinks)) \<and>
   sink_action ` set (first_sinks seen sinks) = sink_action ` set sinks - set seen"
  by (induction sinks arbitrary: seen) auto

lemma add_sinks_Inr:
  "add_sinks build seen sinks r = Inr r' \<longleftrightarrow>
   (\<exists>as. map (\<lambda>s. build (sink_action s) (sink_options s)) (first_sinks seen sinks) = map Inr as \<and>
      r' = fold register_adapter as r)"
proof (induction build seen sinks r rule: add_sinks.induct)
  case (1 build seen r)
  then show ?case by auto
next
  case (2 build seen sink sinks r)
  show ?case
  proof (cases "sink_action sink \<in> set seen")
    case True
    with 2(1) show ?thesis by simp
  next
    case False
    let ?rest = "map (\<lambda>s. build (sink_action s) (sink_options s)) (first_sinks (sink_action sink # seen) sinks)"
    show ?thesis
    proof (cases "build (sink_action sink) (sink_options sink)")
      case (Inl er)
      with False show ?thesis by (simp add: Cons_eq_map_conv)
    next
      case (Inr a)
      have "(\<exists>as. Inr a # ?rest = map Inr as \<and> r' = fold register_adapter as r) \<longleftrightarrow>
          (\<exists>as. ?rest = map Inr as \<and> r' = fold register_adapter as (register_adapter a r))"
        unfolding Cons_eq_map_conv by auto
      with 2(2) [OF False Inr] False Inr show ?thesis by simp
    qed
  qed
qed

lemma add_sinks_event_type:
  "add_sinks build seen (map (\<lambda>s. s\<lparr>sink_event_type := f s\<rparr>) sinks) r = add_sinks build seen sinks r"
  by (induction build seen sinks r rule: add_sinks.induct) (auto split: sum.split)

lemma route_adapters:
  "a \<in> set (route (fold register_adapter as new_router) et) \<Longrightarrow> a \<in> set as"
  using registered_router [OF router_ok_new, of as et] by auto

context action_builder
begin

text \<open>Every adapter of a router that was built from sinks keeps the contract.\<close>

lemma sinks_contract:
  assumes "add_sinks build [] sinks new_router = Inr r" "a \<in> set (route r et)"
  shows "action_adapter (ad_act a) bound"
proof -
  from assms(1) obtain as where
    as: "map (\<lambda>s. build (sink_action s) (sink_options s)) (first_sinks [] sinks) = map Inr as"
    "r = fold register_adapter as new_router" by (auto simp: add_sinks_Inr)
  with assms(2) have "a \<in> set as" using route_adapters by blast
  then have "Inr a \<in> set (map (\<lambda>s. build (sink_action s) (sink_options s)) (first_sinks [] sinks))"
    by (simp add: as(1))
  then show ?thesis by (auto dest!: sym [of "Inr a"] intro: built)
qed

text \<open>So dispatching a SET makes a bounded number of requests, whatever the sinks are.\<close>

lemma sinks_dispatch:
  assumes "add_sinks build [] sinks new_router = Inr r"
  shows "\<exists>rqs. snd (handle r s w) = w\<lparr>sent := sent w @ rqs\<rparr> \<and>
    length rqs \<le> bound * length (route r (in_event_type s)) \<and>
    (fst (handle r s w) = None \<longrightarrow> answered (server w) (sent w) rqs)"
  using run_adapters_ok [of "route r (in_event_type s)" bound s w] sinks_contract [OF assms]
  by (auto simp: handle_def Let_def split: prod.split intro: exI [of _ "[]"])

end

subsection \<open>Properties\<close>

text \<open>C36: Sinks: one adapter is registered per action, in the order in which the actions first
  appear, each with the options of its first sink; building fails exactly when one of these
  fails, later sinks of the same action are never looked at, and the event type a sink names
  has no influence.\<close>

theorem sinks_first_wins:
  "(add_sinks build [] sinks new_router = Inr r \<longleftrightarrow>
      (\<exists>as. map (\<lambda>s. build (sink_action s) (sink_options s)) (first_sinks [] sinks) = map Inr as \<and>
         r = fold register_adapter as new_router)) \<and>
   distinct (map sink_action (first_sinks [] sinks)) \<and>
   sink_action ` set (first_sinks [] sinks) = sink_action ` set sinks \<and>
   add_sinks build [] (map (\<lambda>s. s\<lparr>sink_event_type := f s\<rparr>) sinks) new_router =
     add_sinks build [] sinks new_router"
  using add_sinks_Inr [of build "[]" sinks new_router r] first_sinks_distinct [of "[]" sinks]
  by (simp add: add_sinks_event_type)

text \<open>C37: Start-up: when the relay comes up, its configuration was read from the file named first
  on the command line, its request timeout is positive (five seconds when none was
  configured), deliveries are signed exactly when a key is configured, the public key is
  served exactly when there is one and an address for it, every action named by a sink was
  built, and the subscriber's address has no trailing slash.\<close>

theorem relay_startup:
  assumes "main_start ext cr yaml args w = Started rl"
  shows "\<exists>prog path rest key as.
    args = prog # path # rest \<and> load_config yaml w path = Inr (rl_config rl) \<and>
    rl_emitter rl = new_emitter (receiver_url (cfg_ssf (rl_config rl))) (issuer (cfg_ssf (rl_config rl)))
      (timeout_secs (cfg_ssf (rl_config rl))) key \<and>
    0 < timeout_secs (cfg_ssf (rl_config rl)) \<and>
    (key = None \<longleftrightarrow> signing_key_pem (cfg_ssf (rl_config rl)) = [] \<and>
       signing_key_pem_file (cfg_ssf (rl_config rl)) = []) \<and>
    (rl_jwks rl = None \<longleftrightarrow> key = None \<or> jwks_addr (cfg_ssf (rl_config rl)) = []) \<and>
    map (\<lambda>s. build_action ext w (sink_action s) (sink_options s)) (first_sinks [] (cfg_sinks (rl_config rl))) =
      map Inr as \<and>
    sub_router (rl_subscriber rl) = fold register_adapter as new_router \<and>
    sub_url (rl_subscriber rl) = trim_right (receiver_url (cfg_ssf (rl_config rl))) CHR ''/''"
proof -
  from assms obtain prog path rest cfg key r where
    a: "args = prog # path # rest" "load_config yaml w path = Inr cfg"
    "load_key cr (cfg_ssf cfg) w = Started key"
    "add_sinks (build_action ext w) [] (cfg_sinks cfg) new_router = Inr r"
    "rl = \<lparr>rl_config = cfg,
       rl_emitter = new_emitter (receiver_url (cfg_ssf cfg)) (issuer (cfg_ssf cfg)) (timeout_secs (cfg_ssf cfg)) key,
       rl_jwks = jwks_endpoint (cfg_ssf cfg) key,
       rl_subscriber = new_subscriber (receiver_url (cfg_ssf cfg)) r\<rparr>"
    by (auto simp: main_start_def split: list.splits sum.splits startup.splits)
  have "key = None \<longleftrightarrow> signing_key_pem (cfg_ssf cfg) = [] \<and> signing_key_pem_file (cfg_ssf cfg) = []"
    using a(3) resolve_pem_None [of "cfg_ssf cfg" w]
    by (auto simp: load_key_def split: sum.splits option.splits)
  moreover have "jwks_endpoint (cfg_ssf cfg) key = None \<longleftrightarrow> key = None \<or> jwks_addr (cfg_ssf cfg) = []"
    by (simp add: jwks_endpoint_def split: option.split)
  moreover obtain as where
    "map (\<lambda>s. build_action ext w (sink_action s) (sink_options s)) (first_sinks [] (cfg_sinks cfg)) = map Inr as"
    "r = fold register_adapter as new_router" using a(4) by (auto simp: add_sinks_Inr)
  ultimately show ?thesis
    using a load_config_timeout [OF a(2)]
    by (intro exI [of _ prog] exI [of _ path] exI [of _ rest] exI [of _ key] exI [of _ as])
      (simp add: new_subscriber_def)
qed

definition example_config :: config where
  "example_config =
     \<lparr>cfg_ssf = \<lparr>receiver_url = ''http://r/'', issuer = ''relay'', timeout_secs = 0,
        signing_key_pem_file = [], signing_key_pem = [], jwks_addr = []\<rparr>,
      cfg_sources = [],
      cfg_sinks = [\<lparr>sink_event_type = ''a'', sink_action = ''vault'', sink_options = []\<rparr>,
        \<lparr>sink_event_type = ''b'', sink_action = ''vault'', sink_options = []\<rparr>]\<rparr>"

definition example_externs :: externs where
  "example_externs = \<lparr>ext_certs_ok = (\<lambda>_. True), ext_template = (\<lambda>_ _. ParseError []),
     ext_number = id, ext_order = id\<rparr>"

theorem relay_startup_witness:
  "\<exists>rl. main_start example_externs example_crypto (\<lambda>_. Inr example_config) [''ssf-relay'', ''token'']
      (example_world 200 []) = Started rl \<and>
    sub_url (rl_subscriber rl) = ''http://r'' \<and> timeout_secs (cfg_ssf (rl_config rl)) = 5"
proof -
  have "build_action example_externs (example_world 200 []) ''vault'' [] =
      Inr (vault_adapter (new_vault_action []))"
    by (simp add: build_action_def registry_build_def action_registry_started(2) action_inits_def)
  then obtain rl where rl: "main_start example_externs example_crypto (\<lambda>_. Inr example_config)
      [''ssf-relay'', ''token''] (example_world 200 []) = Started rl"
    by (simp add: main_start_def load_config_def load_key_def resolve_pem_def example_config_def
        example_world_def)
  let ?c = "example_config\<lparr>cfg_ssf := (cfg_ssf example_config)\<lparr>timeout_secs := 5\<rparr>\<rparr>"
  have "load_config (\<lambda>_. Inr example_config) (example_world 200 []) ''token'' = Inr ?c"
    by (simp add: load_config_def example_config_def example_world_def)
  with relay_startup [OF rl] have c: "rl_config rl = ?c"
    "sub_url (rl_subscriber rl) = trim_right (receiver_url (cfg_ssf (rl_config rl))) CHR ''/''" by auto
  have "trim_right (receiver_url (cfg_ssf ?c)) CHR ''/'' = ''http://r''" "timeout_secs (cfg_ssf ?c) = 5"
    by (simp_all add: example_config_def trim_right_def)
  with rl c show ?thesis by auto
qed

end
