(* ===== verification/Manager_Run.thy ===== *)
theory Manager_Run
  imports Manager
begin

text \<open>
  The goroutines of \<open>Manager.Run\<close> as a machine: one per started source, and for a socket one
  more per connection. A label says which goroutine moves and what the system hands it;
  goroutines move in any order and share the network (the world). Between two reads a
  goroutine posts the events of what it has read, one request at a time (\<open>th_queue\<close>). The goroutine that closes a listener or a
  connection on cancellation is the label \<open>CloseFd\<close>. The
  fields \<open>th_ticks\<close>, \<open>th_reads\<close> and \<open>m_posted\<close> only record what happened: the inputs each
  goroutine consumed, and which goroutine posted which event. The abstract specification are
  the sequential readers \<open>tail_file\<close> and \<open>handle_conn\<close>: every interleaving refines them.
\<close>

subsection \<open>The machine\<close>

text \<open>
  Where a goroutine is: in \<open>Tail\<close>, in \<open>net.Listen\<close>, in the accept loop, in \<open>wg.Wait\<close> after
  it, in the handler of a connection of listener \<open>k\<close>, or returned.
\<close>

datatype reader =
    FileReader tail_state
  | Binding
  | Accepting
  | Draining
  | ListenerDone err
  | ConnReader nat string
  | ConnDone nat

text \<open>\<open>th_closed\<close>: the goroutine beside an accept loop or a handler has closed its listener or connection.\<close>

record thread =
  th_source :: source_config
  th_parse :: line_parser
  th_reader :: reader
  th_closed :: bool
  th_queue :: "event list"
  th_ticks :: "tail_event list"
  th_reads :: "read list"

record manager_state =
  m_threads :: "thread list"
  m_cancelled :: bool
  m_finished :: "(string \<times> err) list"
  m_posted :: "(nat \<times> stamp \<times> event) list"
  m_world :: world

datatype label =
    CancelCtx
  | Post nat stamp
  | TailInput nat tail_event
  | ListenResult nat "string option"
  | AcceptConn nat
  | AcceptFailed nat
  | ConnInput nat read
  | ConnsDone nat
  | CloseFd nat

definition start_reader :: "source_config \<Rightarrow> reader" where
  "start_reader sc = (if transport_of sc = ''socket'' then Binding else FileReader Unopened)"

definition new_thread :: "source_config \<Rightarrow> line_parser \<Rightarrow> reader \<Rightarrow> thread" where
  "new_thread sc parse rd =
     \<lparr>th_source = sc, th_parse = parse, th_reader = rd, th_closed = False, th_queue = [], th_ticks = [], th_reads = []\<rparr>"

definition manager_start :: "(source_config \<times> line_parser) list \<Rightarrow> world \<Rightarrow> manager_state" where
  "manager_start started w =
     \<lparr>m_threads = map (\<lambda>(sc, parse). new_thread sc parse (start_reader sc)) started,
      m_cancelled = False, m_finished = [], m_posted = [], m_world = w\<rparr>"

definition set_thread :: "nat \<Rightarrow> thread \<Rightarrow> manager_state \<Rightarrow> manager_state" where
  "set_thread k t m = m\<lparr>m_threads := (m_threads m)[k := t]\<rparr>"

definition finish :: "thread \<Rightarrow> err \<Rightarrow> manager_state \<Rightarrow> manager_state" where
  "finish t er m = m\<lparr>m_finished := m_finished m @ [(src_name (th_source t), er)]\<rparr>"

definition conn_done :: "nat \<Rightarrow> thread \<Rightarrow> bool" where
  "conn_done k t \<longleftrightarrow>
     (case th_reader t of
        ConnReader j p \<Rightarrow> j \<noteq> k
      | ConnDone j \<Rightarrow> j = k \<longrightarrow> th_queue t = []
      | _ \<Rightarrow> True)"

definition tail_input :: "nat \<Rightarrow> thread \<Rightarrow> tail_event \<Rightarrow> manager_state \<Rightarrow> manager_state option" where
  "tail_input k t ev m =
     (case th_reader t of
        FileReader (Stopped er) \<Rightarrow> None
      | FileReader st \<Rightarrow>
          (if th_queue t = [] \<and> (ev = Cancel \<longrightarrow> m_cancelled m \<and> st \<noteq> Unopened) then
             (case tail_step (th_parse t) (src_path (th_source t)) st ev of
                (st', evs) \<Rightarrow>
                  (let m' = set_thread k
                       (t\<lparr>th_reader := FileReader st', th_queue := evs, th_ticks := th_ticks t @ [ev]\<rparr>) m
                   in Some (case st' of Stopped er \<Rightarrow> finish t er m' | _ \<Rightarrow> m')))
           else None)
      | _ \<Rightarrow> None)"

text \<open>A read of a connection its goroutine has closed fails.\<close>

definition conn_input :: "nat \<Rightarrow> thread \<Rightarrow> read \<Rightarrow> manager_state \<Rightarrow> manager_state option" where
  "conn_input k t rd m =
     (case th_reader t of
        ConnReader j p \<Rightarrow>
          (if th_queue t = [] \<and> (th_closed t \<longrightarrow> rd = closed_read) then
             (case scan_reads socket_scan_buf p [rd] of
                (ls, r) \<Rightarrow>
                  Some (set_thread k
                    (t\<lparr>th_reader := (case r of Reading p' \<Rightarrow> ConnReader j p' | _ \<Rightarrow> ConnDone j),
                       th_queue := line_events (th_parse t) ls, th_reads := th_reads t @ [rd]\<rparr>) m))
           else None)
      | _ \<Rightarrow> None)"

definition listen_result :: "nat \<Rightarrow> thread \<Rightarrow> string option \<Rightarrow> manager_state \<Rightarrow> manager_state" where
  "listen_result k t r m =
     (case r of
        None \<Rightarrow> set_thread k (t\<lparr>th_reader := Accepting\<rparr>) m
      | Some txt \<Rightarrow>
          (let er = Some (EWrap ''socket listen %q: %w'' [src_path (th_source t)] (EEnv txt))
           in finish t er (set_thread k (t\<lparr>th_reader := ListenerDone er\<rparr>) m)))"

text \<open>
  The closing goroutine of a listener or a connection: it waits for the context; when the
  accept loop or the handler is over, closing changes nothing any more.
\<close>

definition closable :: "thread \<Rightarrow> bool" where
  "closable t \<longleftrightarrow> \<not> th_closed t \<and>
     (case th_reader t of Accepting \<Rightarrow> True | ConnReader _ _ \<Rightarrow> True | _ \<Rightarrow> False)"

definition close_fd :: "nat \<Rightarrow> thread \<Rightarrow> manager_state \<Rightarrow> manager_state option" where
  "close_fd k t m =
     (if m_cancelled m \<and> closable t
      then Some (set_thread k (t\<lparr>th_closed := True\<rparr>) m) else None)"

definition post_event :: "('k, 'j) crypto \<Rightarrow> 'k emitter \<Rightarrow> nat \<Rightarrow> stamp \<Rightarrow> thread \<Rightarrow> manager_state \<Rightarrow> manager_state option" where
  "post_event cr em k st t m =
     (case th_queue t of
        [] \<Rightarrow> None
      | e # es \<Rightarrow>
          Some ((set_thread k (t\<lparr>th_queue := es\<rparr>) m)
            \<lparr>m_world := on_event cr em (src_name (th_source t)) st e (m_world m),
             m_posted := m_posted m @ [(k, st, e)]\<rparr>))"

definition thread_at :: "manager_state \<Rightarrow> nat \<Rightarrow> thread option" where
  "thread_at m k = (if k < length (m_threads m) then Some (m_threads m ! k) else None)"

fun label_thread :: "label \<Rightarrow> nat option" where
  "label_thread CancelCtx = None"
| "label_thread (Post k _) = Some k"
| "label_thread (TailInput k _) = Some k"
| "label_thread (ListenResult k _) = Some k"
| "label_thread (AcceptConn k) = Some k"
| "label_thread (AcceptFailed k) = Some k"
| "label_thread (ConnInput k _) = Some k"
| "label_thread (ConnsDone k) = Some k"
| "label_thread (CloseFd k) = Some k"

text \<open>What goroutine \<open>k\<close>, which is \<open>t\<close>, does; \<open>None\<close> when it cannot do this now.\<close>

fun thread_step :: "('k, 'j) crypto \<Rightarrow> 'k emitter \<Rightarrow> label \<Rightarrow> nat \<Rightarrow> thread \<Rightarrow> manager_state \<Rightarrow> manager_state option" where
  "thread_step cr em CancelCtx k t m = None"
| "thread_step cr em (Post _ st) k t m = post_event cr em k st t m"
| "thread_step cr em (TailInput _ ev) k t m = tail_input k t ev m"
| "thread_step cr em (ListenResult _ r) k t m =
     (if th_reader t = Binding then Some (listen_result k t r m) else None)"
| "thread_step cr em (AcceptConn _) k t m =
     (if th_reader t = Accepting \<and> \<not> th_closed t
      then Some (m\<lparr>m_threads := m_threads m @ [new_thread (th_source t) (th_parse t) (ConnReader k [])]\<rparr>)
      else None)"
| "thread_step cr em (AcceptFailed _) k t m =
     (if th_reader t = Accepting
      then Some (if m_cancelled m then set_thread k (t\<lparr>th_reader := Draining\<rparr>) m else m) else None)"
| "thread_step cr em (ConnInput _ rd) k t m = conn_input k t rd m"
| "thread_step cr em (ConnsDone _) k t m =
     (if th_reader t = Draining \<and> list_all (conn_done k) (m_threads m)
      then Some (finish t None (set_thread k (t\<lparr>th_reader := ListenerDone None\<rparr>) m)) else None)"
| "thread_step cr em (CloseFd _) k t m = close_fd k t m"

definition mgr_step :: "('k, 'j) crypto \<Rightarrow> 'k emitter \<Rightarrow> label \<Rightarrow> manager_state \<Rightarrow> manager_state option" where
  "mgr_step cr em l m =
     (case label_thread l of
        None \<Rightarrow> Some (m\<lparr>m_cancelled := True\<rparr>)
      | Some k \<Rightarrow> (case thread_at m k of None \<Rightarrow> None | Some t \<Rightarrow> thread_step cr em l k t m))"

inductive mgr_reach :: "('k, 'j) crypto \<Rightarrow> 'k emitter \<Rightarrow> manager_state \<Rightarrow> manager_state \<Rightarrow> bool"
  for cr em m where
  here: "mgr_reach cr em m m"
| step: "mgr_reach cr em m m' \<Longrightarrow> mgr_step cr em l m' = Some m'' \<Longrightarrow> mgr_reach cr em m m''"

text \<open>\<open>wg.Wait\<close>: the goroutines of the sources have returned.\<close>

definition source_done :: "thread \<Rightarrow> bool" where
  "source_done t \<longleftrightarrow>
     (case th_reader t of
        FileReader st \<Rightarrow> (case st of Stopped _ \<Rightarrow> True | _ \<Rightarrow> False)
      | ListenerDone _ \<Rightarrow> True
      | ConnReader _ _ \<Rightarrow> True
      | ConnDone _ \<Rightarrow> True
      | _ \<Rightarrow> False)"

definition run_result :: "manager_state \<Rightarrow> err option" where
  "run_result m = (if list_all source_done (m_threads m) then Some (first_error (m_finished m)) else None)"

subsection \<open>One step\<close>

named_theorems mgr_state \<open>the fields of a changed manager state\<close>

lemma set_thread_fields [simp, mgr_state]:
  "m_threads (set_thread k t m) = (m_threads m)[k := t]" "m_cancelled (set_thread k t m) = m_cancelled m"
  "m_finished (set_thread k t m) = m_finished m" "m_posted (set_thread k t m) = m_posted m"
  "m_world (set_thread k t m) = m_world m"
  by (simp_all add: set_thread_def)

lemma finish_fields [simp, mgr_state]:
  "m_threads (finish t er m) = m_threads m" "m_cancelled (finish t er m) = m_cancelled m"
  "m_finished (finish t er m) = m_finished m @ [(src_name (th_source t), er)]"
  "m_posted (finish t er m) = m_posted m" "m_world (finish t er m) = m_world m"
  by (simp_all add: finish_def)

lemma new_thread_fields [simp, mgr_state]:
  "th_source (new_thread sc parse rd) = sc" "th_parse (new_thread sc parse rd) = parse"
  "th_reader (new_thread sc parse rd) = rd" "th_closed (new_thread sc parse rd) = False" "th_queue (new_thread sc parse rd) = []"
  "th_ticks (new_thread sc parse rd) = []" "th_reads (new_thread sc parse rd) = []"
  by (simp_all add: new_thread_def)

lemma thread_at_Some: "thread_at m k = Some t \<longleftrightarrow> k < length (m_threads m) \<and> t = m_threads m ! k"
  by (auto simp: thread_at_def)

text \<open>What a step does to the goroutines: one changes, or one is added.\<close>

lemma mgr_step_cases [consumes 1]:
  assumes "mgr_step cr em l m = Some m'"
  obtains (cancel) "m' = m\<lparr>m_cancelled := True\<rparr>"
  | (post) k t st e es where "thread_at m k = Some t" "th_queue t = e # es"
      "m' = (set_thread k (t\<lparr>th_queue := es\<rparr>) m)
         \<lparr>m_world := on_event cr em (src_name (th_source t)) st e (m_world m),
          m_posted := m_posted m @ [(k, st, e)]\<rparr>"
  | (tail) k t st ev st' evs where "thread_at m k = Some t" "th_reader t = FileReader st" "\<And>er. st \<noteq> Stopped er"
      "th_queue t = []" "tail_step (th_parse t) (src_path (th_source t)) st ev = (st', evs)"
      "m' = (case st' of Stopped er \<Rightarrow> finish t er | _ \<Rightarrow> id)
         (set_thread k (t\<lparr>th_reader := FileReader st', th_queue := evs, th_ticks := th_ticks t @ [ev]\<rparr>) m)"
  | (conn) k t j p rd ls r where "thread_at m k = Some t" "th_reader t = ConnReader j p" "th_queue t = []"
      "scan_reads socket_scan_buf p [rd] = (ls, r)"
      "m' = set_thread k (t\<lparr>th_reader := (case r of Reading p' \<Rightarrow> ConnReader j p' | _ \<Rightarrow> ConnDone j),
         th_queue := line_events (th_parse t) ls, th_reads := th_reads t @ [rd]\<rparr>) m"
  | (bound) k t where "thread_at m k = Some t" "th_reader t = Binding"
      "m' = set_thread k (t\<lparr>th_reader := Accepting\<rparr>) m"
  | (unbound) k t er where "thread_at m k = Some t" "th_reader t = Binding"
      "m' = finish t er (set_thread k (t\<lparr>th_reader := ListenerDone er\<rparr>) m)"
  | (accept) k t where "thread_at m k = Some t" "th_reader t = Accepting"
      "m' = m\<lparr>m_threads := m_threads m @ [new_thread (th_source t) (th_parse t) (ConnReader k [])]\<rparr>"
  | (drain) k t where "thread_at m k = Some t" "th_reader t = Accepting" "m_cancelled m"
      "m' = set_thread k (t\<lparr>th_reader := Draining\<rparr>) m"
  | (again) "m' = m"
  | (close) k t where "thread_at m k = Some t" "closable t" "m' = set_thread k (t\<lparr>th_closed := True\<rparr>) m"
  | (drained) k t where "thread_at m k = Some t" "th_reader t = Draining"
      "list_all (conn_done k) (m_threads m)"
      "m' = finish t None (set_thread k (t\<lparr>th_reader := ListenerDone None\<rparr>) m)"
proof -
  consider "l = CancelCtx" | k where "label_thread l = Some k" by (cases l) auto
  then show thesis
  proof cases
    case 1
    then show thesis using assms by (intro cancel) (simp add: mgr_step_def)
  next
    case (2 k)
    with assms obtain t where t: "thread_at m k = Some t" and s: "thread_step cr em l k t m = Some m'"
      by (auto simp: mgr_step_def split: option.splits)
    from s show thesis
    proof (cases l)
      case CancelCtx
      with s show thesis by simp
    next
      case (Post j st)
      with s obtain e es where "th_queue t = e # es"
        "m' = (set_thread k (t\<lparr>th_queue := es\<rparr>) m)
           \<lparr>m_world := on_event cr em (src_name (th_source t)) st e (m_world m),
            m_posted := m_posted m @ [(k, st, e)]\<rparr>"
        by (auto simp: post_event_def split: list.splits)
      with t show thesis by (rule post)
    next
      case (TailInput j ev)
      with s obtain st st' evs where "th_reader t = FileReader st" "\<And>er. st \<noteq> Stopped er" "th_queue t = []"
        "tail_step (th_parse t) (src_path (th_source t)) st ev = (st', evs)"
        "m' = (case st' of Stopped er \<Rightarrow> finish t er | _ \<Rightarrow> id)
           (set_thread k (t\<lparr>th_reader := FileReader st', th_queue := evs, th_ticks := th_ticks t @ [ev]\<rparr>) m)"
        by (fastforce simp: tail_input_def Let_def split: reader.splits tail_state.splits if_splits prod.splits)
      with t show thesis by (rule tail)
    next
      case (ListenResult j r)
      with s t bound unbound show thesis
        by (auto simp: listen_result_def Let_def split: if_splits option.splits)
    next
      case (AcceptConn j)
      with s t accept show thesis by (auto split: if_splits)
    next
      case (AcceptFailed j)
      with s have "th_reader t = Accepting"
        "m' = (if m_cancelled m then set_thread k (t\<lparr>th_reader := Draining\<rparr>) m else m)"
        by (simp_all split: if_splits)
      with t drain again show thesis by (cases "m_cancelled m") simp_all
    next
      case (ConnInput j rd)
      with s t conn show thesis by (auto simp: conn_input_def split: reader.splits if_splits prod.splits)
    next
      case (ConnsDone j)
      with s t drained show thesis by (auto split: if_splits)
    next
      case (CloseFd j)
      with s t close show thesis by (auto simp: close_fd_def split: if_splits)
    qed
  qed
qed

fun mgr_run :: "('k, 'j) crypto \<Rightarrow> 'k emitter \<Rightarrow> label list \<Rightarrow> manager_state \<Rightarrow> manager_state option" where
  "mgr_run cr em [] m = Some m"
| "mgr_run cr em (l # ls) m = (case mgr_step cr em l m of None \<Rightarrow> None | Some m' \<Rightarrow> mgr_run cr em ls m')"

lemma mgr_run_reach: "mgr_reach cr em m0 m \<Longrightarrow> mgr_run cr em ls m = Some m' \<Longrightarrow> mgr_reach cr em m0 m'"
  by (induction ls arbitrary: m) (auto intro: mgr_reach.step split: option.splits)

subsection \<open>Refinement of the sequential readers\<close>

lemma scan_reads_snoc:
  "scan_reads cap p rs = (ts, Reading p') \<Longrightarrow> scan_reads cap p' [rd] = (ts', r) \<Longrightarrow>
   scan_reads cap p (rs @ [rd]) = (ts @ ts', r)"
proof (induction rs arbitrary: p ts)
  case (Cons x rs)
  then show ?case
    by (cases x) (fastforce split: if_splits prod.splits option.splits)
qed simp

definition thread_ok :: "thread \<Rightarrow> bool" where
  "thread_ok t \<longleftrightarrow>
     (case th_reader t of
        FileReader st \<Rightarrow> fst (tail_file (th_parse t) (src_path (th_source t)) (th_ticks t)) = st
      | ConnReader _ p \<Rightarrow> snd (scan_reads socket_scan_buf [] (th_reads t)) = Reading p
      | ConnDone _ \<Rightarrow> (\<forall>p. snd (scan_reads socket_scan_buf [] (th_reads t)) \<noteq> Reading p)
      | _ \<Rightarrow> True)"

text \<open>The abstraction: the events of the sequential reader on the inputs consumed.\<close>

definition thread_out :: "thread \<Rightarrow> event list" where
  "thread_out t =
     (case th_reader t of
        FileReader _ \<Rightarrow> snd (tail_file (th_parse t) (src_path (th_source t)) (th_ticks t))
      | ConnReader _ _ \<Rightarrow> handle_conn (th_parse t) (th_reads t)
      | ConnDone _ \<Rightarrow> handle_conn (th_parse t) (th_reads t)
      | _ \<Rightarrow> [])"

definition posted_by :: "nat \<Rightarrow> manager_state \<Rightarrow> event list" where
  "posted_by k m = map (\<lambda>(_, _, e). e) (filter (\<lambda>(j, _, _). j = k) (m_posted m))"

definition refines :: "manager_state \<Rightarrow> bool" where
  "refines m \<longleftrightarrow>
     (\<forall>k < length (m_threads m). thread_ok (m_threads m ! k) \<and>
        posted_by k m @ th_queue (m_threads m ! k) = thread_out (m_threads m ! k)) \<and>
     (\<forall>(k, _, _) \<in> set (m_posted m). k < length (m_threads m))"

lemma posted_by_simps [simp]:
  "posted_by k (set_thread j t m) = posted_by k m" "posted_by k (finish t er m) = posted_by k m"
  "posted_by k (m\<lparr>m_cancelled := b\<rparr>) = posted_by k m" "posted_by k (m\<lparr>m_threads := ts\<rparr>) = posted_by k m"
  by (simp_all add: posted_by_def)

lemma posted_by_snoc:
  "posted_by k (m\<lparr>m_world := w, m_posted := m_posted m' @ [(j, st, e)]\<rparr>) =
   posted_by k m' @ (if j = k then [e] else [])"
  by (simp add: posted_by_def)

lemma posted_by_fresh:
  "\<forall>(k, _, _) \<in> set (m_posted m). k < n \<Longrightarrow> n \<le> k \<Longrightarrow> posted_by k m = []"
  by (auto simp: posted_by_def filter_empty_conv)

lemma thread_queue_irrelevant [simp]:
  "thread_ok (t\<lparr>th_queue := es\<rparr>) = thread_ok t" "thread_out (t\<lparr>th_queue := es\<rparr>) = thread_out t"
  "thread_ok (t\<lparr>th_closed := b\<rparr>) = thread_ok t" "thread_out (t\<lparr>th_closed := b\<rparr>) = thread_out t"
  by (cases "th_reader t"; simp add: thread_ok_def thread_out_def)+

text \<open>A change of goroutine \<open>k\<close> that keeps what has been posted and what is queued in step.\<close>

lemma refines_set_thread:
  assumes "refines m" "thread_at m k = Some t" "thread_ok t'"
    and "thread_out t' = thread_out t @ d" "th_queue t' = th_queue t @ d"
  shows "refines (set_thread k t' m)"
  using assms by (auto simp: refines_def thread_at_Some nth_list_update)

lemma refines_finish [simp]: "refines (finish t er m) = refines m"
  by (simp add: refines_def)

lemma refines_cancel [simp]: "refines (m\<lparr>m_cancelled := b\<rparr>) = refines m"
  by (simp add: refines_def)

lemma refines_step:
  assumes "mgr_step cr em l m = Some m'" "refines m"
  shows "refines m'"
  using assms(1)
proof (cases rule: mgr_step_cases)
  case (post k t st e es)
  have k: "thread_ok t" "posted_by k m @ e # es = thread_out t"
    using post(1,2) assms(2) unfolding refines_def thread_at_Some by metis+
  have "thread_ok (m_threads m' ! i) \<and>
      posted_by i m' @ th_queue (m_threads m' ! i) = thread_out (m_threads m' ! i)"
    if "i < length (m_threads m')" for i
    using post k assms(2) that
    by (cases "i = k") (simp_all add: refines_def thread_at_Some posted_by_snoc)
  then show ?thesis using post assms(2) by (auto simp: refines_def thread_at_Some)
next
  case (tail k t st ev st' evs)
  let ?t = "t\<lparr>th_reader := FileReader st', th_queue := evs, th_ticks := th_ticks t @ [ev]\<rparr>"
  have "fst (tail_file (th_parse t) (src_path (th_source t)) (th_ticks t)) = st"
    using assms(2) tail(1,2) by (auto simp: refines_def thread_at_Some thread_ok_def)
  then have "tail_file (th_parse t) (src_path (th_source t)) (th_ticks t @ [ev]) = (st', thread_out t @ evs)"
    using tail(2,5) by (auto simp: tail_file_def tail_run_append thread_out_def split: prod.splits)
  then have "refines (set_thread k ?t m)"
    using tail by (intro refines_set_thread [OF assms(2), where d = evs]) (auto simp: thread_ok_def thread_out_def)
  then show ?thesis using tail(6) by (cases st') simp_all
next
  case (conn k t j p rd ls r)
  have "snd (scan_reads socket_scan_buf [] (th_reads t)) = Reading p"
    using assms(2) conn(1,2) by (auto simp: refines_def thread_at_Some thread_ok_def)
  then obtain ts where "scan_reads socket_scan_buf [] (th_reads t) = (ts, Reading p)" by (metis prod.collapse)
  from this scan_reads_snoc [OF this conn(4)] show ?thesis
    unfolding conn(5) using conn(2,3)
    by (intro refines_set_thread [OF assms(2) conn(1), where d = "line_events (th_parse t) ls"])
      (auto simp: thread_ok_def thread_out_def handle_conn_def split: scan_end.splits)
next
  case (accept k t)
  then show ?thesis
    using assms(2) posted_by_fresh [of m "length (m_threads m)" "length (m_threads m)"]
    by (auto simp: refines_def nth_append thread_ok_def thread_out_def handle_conn_def less_Suc_eq)
next
  case (bound k t)
  then show ?thesis
    using refines_set_thread [OF assms(2) bound(1), of _ "[]"] by (simp add: thread_ok_def thread_out_def)
next
  case (unbound k t er)
  then show ?thesis
    using refines_set_thread [OF assms(2) unbound(1), of _ "[]"] by (simp add: thread_ok_def thread_out_def)
next
  case (drain k t)
  then show ?thesis
    using refines_set_thread [OF assms(2) drain(1), of _ "[]"] by (simp add: thread_ok_def thread_out_def)
next
  case (drained k t)
  then show ?thesis
    using refines_set_thread [OF assms(2) drained(1), of _ "[]"] by (simp add: thread_ok_def thread_out_def)
next
  case (close k t)
  then show ?thesis
    using refines_set_thread [OF assms(2) close(1), of _ "[]"] assms(2)
    by (simp add: refines_def thread_at_Some)
qed (use assms(2) in auto)

subsection \<open>What has been sent, and what has finished\<close>

definition thread_name :: "manager_state \<Rightarrow> nat \<Rightarrow> string" where
  "thread_name m k = src_name (th_source (m_threads m ! k))"

text \<open>All posts in the order in which they were made, each under the name of its source.\<close>

definition post_all :: "('k, 'j) crypto \<Rightarrow> 'k emitter \<Rightarrow> manager_state \<Rightarrow> world \<Rightarrow> world" where
  "post_all cr em m w =
     fold (\<lambda>(k, st, e) w. on_event cr em (thread_name m k) st e w) (m_posted m) w"

text \<open>What a goroutine that has returned sends to \<open>errs\<close>: handlers of connections send nothing.\<close>

definition thread_result :: "thread \<Rightarrow> (string \<times> err) option" where
  "thread_result t =
     (case th_reader t of
        FileReader st \<Rightarrow> (case st of Stopped er \<Rightarrow> Some (src_name (th_source t), er) | _ \<Rightarrow> None)
      | ListenerDone er \<Rightarrow> Some (src_name (th_source t), er)
      | _ \<Rightarrow> None)"

definition is_conn :: "thread \<Rightarrow> bool" where
  "is_conn t \<longleftrightarrow> (case th_reader t of ConnReader _ _ \<Rightarrow> True | ConnDone _ \<Rightarrow> True | _ \<Rightarrow> False)"

definition identity :: "thread \<Rightarrow> source_config \<times> line_parser" where
  "identity t = (th_source t, th_parse t)"

definition books :: "('k, 'j) crypto \<Rightarrow> 'k emitter \<Rightarrow> (source_config \<times> line_parser) list \<Rightarrow> world \<Rightarrow> manager_state \<Rightarrow> bool" where
  "books cr em started w m \<longleftrightarrow>
     (\<exists>conns. map identity (m_threads m) = started @ conns \<and> set conns \<subseteq> set started) \<and>
     map is_conn (m_threads m) =
       replicate (length started) False @ replicate (length (m_threads m) - length started) True \<and>
     m_world m = post_all cr em m w \<and>
     mset (m_finished m) = mset (List.map_filter thread_result (m_threads m))"

lemma mset_map_filter_update:
  assumes "k < length xs" "f (xs ! k) = None"
  shows "mset (List.map_filter f (xs[k := x])) =
    (case f x of None \<Rightarrow> mset (List.map_filter f xs) | Some y \<Rightarrow> add_mset y (mset (List.map_filter f xs)))"
proof -
  have xs: "xs = take k xs @ xs ! k # drop (Suc k) xs" using assms(1) by (rule id_take_nth_drop)
  have "xs[k := x] = take k xs @ x # drop (Suc k) xs" using assms(1) by (rule upd_conv_take_nth_drop)
  moreover have "List.map_filter f xs = List.map_filter f (take k xs) @ List.map_filter f (drop (Suc k) xs)"
    by (subst xs) (simp add: map_filter_def assms(2))
  ultimately show ?thesis by (auto simp: map_filter_def split: option.split)
qed

lemma post_all_cong:
  assumes "m_posted m' = m_posted m" "\<And>k. k < length (m_threads m) \<Longrightarrow> thread_name m' k = thread_name m k"
    and "\<forall>(k, _, _) \<in> set (m_posted m). k < length (m_threads m)"
  shows "post_all cr em m' w = post_all cr em m w"
  unfolding post_all_def assms(1) using assms(2,3) by (intro fold_cong) (auto split: prod.split)

lemma map_update_same: "f x = f (xs ! k) \<Longrightarrow> map f (xs[k := x]) = map f xs"
  by (metis list_update_id map_update)

lemma map_thread_update:
  "thread_at m k = Some t \<Longrightarrow> f t' = f t \<Longrightarrow> map f ((m_threads m)[k := t']) = map f (m_threads m)"
  by (auto simp: thread_at_Some map_update_same)

lemma map_filter_of_map: "map f xs = map f ys \<Longrightarrow> List.map_filter f xs = List.map_filter f ys"
proof -
  have "List.map_filter f zs = List.map_filter id (map f zs)" for zs
    by (induction zs) (simp_all add: map_filter_simps split: option.split)
  then show "map f xs = map f ys \<Longrightarrow> ?thesis" by metis
qed

text \<open>A change of one goroutine that keeps who it is, with its result if it returns now.\<close>

lemma books_set_thread:
  assumes "books cr em started w m" "refines m" "thread_at m k = Some t"
    and "identity t' = identity t" "is_conn t' = is_conn t" "thread_result t = None"
    and "m' = (case thread_result t' of None \<Rightarrow> id | Some (_, er) \<Rightarrow> finish t er) (set_thread k t' m)"
  shows "books cr em started w m'"
proof -
  have k: "k < length (m_threads m)" "t = m_threads m ! k" using assms(3) by (auto simp: thread_at_Some)
  have ths: "m_threads m' = (m_threads m)[k := t']" "m_posted m' = m_posted m" "m_world m' = m_world m"
    using assms(7) by (simp_all split: option.split prod.split)
  have ids: "map identity (m_threads m') = map identity (m_threads m)"
    "map is_conn (m_threads m') = map is_conn (m_threads m)"
    using assms(4,5) k by (simp_all only: ths map_update_same)
  have "src_name (th_source (m_threads m' ! i)) = src_name (th_source (m_threads m ! i))" for i
    using assms(4) k by (cases "i = k") (auto simp: ths identity_def)
  then have "post_all cr em m' w = post_all cr em m w"
    using assms(2) ths by (intro post_all_cong) (auto simp: thread_name_def refines_def)
  moreover have "mset (m_finished m') = mset (List.map_filter thread_result (m_threads m'))"
  proof (cases "thread_result t'")
    case None
    then show ?thesis
      using assms(1,6,7) k mset_map_filter_update [of k "m_threads m" thread_result t']
      by (simp add: books_def ths(1))
  next
    case (Some r)
    then have "fst r = src_name (th_source t)"
      using assms(4) by (auto simp: thread_result_def identity_def split: reader.splits tail_state.splits)
    with Some show ?thesis
      using assms(1,6,7) k mset_map_filter_update [of k "m_threads m" thread_result t']
      by (cases r) (simp add: books_def ths(1))
  qed
  ultimately show ?thesis
    using assms(1) ids ths by (simp add: books_def)
qed

lemma books_identity:
  assumes "books cr em started w m" "t \<in> set (m_threads m)"
  shows "identity t \<in> set started"
proof -
  obtain conns where "map identity (m_threads m) = started @ conns" "set conns \<subseteq> set started"
    using assms(1) by (auto simp: books_def)
  moreover have "identity t \<in> set (map identity (m_threads m))" using assms(2) by simp
  ultimately show ?thesis by auto
qed

lemma books_close:
  assumes "books cr em started w m" "refines m" "thread_at m k = Some t"
  shows "books cr em started w (set_thread k (t\<lparr>th_closed := True\<rparr>) m)"
proof -
  let ?m = "set_thread k (t\<lparr>th_closed := True\<rparr>) m"
  have same: "map f (m_threads ?m) = map f (m_threads m)" if "f (t\<lparr>th_closed := True\<rparr>) = f t" for f
    using map_thread_update [where f = f, OF assms(3) that] by simp
  have "thread_name ?m i = thread_name m i" for i
    using assms(3) by (cases "i = k") (auto simp: thread_name_def thread_at_Some)
  then have "post_all cr em ?m w = post_all cr em m w" by (simp add: post_all_def)
  moreover have "map identity (m_threads ?m) = map identity (m_threads m)"
    "map is_conn (m_threads ?m) = map is_conn (m_threads m)"
    "map thread_result (m_threads ?m) = map thread_result (m_threads m)"
    by (rule same, simp add: identity_def is_conn_def thread_result_def split: reader.split tail_state.split)+
  moreover from this have "length (m_threads ?m) = length (m_threads m)" by (metis length_map)
  ultimately show ?thesis
    using assms(1) map_filter_of_map [of thread_result "m_threads ?m" "m_threads m"]
    by (simp add: books_def del: set_thread_fields(1))
qed

lemma books_step:
  assumes "mgr_step cr em l m = Some m'" "refines m" "books cr em started w m"
  shows "books cr em started w m'"
  using assms(1)
proof (cases rule: mgr_step_cases)
  case cancel
  then show ?thesis using assms(3) by (simp add: books_def post_all_def thread_name_def)
next
  case (post k t st e es)
  let ?m = "set_thread k (t\<lparr>th_queue := es\<rparr>) m"
  have q: "thread_result (t\<lparr>th_queue := es\<rparr>) = thread_result t" "is_conn (t\<lparr>th_queue := es\<rparr>) = is_conn t"
    "identity (t\<lparr>th_queue := es\<rparr>) = identity t"
    by (simp_all add: thread_result_def is_conn_def identity_def split: reader.split tail_state.split)
  have m: "m_threads m' = m_threads ?m" "m_posted m' = m_posted m @ [(k, st, e)]"
    "m_finished m' = m_finished m" "thread_at m k = Some t"
    "m_world m' = on_event cr em (src_name (th_source t)) st e (m_world m)"
    using post by simp_all
  note same = map_thread_update [OF post(1), of _ "t\<lparr>th_queue := es\<rparr>"]
  have "List.map_filter thread_result (m_threads ?m) = List.map_filter thread_result (m_threads m)"
    using map_filter_of_map [OF same [OF q(1)]] by simp
  moreover have names: "thread_name m' i = thread_name m i" for i
    using post(1) by (cases "i = k") (auto simp: thread_name_def m(1) thread_at_Some)
  moreover have "post_all cr em m' w = m_world m'"
  proof -
    have "post_all cr em m' w = on_event cr em (thread_name m k) st e (post_all cr em m w)"
      by (simp add: post_all_def m(2) names)
    then show ?thesis using assms(3) m(4,5) by (simp add: books_def thread_name_def thread_at_Some)
  qed
  ultimately show ?thesis
    using assms(3) m same [OF q(2)] same [OF q(3)] by (simp add: books_def)
next
  case (tail k t st ev st' evs)
  then show ?thesis
    by (intro books_set_thread [OF assms(3,2) tail(1),
          where t' = "t\<lparr>th_reader := FileReader st', th_queue := evs, th_ticks := th_ticks t @ [ev]\<rparr>"])
      (auto simp: identity_def is_conn_def thread_result_def split: tail_state.split)
next
  case (conn k t j p rd ls r)
  then show ?thesis
    by (intro books_set_thread [OF assms(3,2) conn(1),
          where t' = "t\<lparr>th_reader := (case r of Reading p' \<Rightarrow> ConnReader j p' | _ \<Rightarrow> ConnDone j),
            th_queue := line_events (th_parse t) ls, th_reads := th_reads t @ [rd]\<rparr>"])
      (auto simp: identity_def is_conn_def thread_result_def split: scan_end.split)
next
  case (bound k t)
  then show ?thesis
    by (intro books_set_thread [OF assms(3,2) bound(1), where t' = "t\<lparr>th_reader := Accepting\<rparr>"])
      (auto simp: identity_def is_conn_def thread_result_def)
next
  case (unbound k t er)
  then show ?thesis
    by (intro books_set_thread [OF assms(3,2) unbound(1), where t' = "t\<lparr>th_reader := ListenerDone er\<rparr>"])
      (auto simp: identity_def is_conn_def thread_result_def)
next
  case (accept k t)
  let ?t = "new_thread (th_source t) (th_parse t) (ConnReader k [])"
  have "post_all cr em m' w = post_all cr em m w"
    using assms(2) accept by (intro post_all_cong) (auto simp: thread_name_def refines_def nth_append)
  moreover have "length started \<le> length (m_threads m)"
    using assms(3) by (auto simp: books_def dest: arg_cong [of _ _ length])
  moreover from this have "Suc (length (m_threads m)) - length started = Suc (length (m_threads m) - length started)"
    by simp
  moreover have "identity t \<in> set started"
    using books_identity [OF assms(3)] accept(1) by (simp add: thread_at_Some)
  then have "\<exists>conns. map identity (m_threads m') = started @ conns \<and> set conns \<subseteq> set started"
    using assms(3) accept(3) by (auto simp: books_def identity_def)
  ultimately show ?thesis
    using assms(3) accept(3)
    by (simp add: books_def map_filter_def is_conn_def thread_result_def replicate_append_same [symmetric])
next
  case (drain k t)
  then show ?thesis
    by (intro books_set_thread [OF assms(3,2) drain(1), where t' = "t\<lparr>th_reader := Draining\<rparr>"])
      (auto simp: identity_def is_conn_def thread_result_def)
next
  case (drained k t)
  then show ?thesis
    by (intro books_set_thread [OF assms(3,2) drained(1), where t' = "t\<lparr>th_reader := ListenerDone None\<rparr>"])
      (auto simp: identity_def is_conn_def thread_result_def)
next
  case (close k t)
  then show ?thesis using books_close [OF assms(3,2) close(1)] by simp
qed (use assms(3) in auto)

lemma start_invariant: "refines (manager_start started w) \<and> books cr em started w (manager_start started w)"
proof
  show "refines (manager_start started w)"
    by (auto simp: refines_def manager_start_def split_def start_reader_def thread_ok_def thread_out_def
        posted_by_def tail_file_def)
  have "List.map_filter thread_result (map (\<lambda>(sc, parse). new_thread sc parse (start_reader sc)) started) = []"
    by (auto simp: map_filter_def filter_empty_conv thread_result_def start_reader_def split: if_splits)
  moreover have "map is_conn (map (\<lambda>(sc, parse). new_thread sc parse (start_reader sc)) started) =
      replicate (length started) False"
    by (rule nth_equalityI) (auto simp: is_conn_def start_reader_def split_def)
  moreover have "map identity (map (\<lambda>(sc, parse). new_thread sc parse (start_reader sc)) started) = started"
    by (simp add: identity_def comp_def split_def)
  ultimately show "books cr em started w (manager_start started w)"
    by (simp add: books_def manager_start_def post_all_def)
qed

lemma reach_invariant:
  assumes "mgr_reach cr em (manager_start started w) m"
  shows "refines m \<and> books cr em started w m"
  using assms
proof (induction m rule: mgr_reach.induct)
  case here
  show ?case by (rule start_invariant)
next
  case (step m' l m'')
  then show ?case using refines_step books_step by blast
qed

subsection \<open>Shutting down\<close>

definition parent :: "thread \<Rightarrow> nat option" where
  "parent t = (case th_reader t of ConnReader j _ \<Rightarrow> Some j | ConnDone j \<Rightarrow> Some j | _ \<Rightarrow> None)"

definition accepts :: "thread \<Rightarrow> bool" where
  "accepts t \<longleftrightarrow>
     (case th_reader t of Accepting \<Rightarrow> True | Draining \<Rightarrow> True | ListenerDone _ \<Rightarrow> True | _ \<Rightarrow> False)"

definition stopped_idle :: "thread \<Rightarrow> bool" where
  "stopped_idle t \<longleftrightarrow> (\<forall>er. th_reader t = FileReader (Stopped er) \<longrightarrow> th_queue t = [])"

text \<open>
  Handlers belong to listeners, a file reader that has stopped has nothing left to post, and
  a listener that has returned has no connection left to read or to post.
\<close>

definition tidy :: "manager_state \<Rightarrow> bool" where
  "tidy m \<longleftrightarrow>
     list_all stopped_idle (m_threads m) \<and>
     (\<forall>t \<in> set (m_threads m). \<forall>j. parent t = Some j \<longrightarrow> j < length (m_threads m) \<and> accepts (m_threads m ! j)) \<and>
     (\<forall>k < length (m_threads m). \<forall>er. th_reader (m_threads m ! k) = ListenerDone er \<longrightarrow>
        list_all (conn_done k) (m_threads m))"

lemma tail_step_stops: "tail_step parse path st ev = (Stopped er, evs) \<Longrightarrow> \<forall>er. st \<noteq> Stopped er \<Longrightarrow> evs = []"
  by (cases "(parse, path, st, ev)" rule: tail_step.cases)
    (auto simp: tail_tick_def split: if_splits prod.splits)

lemma list_all_update: "list_all P xs \<Longrightarrow> P x \<Longrightarrow> list_all P (xs[k := x])"
  using set_update_subset_insert [of xs k x] by (auto simp: list_all_iff)

lemma tidy_set_thread:
  assumes "tidy m" "thread_at m k = Some t" "stopped_idle t'" "parent t' = parent t"
    and "accepts t \<longrightarrow> accepts t'" "\<And>j. conn_done j t \<Longrightarrow> conn_done j t'"
    and "\<And>er. th_reader t' = ListenerDone er \<Longrightarrow> th_reader t = ListenerDone er \<or>
      list_all (conn_done k) (m_threads m)"
  shows "tidy (set_thread k t' m)"
proof -
  let ?ts = "m_threads m"
  have k: "k < length ?ts" "t = ?ts ! k" using assms(2) by (auto simp: thread_at_Some)
  have idle: "list_all stopped_idle (?ts[k := t'])"
    using assms(1,3) by (auto simp: tidy_def intro: list_all_update)
  have conns: "list_all (conn_done j) (?ts[k := t'])" if "list_all (conn_done j) ?ts" for j
    using that assms(6) k by (intro list_all_update) (auto simp: list_all_length)
  have acc: "accepts (?ts[k := t'] ! j)" if "accepts (?ts ! j)" "j < length ?ts" for j
    using that assms(5) k by (cases "j = k") auto
  have par: "j < length ?ts \<and> accepts (?ts[k := t'] ! j)" if "x \<in> set (?ts[k := t'])" "parent x = Some j" for x j
  proof -
    have "x = t' \<or> x \<in> set ?ts" using that(1) set_update_subset_insert [of ?ts k t'] by blast
    then have "\<exists>y \<in> set ?ts. parent y = Some j"
      using that(2) assms(4) k nth_mem [of k ?ts] by auto
    then show ?thesis using assms(1) acc by (auto simp: tidy_def)
  qed
  have fin: "list_all (conn_done i) (?ts[k := t'])"
    if "i < length ?ts" "th_reader (?ts[k := t'] ! i) = ListenerDone er" for i er
  proof -
    have "list_all (conn_done i) ?ts"
      using that assms(1,7) k by (cases "i = k") (auto simp: tidy_def)
    then show ?thesis by (rule conns)
  qed
  show ?thesis using idle par fin by (auto simp: tidy_def)
qed

lemma tidy_fields [simp]:
  "tidy (finish t er m) = tidy m" "tidy (m\<lparr>m_cancelled := b\<rparr>) = tidy m"
  "tidy (m\<lparr>m_world := w, m_posted := ps\<rparr>) = tidy m"
  by (simp_all add: tidy_def)

lemmas thread_views = stopped_idle_def parent_def accepts_def conn_done_def

lemma tidy_step:
  assumes "mgr_step cr em l m = Some m'" "tidy m"
  shows "tidy m'"
  using assms(1)
proof (cases rule: mgr_step_cases)
  case (post k t st e es)
  then have "tidy (set_thread k (t\<lparr>th_queue := es\<rparr>) m)"
    using assms(2)
    by (intro tidy_set_thread [OF assms(2) post(1)])
      (auto simp: thread_views tidy_def thread_at_Some list_all_length split: reader.splits)
  then show ?thesis by (simp add: post(3))
next
  case (tail k t st ev st' evs)
  have "tidy (set_thread k (t\<lparr>th_reader := FileReader st', th_queue := evs, th_ticks := th_ticks t @ [ev]\<rparr>) m)"
    using tail tail_step_stops
    by (intro tidy_set_thread [OF assms(2) tail(1)]) (auto simp: thread_views)
  then show ?thesis using tail(6) by (cases st') simp_all
next
  case (conn k t j p rd ls r)
  then show ?thesis
    by (auto intro!: tidy_set_thread [OF assms(2) conn(1)] simp: thread_views split: scan_end.splits)
next
  case (bound k t)
  then show ?thesis
    by (auto intro!: tidy_set_thread [OF assms(2) bound(1)] simp: thread_views)
next
  case (unbound k t er)
  have "conn_done k x" if "x \<in> set (m_threads m)" for x
    using that assms(2) unbound(1,2)
    by (fastforce simp: tidy_def thread_at_Some thread_views split: reader.splits)
  then have "list_all (conn_done k) (m_threads m)" by (simp add: list_all_iff)
  then have "tidy (set_thread k (t\<lparr>th_reader := ListenerDone er\<rparr>) m)"
    using unbound(2) by (intro tidy_set_thread [OF assms(2) unbound(1)]) (auto simp: thread_views)
  then show ?thesis by (simp add: unbound(3))
next
  case (accept k t)
  let ?t = "new_thread (th_source t) (th_parse t) (ConnReader k [])"
  have k: "k < length (m_threads m)" "accepts (m_threads m ! k)"
    using accept by (auto simp: thread_at_Some accepts_def)
  have "conn_done i ?t" if "th_reader (m_threads m ! i) = ListenerDone er" for i er
    using that accept(1,2) by (auto simp: conn_done_def thread_at_Some)
  then show ?thesis
    using assms(2) k accept(3)
    by (auto simp: tidy_def nth_append less_Suc_eq stopped_idle_def parent_def)
next
  case (drain k t)
  then show ?thesis
    by (auto intro!: tidy_set_thread [OF assms(2) drain(1)] simp: thread_views)
next
  case (drained k t)
  then have "tidy (set_thread k (t\<lparr>th_reader := ListenerDone None\<rparr>) m)"
    by (intro tidy_set_thread [OF assms(2) drained(1)]) (auto simp: thread_views)
  then show ?thesis by (simp add: drained(4))
next
  case (close k t)
  have "stopped_idle t" using assms(2) close(1) by (auto simp: tidy_def thread_at_Some list_all_length)
  then show ?thesis
    unfolding close(3)
    by (intro tidy_set_thread [OF assms(2) close(1)]) (auto simp: thread_views split: reader.splits)
qed (use assms(2) in auto)

lemma tidy_start: "tidy (manager_start started w)"
  by (auto simp: tidy_def manager_start_def list_all_iff thread_views start_reader_def split: if_splits)

lemma tidy_reach: "mgr_reach cr em (manager_start started w) m \<Longrightarrow> tidy m"
  by (induction m rule: mgr_reach.induct) (auto intro: tidy_start tidy_step)

text \<open>Whatever a goroutine has posted its source made from a line.\<close>

lemma posted_sound:
  assumes "refines m" "(k, st, e) \<in> set (m_posted m)" "log_source (th_parse (m_threads m ! k))"
  shows "k < length (m_threads m) \<and> (\<exists>l. th_parse (m_threads m ! k) l = Some e)"
proof
  let ?t = "m_threads m ! k"
  show k: "k < length (m_threads m)" using assms(1,2) by (auto simp: refines_def)
  have "e \<in> set (posted_by k m)" using assms(2) by (force simp: posted_by_def)
  moreover have "posted_by k m @ th_queue ?t = thread_out ?t" using assms(1) k by (simp add: refines_def)
  ultimately have "e \<in> set (thread_out ?t)" by (metis Un_iff set_append)
  then show "\<exists>l. th_parse ?t l = Some e"
    using log_source.tail_events_sound [OF assms(3)] log_source.conn_events_sound [OF assms(3)]
    by (auto simp: thread_out_def tail_file_def split: reader.splits)
qed

subsection \<open>Counting the sources\<close>

lemma source_done_iff: "source_done t \<longleftrightarrow> is_conn t \<or> thread_result t \<noteq> None"
  by (auto simp: source_done_def is_conn_def thread_result_def split: reader.split tail_state.split)

lemma conn_no_result: "thread_result t \<noteq> None \<Longrightarrow> \<not> is_conn t"
  by (auto simp: is_conn_def thread_result_def split: reader.splits)

lemma length_map_filter: "length (List.map_filter f xs) = length (filter (\<lambda>x. f x \<noteq> None) xs)"
  by (simp add: map_filter_def)

lemma length_filter_sub:
  assumes "\<And>x. P x \<Longrightarrow> Q x"
  shows "length (filter P xs) \<le> length (filter Q xs) \<and>
    (length (filter P xs) = length (filter Q xs) \<longleftrightarrow> list_all (\<lambda>x. Q x \<longrightarrow> P x) xs)"
  by (induction xs) (use assms in auto)

lemma books_sources:
  assumes "books cr em started w m"
  shows "map identity (filter (\<lambda>t. \<not> is_conn t) (m_threads m)) = started \<and>
    (\<forall>k < length (m_threads m). is_conn (m_threads m ! k) \<longleftrightarrow> length started \<le> k)"
proof -
  let ?n = "length started" and ?ts = "m_threads m"
  from assms obtain conns where c: "map identity ?ts = started @ conns"
    and b: "map is_conn ?ts = replicate ?n False @ replicate (length ?ts - ?n) True"
    by (auto simp: books_def)
  have "?n \<le> length ?ts" using c by (metis le_add1 length_append length_map)
  then have i: "is_conn (?ts ! k) \<longleftrightarrow> ?n \<le> k" if "k < length ?ts" for k
    using arg_cong [OF b, of "\<lambda>xs. xs ! k"] that by (auto simp: nth_append)
  have "filter (\<lambda>t. \<not> is_conn t) ?ts = filter (\<lambda>t. \<not> is_conn t) (take ?n ?ts) @ filter (\<lambda>t. \<not> is_conn t) (drop ?n ?ts)"
    by (metis append_take_drop_id filter_append)
  also have "filter (\<lambda>t. \<not> is_conn t) (take ?n ?ts) = take ?n ?ts"
    using i by (auto simp: filter_id_conv in_set_conv_nth)
  also have "filter (\<lambda>t. \<not> is_conn t) (drop ?n ?ts) = []"
    using i by (auto simp: filter_empty_conv in_set_conv_nth)
  finally have "map identity (filter (\<lambda>t. \<not> is_conn t) ?ts) = take ?n (map identity ?ts)"
    by (simp add: take_map)
  with c i show ?thesis by simp
qed

lemma books_count:
  assumes "books cr em started w m"
  shows "length (m_finished m) \<le> length started \<and>
    (run_result m \<noteq> None \<longleftrightarrow> length (m_finished m) = length started)"
proof -
  have "length (m_finished m) = length (filter (\<lambda>t. thread_result t \<noteq> None) (m_threads m))"
    using assms by (metis books_def length_map_filter size_mset)
  moreover have "length started = length (filter (\<lambda>t. \<not> is_conn t) (m_threads m))"
    using books_sources [OF assms] by (metis length_map)
  ultimately show ?thesis
    using length_filter_sub [of "\<lambda>t. thread_result t \<noteq> None" "\<lambda>t. \<not> is_conn t" "m_threads m"] conn_no_result
    by (auto simp: run_result_def source_done_iff list_all_iff)
qed

text \<open>When \<open>Run\<close> returns nothing is left to post.\<close>

lemma returned_idle:
  assumes "refines m" "tidy m" "list_all source_done (m_threads m)" "k < length (m_threads m)"
  shows "th_queue (m_threads m ! k) = []"
proof -
  let ?t = "m_threads m ! k"
  have t: "?t \<in> set (m_threads m)" "source_done ?t" using assms(3,4) by (auto simp: list_all_length)
  have q: "posted_by k m @ th_queue ?t = thread_out ?t" using assms(1,4) by (simp add: refines_def)
  have conn: "conn_done j ?t" if "parent ?t = Some j" for j
  proof -
    have "accepts (m_threads m ! j)" "j < length (m_threads m)" using assms(2) t(1) that by (auto simp: tidy_def)
    moreover from this have "source_done (m_threads m ! j)" using assms(3) by (simp add: list_all_length)
    ultimately obtain er where "th_reader (m_threads m ! j) = ListenerDone er"
      by (auto simp: accepts_def source_done_def split: reader.splits)
    with \<open>j < length (m_threads m)\<close> assms(2) have "list_all (conn_done j) (m_threads m)"
      by (auto simp: tidy_def)
    with t(1) show ?thesis by (auto simp: list_all_iff)
  qed
  have idle: "stopped_idle ?t" using assms(2) t(1) by (auto simp: tidy_def list_all_iff)
  show ?thesis
    using t(2) q conn idle
    by (auto simp: source_done_def thread_out_def thread_views split: reader.splits tail_state.splits)
qed

lemma mgr_step_cancelled:
  assumes "mgr_step cr em l m = Some m'"
  shows "m_cancelled m \<longrightarrow> m_cancelled m'"
  using assms by (cases rule: mgr_step_cases) (auto split: tail_state.splits)

text \<open>After \<open>Run\<close> has returned the goroutines do nothing more.\<close>

lemma returned_stays:
  assumes "mgr_step cr em l m = Some m'" "refines m" "tidy m" "list_all source_done (m_threads m)"
  shows "m_threads m' = m_threads m \<and> m_finished m' = m_finished m"
proof -
  have q: "th_queue t = []" "source_done t" if "thread_at m k = Some t" for k t
    using that returned_idle [OF assms(2-4)] assms(4) by (auto simp: thread_at_Some list_all_length)
  have no_conn: False if "thread_at m k = Some t" "th_reader t = ConnReader j p" for k t j p
  proof -
    have t: "t \<in> set (m_threads m)" "parent t = Some j" using that by (auto simp: thread_at_Some parent_def)
    then have j: "j < length (m_threads m)" "accepts (m_threads m ! j)" using assms(3) by (auto simp: tidy_def)
    then obtain er where "th_reader (m_threads m ! j) = ListenerDone er"
      using assms(4) by (auto simp: accepts_def source_done_def list_all_length split: reader.splits)
    with assms(3) j have "list_all (conn_done j) (m_threads m)" by (auto simp: tidy_def)
    with t(1) have "conn_done j t" by (auto simp: list_all_iff)
    with that(2) show False by (simp add: conn_done_def)
  qed
  from assms(1) show ?thesis
  proof (cases rule: mgr_step_cases)
    case (post k t st e es)
    then show ?thesis using q by simp
  next
    case (tail k t st ev st' evs)
    then show ?thesis using q(2) [OF tail(1)] by (auto simp: source_done_def split: tail_state.splits)
  next
    case (conn k t j p rd ls r)
    then show ?thesis using no_conn by blast
  next
    case (bound k t)
    then show ?thesis using q(2) [OF bound(1)] by (simp add: source_done_def)
  next
    case (unbound k t er)
    then show ?thesis using q(2) [OF unbound(1)] by (simp add: source_done_def)
  next
    case (accept k t)
    then show ?thesis using q(2) [OF accept(1)] by (simp add: source_done_def)
  next
    case (drain k t)
    then show ?thesis using q(2) [OF drain(1)] by (simp add: source_done_def)
  next
    case (drained k t)
    then show ?thesis using q(2) [OF drained(1)] by (simp add: source_done_def)
  next
    case (close k t)
    then have "th_reader t = Accepting \<or> (\<exists>j p. th_reader t = ConnReader j p)"
      by (auto simp: closable_def split: reader.splits)
    then show ?thesis using q(2) [OF close(1)] no_conn [OF close(1)] by (auto simp: source_done_def)
  qed simp_all
qed

subsection \<open>Properties\<close>

text \<open>C3: The manager refines its readers: in every state any interleaving of the goroutines can
  reach, what a source's goroutine has posted followed by what it has still to post is what
  \<open>tail_file\<close> makes of the inputs it consumed, the same for every connection of a socket and
  \<open>handle_conn\<close>, in the order of the lines; and the network has seen exactly the posted
  events, each under the name of its source.\<close>

theorem manager_refines_readers:
  assumes "mgr_reach cr em (manager_start started w) m"
  shows "(\<forall>k < length (m_threads m). \<forall>t. t = m_threads m ! k \<longrightarrow>
      (\<forall>st. th_reader t = FileReader st \<longrightarrow>
        tail_file (th_parse t) (src_path (th_source t)) (th_ticks t) = (st, posted_by k m @ th_queue t)) \<and>
      (is_conn t \<longrightarrow> posted_by k m @ th_queue t = handle_conn (th_parse t) (th_reads t)) \<and>
      (is_conn t \<longleftrightarrow> length started \<le> k)) \<and>
    map identity (filter (\<lambda>t. \<not> is_conn t) (m_threads m)) = started \<and>
    m_world m = fold (\<lambda>(k, st, e) w. on_event cr em (thread_name m k) st e w) (m_posted m) w"
proof -
  have inv: "refines m" "books cr em started w m" using reach_invariant [OF assms] by blast+
  have "tail_file (th_parse t) (src_path (th_source t)) (th_ticks t) = (st, posted_by k m @ th_queue t)"
    if "k < length (m_threads m)" "t = m_threads m ! k" "th_reader t = FileReader st" for k t st
    using that inv(1) by (auto simp: refines_def thread_ok_def thread_out_def prod_eq_iff)
  moreover have "posted_by k m @ th_queue t = handle_conn (th_parse t) (th_reads t)"
    if "k < length (m_threads m)" "t = m_threads m ! k" "is_conn t" for k t
    using that inv(1) by (auto simp: refines_def thread_out_def is_conn_def split: reader.splits)
  ultimately show ?thesis
    using books_sources [OF inv(2)] inv(2) by (simp add: books_def post_all_def)
qed

definition example_sc :: source_config where
  "example_sc = \<lparr>src_name = ''s'', src_type = ''k8s-audit'', src_transport = ''socket'', src_path = ''p'',
     src_options = []\<rparr>"

definition example_parse :: line_parser where
  "example_parse l = (if l = ''ev'' then Some example_event else None)"

definition example_emitter :: "nat emitter" where
  "example_emitter = new_emitter ''http://r'' ''i'' 5 None"

definition example_labels :: "label list" where
  "example_labels = [ListenResult 0 None, AcceptConn 0, AcceptConn 0, ConnInput 2 (''e'', None),
     ConnInput 1 (''ev'', Some Eof), ConnInput 2 (''v'' @ [nl], None), Post 2 (7, ''u''), CancelCtx,
     CloseFd 0, AcceptFailed 0, Post 1 (8, ''v'')]"

definition example_state :: manager_state where
  "example_state = the (mgr_run example_crypto example_emitter example_labels
     (manager_start [(example_sc, example_parse)] (example_world 200 [])))"

lemmas machine_defs = mgr_step_def thread_at_def conn_input_def tail_input_def post_event_def close_fd_def closable_def listen_result_def
  manager_start_def start_reader_def transport_of_def new_thread_def set_thread_def finish_def conn_done_def

lemma example_run:
  "mgr_run example_crypto example_emitter example_labels
     (manager_start [(example_sc, example_parse)] (example_world 200 [])) = Some example_state"
  "map th_reader (m_threads example_state) = [Draining, ConnDone 0, ConnReader 0 []]"
  "map th_queue (m_threads example_state) = [[], [], []]"
  "m_posted example_state = [(2, (7, ''u''), example_event), (1, (8, ''v''), example_event)]"
  "m_cancelled example_state"
  by (simp_all add: example_state_def example_labels_def machine_defs example_sc_def example_parse_def
      socket_scan_buf_def nl_def drop_cr_def line_events_def map_filter_simps)

lemma example_reach:
  "mgr_reach example_crypto example_emitter (manager_start [(example_sc, example_parse)] (example_world 200 [])) example_state"
  by (rule mgr_run_reach [OF mgr_reach.here example_run(1)])

theorem manager_refines_readers_witness:
  "posted_by 2 example_state = [example_event] \<and>
   handle_conn (th_parse (m_threads example_state ! 2)) (th_reads (m_threads example_state ! 2)) = [example_event]"
proof -
  have l: "length (m_threads example_state) = 3" using arg_cong [OF example_run(2), of length] by simp
  have r: "th_reader (m_threads example_state ! 2) = ConnReader 0 []" "th_queue (m_threads example_state ! 2) = []"
    using arg_cong [OF example_run(2), of "\<lambda>xs. xs ! 2"] arg_cong [OF example_run(3), of "\<lambda>xs. xs ! 2"] l by simp_all
  have "posted_by 2 example_state = [example_event]" by (simp add: posted_by_def example_run(4))
  moreover have "posted_by 2 example_state @ th_queue (m_threads example_state ! 2) =
      handle_conn (th_parse (m_threads example_state ! 2)) (th_reads (m_threads example_state ! 2))"
    using manager_refines_readers [OF example_reach, THEN conjunct1, THEN spec [of _ 2]] l r
    by (simp add: is_conn_def)
  ultimately show ?thesis using r by simp
qed

text \<open>C7: \<open>Run\<close> returns when the reader of every source has returned and not before: at most one
  error per source is sent, so sending on the buffered channel never blocks; the result is
  the first error in the order in which the readers returned, \<open>nil\<close> exactly when all of them
  returned \<open>nil\<close>; and by then every event that was read, on a file or on any connection, has
  been posted.\<close>

theorem manager_returns:
  assumes "mgr_reach cr em (manager_start started w) m"
  shows "length (m_finished m) \<le> length started \<and>
    (run_result m \<noteq> None \<longleftrightarrow> length (m_finished m) = length started) \<and>
    (\<forall>er. run_result m = Some er \<longrightarrow>
      er = first_error (m_finished m) \<and> (er = None \<longleftrightarrow> (\<forall>r \<in> set (m_finished m). snd r = None)) \<and>
      mset (m_finished m) = mset (List.map_filter thread_result (m_threads m)) \<and>
      (\<forall>k < length (m_threads m). posted_by k m = thread_out (m_threads m ! k)))"
proof -
  have inv: "refines m" "books cr em started w m" "tidy m"
    using reach_invariant [OF assms] tidy_reach [OF assms] by blast+
  have "posted_by k m = thread_out (m_threads m ! k)"
    if "run_result m = Some er" "k < length (m_threads m)" for er k
  proof -
    have "list_all source_done (m_threads m)" using that(1) by (simp add: run_result_def split: if_splits)
    from returned_idle [OF inv(1,3) this that(2)] show ?thesis
      using inv(1) that(2) by (auto simp: refines_def)
  qed
  then show ?thesis
    using books_count [OF inv(2)] inv(2)
    by (auto simp: books_def run_result_def first_error_None split: if_splits)
qed

definition example_end :: manager_state where
  "example_end = the (mgr_run example_crypto example_emitter [ConnInput 2 ([], Some Eof), ConnsDone 0] example_state)"

lemma example_ended:
  "mgr_run example_crypto example_emitter [ConnInput 2 ([], Some Eof), ConnsDone 0] example_state = Some example_end"
  "map th_reader (m_threads example_end) = [ListenerDone None, ConnDone 0, ConnDone 0]"
  "m_posted example_end = [(2, (7, ''u''), example_event), (1, (8, ''v''), example_event)]"
  by (simp_all add: example_end_def example_state_def example_labels_def machine_defs example_sc_def example_parse_def
      socket_scan_buf_def nl_def drop_cr_def line_events_def map_filter_simps)

theorem manager_returns_witness:
  "run_result example_end = Some None \<and> length (m_finished example_end) = 1 \<and>
   posted_by 2 example_end = thread_out (m_threads example_end ! 2)"
proof -
  have reach: "mgr_reach example_crypto example_emitter
      (manager_start [(example_sc, example_parse)] (example_world 200 [])) example_end"
    by (rule mgr_run_reach [OF example_reach example_ended(1)])
  have "list_all source_done (m_threads example_end)"
    using arg_cong [OF example_ended(2), of "list_all (\<lambda>rd. source_done (t\<lparr>th_reader := rd\<rparr>))" for t]
    by (simp add: source_done_def [abs_def] list.pred_map comp_def)
  then obtain er where er: "run_result example_end = Some er" by (simp add: run_result_def)
  have l: "length (m_threads example_end) = 3" using arg_cong [OF example_ended(2), of length] by simp
  have f: "length (m_finished example_end) = 1" "mset (m_finished example_end) =
      mset (List.map_filter thread_result (m_threads example_end))"
    "posted_by 2 example_end = thread_out (m_threads example_end ! 2)"
    "er = None \<longleftrightarrow> (\<forall>r \<in> set (m_finished example_end). snd r = None)"
    using manager_returns [OF reach] er l by auto
  have "snd r = None" if "r \<in> set (m_finished example_end)" for r
  proof -
    have "r \<in># mset (List.map_filter thread_result (m_threads example_end))" using that f(2) by (metis set_mset_mset)
    then obtain t where t: "t \<in> set (m_threads example_end)" "thread_result t = Some r"
      by (auto simp: map_filter_def)
    then have "th_reader t \<in> set (map th_reader (m_threads example_end))" by simp
    then show ?thesis using t(2) unfolding example_ended(2) by (auto simp: thread_result_def)
  qed
  with f er show ?thesis by auto
qed

end
