(* ===== verification/Manager_Stop.thy ===== *)
theory Manager_Stop
  imports Manager_Run
begin

text \<open>
  How \<open>Manager.Run\<close> ends after a cancellation. The first part bounds the way there: every
  goroutine that is not idle has a step of its own that takes it nearer to its end. The second
  part is liveness: in every infinite run that is fair to the relay's own steps \<open>Run\<close> returns,
  with the network, the files and the clock free to interfere in any way.
\<close>

subsection \<open>What the relay does by itself\<close>

text \<open>
  The steps after a cancellation that need no help from outside: \<open>Close k\<close> and the failing call
  it causes (\<open>Unblock k\<close>), the first attempt to open a file, the answer of \<open>net.Listen\<close>, the
  \<open>ctx.Done\<close> branch of a file reader, posting, and \<open>wg.Wait\<close>. A new connection, a failing
  \<open>Accept\<close> of an open listener, bytes or the end of an open connection and a tick are not
  among them: they are up to the network and the clock.
\<close>

datatype activity =
    Posting nat | FirstOpen nat | Quit nat | Bind nat | Close nat | Unblock nat | Join nat

definition closed_at :: "manager_state \<Rightarrow> nat \<Rightarrow> bool" where
  "closed_at m k \<longleftrightarrow> (case thread_at m k of None \<Rightarrow> False | Some t \<Rightarrow> th_closed t)"

definition unopened_at :: "manager_state \<Rightarrow> nat \<Rightarrow> bool" where
  "unopened_at m k \<longleftrightarrow> (case thread_at m k of None \<Rightarrow> False | Some t \<Rightarrow> th_reader t = FileReader Unopened)"

fun own_activity :: "manager_state \<Rightarrow> label \<Rightarrow> activity option" where
  "own_activity m CancelCtx = None"
| "own_activity m (Post k _) = Some (Posting k)"
| "own_activity m (TailInput k Cancel) = Some (Quit k)"
| "own_activity m (TailInput k (Tick _)) = (if unopened_at m k then Some (FirstOpen k) else None)"
| "own_activity m (ListenResult k _) = Some (Bind k)"
| "own_activity m (AcceptConn k) = None"
| "own_activity m (AcceptFailed k) = (if closed_at m k then Some (Unblock k) else None)"
| "own_activity m (ConnInput k _) = (if closed_at m k then Some (Unblock k) else None)"
| "own_activity m (ConnsDone k) = Some (Join k)"
| "own_activity m (CloseFd k) = Some (Close k)"

definition can :: "('k, 'j) crypto \<Rightarrow> 'k emitter \<Rightarrow> activity \<Rightarrow> manager_state \<Rightarrow> bool" where
  "can cr em a m \<longleftrightarrow> (\<exists>l. own_activity m l = Some a \<and> mgr_step cr em l m \<noteq> None)"

subsection \<open>Stopping\<close>

definition reader_rank :: "reader \<Rightarrow> nat" where
  "reader_rank rd =
     (case rd of
        FileReader st \<Rightarrow> (case st of Stopped _ \<Rightarrow> 0 | Unopened \<Rightarrow> 2 | _ \<Rightarrow> 1)
      | Binding \<Rightarrow> 4 | Accepting \<Rightarrow> 2 | Draining \<Rightarrow> 1 | ListenerDone _ \<Rightarrow> 0
      | ConnReader _ _ \<Rightarrow> 2 | ConnDone _ \<Rightarrow> 0)"

definition rank :: "thread \<Rightarrow> nat" where
  "rank t = reader_rank (th_reader t) + (if closable t then 1 else 0) + length (th_queue t)"

definition total_rank :: "manager_state \<Rightarrow> nat" where
  "total_rank m = sum_list (map rank (m_threads m))"

lemma total_rank_fields [simp]:
  "total_rank (finish t er m) = total_rank m" "total_rank (m\<lparr>m_world := w, m_posted := ps\<rparr>) = total_rank m"
  by (simp_all add: total_rank_def)

lemma total_rank_update:
  "thread_at m k = Some t \<Longrightarrow> rank t' < rank t \<Longrightarrow> total_rank (set_thread k t' m) < total_rank m"
proof -
  assume k: "thread_at m k = Some t" and less: "rank t' < rank t"
  then have "t \<in> set (m_threads m)" by (auto simp: thread_at_Some)
  then have "rank t \<le> sum_list (map rank (m_threads m))" by (intro member_le_sum_list) auto
  with k less show ?thesis by (simp add: total_rank_def thread_at_Some map_update sum_list_update)
qed

lemma total_rank_0: "total_rank m = 0 \<Longrightarrow> list_all source_done (m_threads m)"
proof -
  have "rank t = 0 \<Longrightarrow> source_done t" for t
    by (auto simp: rank_def reader_rank_def source_done_def split: reader.splits tail_state.splits)
  then show "total_rank m = 0 \<Longrightarrow> ?thesis" by (simp add: total_rank_def list_all_iff)
qed

lemma scan_closed: "\<exists>ls r. scan_reads cap p [closed_read] = (ls, r) \<and> length ls \<le> 1 \<and> (\<forall>q. r \<noteq> Reading q)"
  by (auto simp: closed_read_def)

lemma line_events_length: "length (line_events parse ls) \<le> length ls"
  by (simp add: line_events_def map_filter_def)

definition no_file :: file_sys where
  "no_file = \<lparr>stat_path = (\<lambda>_. None), open_path = (\<lambda>_. None), fstat_ok = (\<lambda>_. False),
     seek_ok = (\<lambda>_. False), content = (\<lambda>_. []), read_fault = (\<lambda>_. False)\<rparr>"

lemmas rank_defs = rank_def reader_rank_def closable_def

text \<open>Every goroutine that is not idle has a step of its own, and the step takes it nearer to its end.\<close>

lemma stop_goroutine:
  assumes "m_cancelled m" "thread_at m k = Some t" "0 < rank t" "th_reader t \<noteq> Draining \<or> th_queue t \<noteq> []"
  shows "\<exists>l m'. mgr_step cr em l m = Some m' \<and> own_activity m l \<noteq> None \<and> m_cancelled m' \<and> total_rank m' < total_rank m"
proof (cases "th_queue t")
  case (Cons e es)
  let ?t = "t\<lparr>th_queue := es\<rparr>"
  have "total_rank (set_thread k ?t m) < total_rank m"
    using assms(2) Cons by (intro total_rank_update) (auto simp: rank_def closable_def)
  then show ?thesis
    using assms(1,2) Cons by (intro exI [of _ "Post k (0, [])"]) (simp add: mgr_step_def post_event_def)
next
  case Nil
  have less: "total_rank (set_thread k t' m) < total_rank m" if "rank t' < rank t" for t'
    using total_rank_update [OF assms(2) that] .
  show ?thesis
  proof (cases "closable t")
    case True
    have "rank (t\<lparr>th_closed := True\<rparr>) < rank t" using True by (simp add: rank_def closable_def)
    from less [OF this] show ?thesis
      using assms(1,2) True by (intro exI [of _ "CloseFd k"]) (simp add: mgr_step_def close_fd_def)
  next
    case open_fd: False
    show ?thesis
    proof (cases "th_reader t")
      case (FileReader st)
      show ?thesis
      proof (cases "st = Unopened")
        case True
        have "rank (t\<lparr>th_reader := FileReader (Opening True), th_queue := [], th_ticks := ts\<rparr>) < rank t" for ts
          using FileReader Nil True by (simp add: rank_defs)
        then show ?thesis
          using assms(1,2) Nil FileReader True less
          by (intro exI [of _ "TailInput k (Tick no_file)"])
            (simp add: mgr_step_def tail_input_def unopened_at_def try_open_def no_file_def)
      next
        case False
        have "tail_step (th_parse t) (src_path (th_source t)) st Cancel =
            (Stopped (case st of Opening b \<Rightarrow> Some ctx_error | _ \<Rightarrow> None), [])" "\<forall>er. st \<noteq> Stopped er"
          using assms(3) Nil FileReader False by (auto simp: rank_defs split: tail_state.splits)
        moreover have "rank (t\<lparr>th_reader := FileReader (Stopped er), th_queue := [], th_ticks := ts\<rparr>) < rank t" for er ts
          using assms(3) Nil FileReader by (auto simp: rank_defs split: tail_state.splits)
        ultimately show ?thesis
          using assms(1,2) Nil FileReader False less
          by (intro exI [of _ "TailInput k Cancel"]) (auto simp: mgr_step_def tail_input_def split: tail_state.split)
      qed
    next
      case Binding
      then have "rank (t\<lparr>th_reader := Accepting\<rparr>) < rank t" by (simp add: rank_defs)
      then show ?thesis
        using assms(1,2) Binding less
        by (intro exI [of _ "ListenResult k None"]) (auto simp: mgr_step_def listen_result_def)
    next
      case Accepting
      then have "rank (t\<lparr>th_reader := Draining\<rparr>) < rank t" "th_closed t"
        using open_fd by (simp_all add: rank_defs)
      then show ?thesis
        using assms(1,2) Accepting less by (intro exI [of _ "AcceptFailed k"]) (auto simp: mgr_step_def closed_at_def)
    next
      case (ConnReader j p)
      obtain ls r where r: "scan_reads socket_scan_buf p [closed_read] = (ls, r)" "length ls \<le> 1" "\<forall>q. r \<noteq> Reading q"
        using scan_closed by blast
      have "length (line_events (th_parse t) ls) \<le> 1" using line_events_length r(2) order_trans by blast
      then have "rank (t\<lparr>th_reader := ConnDone j, th_queue := line_events (th_parse t) ls, th_reads := rs\<rparr>) < rank t" for rs
        using ConnReader Nil by (simp add: rank_defs)
      moreover have "th_closed t" using open_fd ConnReader by (simp add: closable_def)
      ultimately show ?thesis
        using assms(1,2) ConnReader Nil less r
        by (intro exI [of _ "ConnInput k closed_read"])
          (auto simp: mgr_step_def conn_input_def closed_at_def simp del: scan_reads.simps split: scan_end.split)
    qed (use assms(3,4) Nil in \<open>auto simp: rank_defs\<close>)
  qed
qed

lemma stop_progress:
  assumes "m_cancelled m" "0 < total_rank m"
  shows "\<exists>l m'. mgr_step cr em l m = Some m' \<and> own_activity m l \<noteq> None \<and> m_cancelled m' \<and> total_rank m' < total_rank m"
proof (cases "\<exists>k t. thread_at m k = Some t \<and> 0 < rank t \<and> (th_reader t \<noteq> Draining \<or> th_queue t \<noteq> [])")
  case True
  then show ?thesis using stop_goroutine [OF assms(1)] by blast
next
  case False
  then have quiet: "rank t = 0 \<or> th_queue t = [] \<and> th_reader t = Draining" if "t \<in> set (m_threads m)" for t
    using that by (metis in_set_conv_nth thread_at_Some neq0_conv)
  from assms(2) obtain t where "t \<in> set (m_threads m)" "rank t \<noteq> 0"
    unfolding total_rank_def by (auto simp: neq0_conv [symmetric] simp del: neq0_conv)
  then obtain k where k: "thread_at m k = Some t" "th_reader t = Draining"
    using quiet [of t] by (auto simp: in_set_conv_nth thread_at_Some)
  have "list_all (conn_done k) (m_threads m)"
    unfolding list_all_iff
  proof
    fix x
    assume "x \<in> set (m_threads m)"
    then show "conn_done k x"
      using quiet [of x] by (auto simp: conn_done_def rank_def reader_rank_def split: reader.splits)
  qed
  moreover have "total_rank (set_thread k (t\<lparr>th_reader := ListenerDone None\<rparr>) m) < total_rank m"
    using k by (intro total_rank_update) (auto simp: rank_defs)
  ultimately show ?thesis
    using assms(1) k by (intro exI [of _ "ConnsDone k"]) (simp add: mgr_step_def)
qed

lemma stop_schedule:
  assumes "m_cancelled m"
  shows "\<exists>ls m'. mgr_run cr em ls m = Some m' \<and> length ls \<le> total_rank m \<and> list_all source_done (m_threads m')"
  using assms
proof (induction "total_rank m" arbitrary: m rule: less_induct)
  case less
  show ?case
  proof (cases "total_rank m = 0")
    case True
    then show ?thesis using total_rank_0 by (intro exI [of _ "[]"]) simp
  next
    case False
    with less.prems obtain l m1 where m1: "mgr_step cr em l m = Some m1" "m_cancelled m1" "total_rank m1 < total_rank m"
      using stop_progress by (metis neq0_conv)
    from less.hyps [OF m1(3,2)] obtain ls m' where "mgr_run cr em ls m1 = Some m'" "length ls \<le> total_rank m1"
      "list_all source_done (m_threads m')" by blast
    with m1 show ?thesis by (intro exI [of _ "l # ls"] exI [of _ m']) simp
  qed
qed

subsection \<open>One goroutine in one step\<close>

lemma thread_at_length: "thread_at m k = Some t \<Longrightarrow> k < length (m_threads m)"
  by (simp add: thread_at_Some)

lemma thread_at_set [simp]:
  "thread_at (set_thread j t m) k = (if k < length (m_threads m) \<and> j = k then Some t else thread_at m k)"
  by (auto simp: thread_at_def)

lemma thread_at_fields [simp]:
  "thread_at (finish t er m) k = thread_at m k" "thread_at (m\<lparr>m_cancelled := b\<rparr>) k = thread_at m k"
  "thread_at (m\<lparr>m_world := w, m_posted := ps\<rparr>) k = thread_at m k"
  by (simp_all add: thread_at_def)

text \<open>What a step can do to goroutine \<open>k\<close>.\<close>

lemma thread_moves [consumes 2]:
  assumes "mgr_step cr em l m = Some m'" "thread_at m k = Some t"
  obtains (same) "thread_at m' k = Some t" "label_thread l \<noteq> Some k \<or> (\<exists>k. l = AcceptConn k) \<or> (\<exists>k. l = AcceptFailed k \<and> \<not> m_cancelled m)"
  | (post) st e es where "l = Post k st" "th_queue t = e # es" "thread_at m' k = Some (t\<lparr>th_queue := es\<rparr>)"
  | (tail) st ev st' evs where "l = TailInput k ev" "th_reader t = FileReader st" "\<And>er. st \<noteq> Stopped er" "th_queue t = []"
      "ev = Cancel \<Longrightarrow> st \<noteq> Unopened" "tail_step (th_parse t) (src_path (th_source t)) st ev = (st', evs)"
      "thread_at m' k = Some (t\<lparr>th_reader := FileReader st', th_queue := evs, th_ticks := th_ticks t @ [ev]\<rparr>)"
  | (conn) j p rd ls r where "l = ConnInput k rd" "th_reader t = ConnReader j p" "th_queue t = []"
      "th_closed t \<Longrightarrow> rd = closed_read" "scan_reads socket_scan_buf p [rd] = (ls, r)"
      "thread_at m' k = Some (t\<lparr>th_reader := (case r of Reading p' \<Rightarrow> ConnReader j p' | _ \<Rightarrow> ConnDone j),
         th_queue := line_events (th_parse t) ls, th_reads := th_reads t @ [rd]\<rparr>)"
  | (listen) r rd where "l = ListenResult k r" "th_reader t = Binding" "rd = Accepting \<or> (\<exists>er. rd = ListenerDone er)"
      "thread_at m' k = Some (t\<lparr>th_reader := rd\<rparr>)"
  | (drain) "l = AcceptFailed k" "th_reader t = Accepting" "m_cancelled m" "thread_at m' k = Some (t\<lparr>th_reader := Draining\<rparr>)"
  | (drained) "l = ConnsDone k" "th_reader t = Draining" "list_all (conn_done k) (m_threads m)"
      "thread_at m' k = Some (t\<lparr>th_reader := ListenerDone None\<rparr>)"
  | (close) "l = CloseFd k" "closable t" "m_cancelled m" "thread_at m' k = Some (t\<lparr>th_closed := True\<rparr>)"
proof (cases "label_thread l")
  case None
  then show thesis using assms by (intro same) (auto simp: mgr_step_def)
next
  case (Some i)
  with assms(1) obtain ti where ti: "thread_at m i = Some ti" "thread_step cr em l i ti m = Some m'"
    by (auto simp: mgr_step_def split: option.splits)
  note k = thread_at_length [OF assms(2)]
  show thesis
  proof (cases "i = k")
    case False
    have "thread_at m' k = Some t"
    proof (cases l)
      case (Post j st)
      with ti(2) False assms(2) show ?thesis by (auto simp: post_event_def split: list.splits)
    next
      case (TailInput j ev)
      with ti(2) False assms(2) show ?thesis
        by (auto simp: tail_input_def Let_def split: reader.splits tail_state.splits if_splits prod.splits)
    next
      case (ListenResult j r)
      with ti(2) False assms(2) show ?thesis
        by (auto simp: listen_result_def Let_def split: if_splits option.splits)
    next
      case (AcceptConn j)
      with ti(2) k assms(2) show ?thesis by (auto simp: thread_at_Some nth_append split: if_splits)
    next
      case (ConnInput j rd)
      with ti(2) False assms(2) show ?thesis
        by (auto simp: conn_input_def split: reader.splits if_splits prod.splits)
    next
      case (CloseFd j)
      with ti(2) False assms(2) show ?thesis by (auto simp: close_fd_def split: if_splits)
    qed (use ti(2) False assms(2) in \<open>auto split: if_splits\<close>)
    then show thesis using Some False by (intro same) simp_all
  next
    case True
    with ti assms(2) have s: "thread_step cr em l k t m = Some m'" by simp
    show thesis
    proof (cases l)
      case (Post j st)
      with s obtain e es where "th_queue t = e # es" "thread_at m' k = Some (t\<lparr>th_queue := es\<rparr>)"
        using k by (auto simp: post_event_def split: list.splits)
      with Post Some True show thesis by (intro post [of st e es]) simp_all
    next
      case (TailInput j ev)
      with s obtain st st' evs where st: "th_reader t = FileReader st" "\<And>er. st \<noteq> Stopped er" "th_queue t = []"
        "ev = Cancel \<Longrightarrow> st \<noteq> Unopened" "tail_step (th_parse t) (src_path (th_source t)) st ev = (st', evs)"
        "m' = (case st' of Stopped er \<Rightarrow> finish t er | _ \<Rightarrow> id)
           (set_thread k (t\<lparr>th_reader := FileReader st', th_queue := evs, th_ticks := th_ticks t @ [ev]\<rparr>) m)"
        by (fastforce simp: tail_input_def Let_def split: reader.splits tail_state.splits if_splits prod.splits)
      then have "thread_at m' k = Some (t\<lparr>th_reader := FileReader st', th_queue := evs, th_ticks := th_ticks t @ [ev]\<rparr>)"
        using k by (cases st') simp_all
      with st TailInput Some True show thesis by (intro tail) auto
    next
      case (ListenResult j r)
      with s have b: "th_reader t = Binding" and m: "m' = listen_result k t r m" by (simp_all split: if_splits)
      from m k have "\<exists>rd. (rd = Accepting \<or> (\<exists>er. rd = ListenerDone er)) \<and> thread_at m' k = Some (t\<lparr>th_reader := rd\<rparr>)"
        by (cases r) (simp_all add: listen_result_def Let_def, blast+)
      with b ListenResult Some True listen show thesis by auto
    next
      case (AcceptConn j)
      with s k assms(2) have "thread_at m' k = Some t" by (auto simp: thread_at_Some nth_append split: if_splits)
      with AcceptConn show thesis by (intro same) auto
    next
      case (AcceptFailed j)
      with s Some True k drain same assms(2) show thesis by (auto split: if_splits)
    next
      case (ConnInput j rd)
      with s obtain i p ls r where c: "th_reader t = ConnReader i p" "th_queue t = []" "th_closed t \<Longrightarrow> rd = closed_read"
        "scan_reads socket_scan_buf p [rd] = (ls, r)"
        "m' = set_thread k (t\<lparr>th_reader := (case r of Reading p' \<Rightarrow> ConnReader i p' | _ \<Rightarrow> ConnDone i),
           th_queue := line_events (th_parse t) ls, th_reads := th_reads t @ [rd]\<rparr>) m"
        by (auto simp: conn_input_def split: reader.splits if_splits prod.splits)
      with ConnInput Some True k show thesis by (intro conn) auto
    next
      case (ConnsDone j)
      with s Some True k drained show thesis by (auto split: if_splits)
    next
      case (CloseFd j)
      with s Some True k close show thesis by (auto simp: close_fd_def split: if_splits)
    qed (use Some in simp)
  qed
qed

lemma thread_persists:
  "mgr_step cr em l m = Some m' \<Longrightarrow> thread_at m k = Some t \<Longrightarrow> \<exists>t'. thread_at m' k = Some t'"
  by (cases rule: thread_moves) blast+

text \<open>Goroutines are only added, by an accept loop.\<close>

lemma added_thread:
  assumes "mgr_step cr em l m = Some m'" "thread_at m' x = Some t'" "length (m_threads m) \<le> x"
  shows "\<exists>k t. parent t' = Some k \<and> thread_at m k = Some t \<and> th_reader t = Accepting"
  using assms(1)
proof (cases rule: mgr_step_cases)
  case (accept k t)
  then have "t' = new_thread (th_source t) (th_parse t) (ConnReader k [])"
    using assms(2,3) by (auto simp: thread_at_Some nth_append less_Suc_eq split: if_splits)
  with accept show ?thesis by (auto simp: parent_def)
next
  case (tail k t st ev st' evs)
  then show ?thesis using assms(2,3) by (cases st') (auto simp: thread_at_Some)
qed (use assms(2,3) in \<open>auto simp: thread_at_Some\<close>)

lemma own_activity_iff:
  "own_activity m l = Some (Posting k) \<longleftrightarrow> (\<exists>st. l = Post k st)"
  "own_activity m l = Some (FirstOpen k) \<longleftrightarrow> (\<exists>fs. l = TailInput k (Tick fs)) \<and> unopened_at m k"
  "own_activity m l = Some (Quit k) \<longleftrightarrow> l = TailInput k Cancel"
  "own_activity m l = Some (Bind k) \<longleftrightarrow> (\<exists>r. l = ListenResult k r)"
  "own_activity m l = Some (Close k) \<longleftrightarrow> l = CloseFd k"
  "own_activity m l = Some (Unblock k) \<longleftrightarrow> (l = AcceptFailed k \<or> (\<exists>rd. l = ConnInput k rd)) \<and> closed_at m k"
  "own_activity m l = Some (Join k) \<longleftrightarrow> l = ConnsDone k"
  by (cases "(m, l)" rule: own_activity.cases; auto)+

subsection \<open>Fair runs\<close>

text \<open>
  An infinite run: at every moment a step, or nothing. It is fair when each thing the relay can
  do by itself again and again is done again and again: the scheduler runs every goroutine,
  \<open>select\<close> does not pass over \<open>ctx.Done\<close> for ever (it chooses at random among the ready
  cases), and a request that was made is answered or fails.
\<close>

definition run_of :: "('k, 'j) crypto \<Rightarrow> 'k emitter \<Rightarrow> (nat \<Rightarrow> manager_state) \<Rightarrow> (nat \<Rightarrow> label option) \<Rightarrow> bool" where
  "run_of cr em r ls \<longleftrightarrow>
     (\<forall>i. case ls i of None \<Rightarrow> r (Suc i) = r i | Some l \<Rightarrow> mgr_step cr em l (r i) = Some (r (Suc i)))"

definition fair :: "('k, 'j) crypto \<Rightarrow> 'k emitter \<Rightarrow> (nat \<Rightarrow> manager_state) \<Rightarrow> (nat \<Rightarrow> label option) \<Rightarrow> bool" where
  "fair cr em r ls \<longleftrightarrow>
     (\<forall>a. (\<forall>i. \<exists>j\<ge>i. can cr em a (r j)) \<longrightarrow>
        (\<forall>i. \<exists>j\<ge>i. \<exists>l. ls j = Some l \<and> own_activity (r j) l = Some a))"

definition stopping :: "('k, 'j) crypto \<Rightarrow> 'k emitter \<Rightarrow> (source_config \<times> line_parser) list \<Rightarrow> world \<Rightarrow>
    (nat \<Rightarrow> manager_state) \<Rightarrow> (nat \<Rightarrow> label option) \<Rightarrow> bool" where
  "stopping cr em started w r ls \<longleftrightarrow>
     mgr_reach cr em (manager_start started w) (r 0) \<and> m_cancelled (r 0) \<and> run_of cr em r ls \<and> fair cr em r ls"

lemma run_step:
  assumes "run_of cr em r ls"
  obtains "r (Suc i) = r i" "ls i = None" | l where "ls i = Some l" "mgr_step cr em l (r i) = Some (r (Suc i))"
proof (cases "ls i")
  case None
  then show thesis using assms that(1) by (auto simp: run_of_def dest: spec [of _ i])
next
  case (Some l)
  then show thesis using assms that(2) by (auto simp: run_of_def dest: spec [of _ i])
qed

lemma stopping_state:
  assumes "stopping cr em started w r ls"
  shows "mgr_reach cr em (manager_start started w) (r i) \<and> m_cancelled (r i)"
proof (induction i)
  case 0
  show ?case using assms by (simp add: stopping_def)
next
  case (Suc i)
  have "run_of cr em r ls" using assms by (simp add: stopping_def)
  then show ?case
  proof (cases rule: run_step [of cr em r ls i])
    case (2 l)
    then show ?thesis using Suc mgr_step_cancelled [OF 2(2)] by (auto intro: mgr_reach.step)
  qed (use Suc in simp)
qed

text \<open>What goroutine \<open>k\<close> never loses once the context is cancelled.\<close>

definition stable_at :: "('k, 'j) crypto \<Rightarrow> 'k emitter \<Rightarrow> nat \<Rightarrow> (thread \<Rightarrow> bool) \<Rightarrow> bool" where
  "stable_at cr em k S \<longleftrightarrow>
     (\<forall>l m m' t t'. m_cancelled m \<longrightarrow> mgr_step cr em l m = Some m' \<longrightarrow> thread_at m k = Some t \<longrightarrow> S t \<longrightarrow>
        thread_at m' k = Some t' \<longrightarrow> S t')"

lemma stable_from:
  assumes "stopping cr em started w r ls" "stable_at cr em k S" "thread_at (r i) k = Some t" "S t" "i \<le> j"
  shows "\<exists>t. thread_at (r j) k = Some t \<and> S t"
  using assms(5)
proof (induction j rule: dec_induct)
  case base
  then show ?case using assms(3,4) by blast
next
  case (step j)
  then obtain t1 where t1: "thread_at (r j) k = Some t1" "S t1" by blast
  have "run_of cr em r ls" using assms(1) by (simp add: stopping_def)
  then show ?case
  proof (cases rule: run_step [of cr em r ls j])
    case (2 l)
    then obtain t2 where "thread_at (r (Suc j)) k = Some t2" using thread_persists t1(1) by blast
    with assms(2) 2 t1 stopping_state [OF assms(1)] show ?thesis unfolding stable_at_def by blast
  qed (use t1 in auto)
qed

lemma stable_eventually:
  assumes "stopping cr em started w r ls" "stable_at cr em k S" "thread_at (r i) k = Some t" "S t"
  shows "eventually (\<lambda>j. \<exists>t. thread_at (r j) k = Some t \<and> S t) sequentially"
  using stable_from [OF assms] by (auto simp: eventually_sequentially)

text \<open>
  The rule for progress: as long as \<open>P\<close> holds of goroutine \<open>k\<close> it is kept or \<open>Q\<close> is reached, an
  activity that becomes possible again and again makes \<open>Q\<close> true when it happens.
\<close>

lemma leads_to:
  assumes "stopping cr em started w r ls" "thread_at (r i) k = Some t" "P t"
    and kept: "\<And>l m m' t t'. m_cancelled m \<Longrightarrow> mgr_step cr em l m = Some m' \<Longrightarrow> thread_at m k = Some t \<Longrightarrow> P t \<Longrightarrow>
      thread_at m' k = Some t' \<Longrightarrow> (P t' \<or> Q t') \<and> (own_activity m l = Some a \<longrightarrow> Q t')"
    and enabled: "\<And>j t. i \<le> j \<Longrightarrow> thread_at (r j) k = Some t \<Longrightarrow> P t \<Longrightarrow>
      \<exists>n\<ge>j. (\<exists>t'. thread_at (r n) k = Some t' \<and> Q t') \<or> can cr em a (r n)"
  shows "\<exists>n\<ge>i. \<exists>t'. thread_at (r n) k = Some t' \<and> Q t'"
proof (rule ccontr)
  assume never: "\<not> ?thesis"
  have run: "run_of cr em r ls" "fair cr em r ls" using assms(1) by (simp_all add: stopping_def)
  have next_state: "\<exists>t'. thread_at (r (Suc j)) k = Some t' \<and> P t' \<and> (\<forall>l. ls j = Some l \<longrightarrow> own_activity (r j) l \<noteq> Some a)"
    if j: "i \<le> j" "thread_at (r j) k = Some t1" "P t1" for j t1
    using run(1)
  proof (cases rule: run_step [of cr em r ls j])
    case (2 l)
    then obtain t2 where t2: "thread_at (r (Suc j)) k = Some t2" using thread_persists j(2) by blast
    with never j(1) have "\<not> Q t2" by (meson le_SucI)
    with kept [OF _ 2(2) j(2,3) t2] stopping_state [OF assms(1)] 2(1) t2 show ?thesis by auto
  qed (use j in auto)
  have always: "\<exists>t. thread_at (r j) k = Some t \<and> P t" if "i \<le> j" for j
    using that
  proof (induction j rule: dec_induct)
    case base
    then show ?case using assms(2,3) by blast
  next
    case (step j)
    then show ?case using next_state by blast
  qed
  have "\<exists>n\<ge>j. can cr em a (r n)" for j
  proof -
    obtain t1 where "thread_at (r (max i j)) k = Some t1" "P t1" using always [of "max i j"] by auto
    from enabled [OF _ this] never show ?thesis by (meson max.bounded_iff order_refl)
  qed
  then obtain n l where n: "i \<le> n" "ls n = Some l" "own_activity (r n) l = Some a"
    using run(2) unfolding fair_def by blast
  obtain t1 where "thread_at (r n) k = Some t1" "P t1" using always [OF n(1)] by blast
  from next_state [OF n(1) this] n(2,3) show False by blast
qed

text \<open>When the activities are possible.\<close>

lemma can_post: "thread_at m k = Some t \<Longrightarrow> th_queue t \<noteq> [] \<Longrightarrow> can cr em (Posting k) m"
  unfolding can_def
  by (rule exI [of _ "Post k (0, [])"]) (auto simp: mgr_step_def post_event_def split: list.split)

lemma can_open:
  "thread_at m k = Some t \<Longrightarrow> th_reader t = FileReader Unopened \<Longrightarrow> th_queue t = [] \<Longrightarrow> can cr em (FirstOpen k) m"
  unfolding can_def
  by (rule exI [of _ "TailInput k (Tick no_file)"])
    (auto simp: mgr_step_def tail_input_def unopened_at_def Let_def split: prod.split)

lemma can_quit:
  "thread_at m k = Some t \<Longrightarrow> m_cancelled m \<Longrightarrow> th_reader t = FileReader st \<Longrightarrow> st \<noteq> Unopened \<Longrightarrow>
   \<forall>er. st \<noteq> Stopped er \<Longrightarrow> th_queue t = [] \<Longrightarrow> can cr em (Quit k) m"
  unfolding can_def
  by (rule exI [of _ "TailInput k Cancel"])
    (auto simp: mgr_step_def tail_input_def split: prod.split tail_state.split)

lemma can_bind: "thread_at m k = Some t \<Longrightarrow> th_reader t = Binding \<Longrightarrow> can cr em (Bind k) m"
  unfolding can_def by (rule exI [of _ "ListenResult k None"]) (auto simp: mgr_step_def)

lemma can_close: "thread_at m k = Some t \<Longrightarrow> m_cancelled m \<Longrightarrow> closable t \<Longrightarrow> can cr em (Close k) m"
  unfolding can_def by (rule exI [of _ "CloseFd k"]) (auto simp: mgr_step_def close_fd_def)

lemma can_unblock:
  assumes "thread_at m k = Some t" "th_closed t"
    and "th_reader t = Accepting \<or> (\<exists>j p. th_reader t = ConnReader j p) \<and> th_queue t = []"
  shows "can cr em (Unblock k) m"
  using assms(3)
proof
  assume "th_reader t = Accepting"
  then show ?thesis
    unfolding can_def using assms(1,2)
    by (intro exI [of _ "AcceptFailed k"]) (auto simp: mgr_step_def closed_at_def)
next
  assume "(\<exists>j p. th_reader t = ConnReader j p) \<and> th_queue t = []"
  then show ?thesis
    unfolding can_def using assms(1,2)
    by (intro exI [of _ "ConnInput k closed_read"])
      (auto simp: mgr_step_def conn_input_def closed_at_def split: prod.split)
qed

lemma can_join:
  "thread_at m k = Some t \<Longrightarrow> th_reader t = Draining \<Longrightarrow> list_all (conn_done k) (m_threads m) \<Longrightarrow> can cr em (Join k) m"
  unfolding can_def by (rule exI [of _ "ConnsDone k"]) (auto simp: mgr_step_def)

text \<open>What a goroutine has read gets posted.\<close>

lemma queue_drains:
  assumes "stopping cr em started w r ls" "stable_at cr em k S" "thread_at (r i) k = Some t" "S t"
  shows "\<exists>n\<ge>i. \<exists>t'. thread_at (r n) k = Some t' \<and> S t' \<and> th_queue t' = []"
  using assms(3,4)
proof (induction "length (th_queue t)" arbitrary: i t)
  case 0
  then show ?case by auto
next
  case (Suc q)
  have "\<exists>n\<ge>i. \<exists>t'. thread_at (r n) k = Some t' \<and> S t' \<and> length (th_queue t') = q"
  proof (rule leads_to [where P = "\<lambda>t. S t \<and> length (th_queue t) = Suc q" and a = "Posting k", OF assms(1) Suc.prems(1)])
    fix l m m' t t'
    assume s: "m_cancelled m" "mgr_step cr em l m = Some m'" "thread_at m k = Some t" "S t \<and> length (th_queue t) = Suc q"
      "thread_at m' k = Some t'"
    then have "S t'" using assms(2) unfolding stable_at_def by blast
    from s(2,3) show "((S t' \<and> length (th_queue t') = Suc q) \<or> (S t' \<and> length (th_queue t') = q)) \<and>
        (own_activity m l = Some (Posting k) \<longrightarrow> S t' \<and> length (th_queue t') = q)"
      by (cases rule: thread_moves) (use s \<open>S t'\<close> in \<open>auto simp: own_activity_iff\<close>)
  next
    fix j t
    assume "thread_at (r j) k = Some t" "S t \<and> length (th_queue t) = Suc q"
    then have "can cr em (Posting k) (r j)" by (intro can_post) auto
    then show "\<exists>n\<ge>j. (\<exists>t'. thread_at (r n) k = Some t' \<and> S t' \<and> length (th_queue t') = q) \<or> can cr em (Posting k) (r n)"
      by blast
  qed (use Suc in simp)
  then obtain n t' where "n \<ge> i" "thread_at (r n) k = Some t'" "S t'" "q = length (th_queue t')" by auto
  with Suc.hyps(1) [OF this(4,2,3)] show ?case by (meson order_trans)
qed

text \<open>A goroutine that, with an empty queue, can do \<open>a\<close>, and that \<open>a\<close> takes from \<open>P\<close> to \<open>Q\<close>.\<close>

lemma leads_to_idle:
  assumes "stopping cr em started w r ls" "thread_at (r i) k = Some t" "P t"
    and kept: "\<And>l m m' t t'. m_cancelled m \<Longrightarrow> mgr_step cr em l m = Some m' \<Longrightarrow> thread_at m k = Some t \<Longrightarrow> P t \<Longrightarrow>
      thread_at m' k = Some t' \<Longrightarrow> (P t' \<or> Q t') \<and> (own_activity m l = Some a \<longrightarrow> Q t')"
    and stays: "stable_at cr em k Q"
    and enabled: "\<And>m t. m_cancelled m \<Longrightarrow> thread_at m k = Some t \<Longrightarrow> P t \<Longrightarrow> th_queue t = [] \<Longrightarrow> can cr em a m"
  shows "\<exists>n\<ge>i. \<exists>t'. thread_at (r n) k = Some t' \<and> Q t'"
proof (rule leads_to [where P = P and Q = Q and a = a, OF assms(1-3)])
  fix j t
  assume j: "thread_at (r j) k = Some t" "P t"
  have "stable_at cr em k (\<lambda>t. P t \<or> Q t)"
    using kept stays unfolding stable_at_def by blast
  from queue_drains [OF assms(1) this j(1)] j(2) obtain n t' where n: "n \<ge> j" "thread_at (r n) k = Some t'"
    "P t' \<or> Q t'" "th_queue t' = []" by blast
  then show "\<exists>n\<ge>j. (\<exists>t'. thread_at (r n) k = Some t' \<and> Q t') \<or> can cr em a (r n)"
    using enabled stopping_state [OF assms(1)] by blast
qed (erule (4) kept)

subsection \<open>Every goroutine comes to its end\<close>

lemma try_open_opened [simp]: "try_open at_start path fs \<noteq> Unopened"
  by (simp add: try_open_def split: option.split)

lemma tail_step_opened:
  "tail_step parse path st ev = (st', evs) \<Longrightarrow> (ev = Cancel \<Longrightarrow> st \<noteq> Unopened) \<Longrightarrow> st' \<noteq> Unopened"
  by (cases "(parse, path, st, ev)" rule: tail_step.cases)
    (auto simp: tail_tick_def try_open_def split: if_splits prod.splits option.splits)

lemma tail_step_cancel:
  "tail_step parse path st Cancel = (st', evs) \<Longrightarrow> st \<noteq> Unopened \<Longrightarrow> \<exists>er. st' = Stopped er"
  by (cases st) auto

definition file_opened :: "thread \<Rightarrow> bool" where
  "file_opened t \<longleftrightarrow> (\<exists>st. th_reader t = FileReader st \<and> st \<noteq> Unopened)"

definition file_stopped :: "thread \<Rightarrow> bool" where
  "file_stopped t \<longleftrightarrow> (\<exists>er. th_reader t = FileReader (Stopped er))"

definition conn_over :: "nat \<Rightarrow> thread \<Rightarrow> bool" where
  "conn_over j t \<longleftrightarrow> th_reader t = ConnDone j"

definition listener_over :: "thread \<Rightarrow> bool" where
  "listener_over t \<longleftrightarrow> (\<exists>er. th_reader t = ListenerDone er)"

lemma stable_ends:
  "stable_at cr em k file_opened" "stable_at cr em k file_stopped"
  "stable_at cr em k (conn_over j)" "stable_at cr em k (\<lambda>t. conn_over j t \<and> th_queue t = [])"
  "stable_at cr em k listener_over"
  unfolding stable_at_def
proof (safe)
  fix l m m' t t'
  assume s: "m_cancelled m" "mgr_step cr em l m = Some m'" "thread_at m k = Some t" "thread_at m' k = Some t'"
  { assume "file_opened t"
    with s(2,3) show "file_opened t'"
      by (cases rule: thread_moves) (use s(4) tail_step_opened in \<open>auto simp: file_opened_def\<close>) }
  { assume "file_stopped t"
    with s(2,3) show "file_stopped t'"
      by (cases rule: thread_moves) (use s(4) in \<open>auto simp: file_stopped_def\<close>) }
  { assume "conn_over j t"
    with s(2,3) show "conn_over j t'"
      by (cases rule: thread_moves) (use s(4) in \<open>auto simp: conn_over_def\<close>) }
  { assume "conn_over j t" "th_queue t = []"
    with s(2,3) show "conn_over j t'" "th_queue t' = []"
      by (cases rule: thread_moves; use s(4) in \<open>auto simp: conn_over_def\<close>)+ }
  { assume "listener_over t"
    with s(2,3) show "listener_over t'"
      by (cases rule: thread_moves) (use s(4) in \<open>auto simp: listener_over_def\<close>) }
qed

lemma file_ends:
  assumes "stopping cr em started w r ls" "thread_at (r i) k = Some t" "th_reader t = FileReader st"
  shows "\<exists>n\<ge>i. \<exists>t'. thread_at (r n) k = Some t' \<and> file_stopped t'"
proof -
  have opened: "\<exists>n\<ge>i. \<exists>t'. thread_at (r n) k = Some t' \<and> file_opened t'"
  proof (cases "st = Unopened")
    case True
    show ?thesis
    proof (rule leads_to_idle [where P = "\<lambda>t. th_reader t = FileReader Unopened" and a = "FirstOpen k", OF assms(1,2)])
      fix l m m' t t'
      assume s: "mgr_step cr em l m = Some m'" "thread_at m k = Some t" "th_reader t = FileReader Unopened"
        "thread_at m' k = Some t'"
      from s(1,2) show "(th_reader t' = FileReader Unopened \<or> file_opened t') \<and>
          (own_activity m l = Some (FirstOpen k) \<longrightarrow> file_opened t')"
        by (cases rule: thread_moves) (use s tail_step_opened in \<open>auto simp: own_activity_iff file_opened_def\<close>)
    qed (use assms(3) True in \<open>auto intro: stable_ends can_open\<close>)
  qed (use assms(2,3) in \<open>auto simp: file_opened_def\<close>)
  then obtain n t1 where n: "i \<le> n" "thread_at (r n) k = Some t1" "file_opened t1" by blast
  let ?P = "\<lambda>t. file_opened t \<and> \<not> file_stopped t"
  have "\<exists>n'\<ge>n. \<exists>t'. thread_at (r n') k = Some t' \<and> file_stopped t'"
  proof (cases "file_stopped t1")
    case False
    show ?thesis
    proof (rule leads_to_idle [where P = ?P and a = "Quit k", OF assms(1) n(2)])
      fix l m m' t t'
      assume s: "m_cancelled m" "mgr_step cr em l m = Some m'" "thread_at m k = Some t" "?P t" "thread_at m' k = Some t'"
      have "file_opened t'" using stable_ends(1) s unfolding stable_at_def by blast
      from s(2,3) have "own_activity m l = Some (Quit k) \<longrightarrow> file_stopped t'"
        by (cases rule: thread_moves) (use s tail_step_cancel in \<open>auto simp: own_activity_iff file_stopped_def\<close>)
      with \<open>file_opened t'\<close> show "(?P t' \<or> file_stopped t') \<and> (own_activity m l = Some (Quit k) \<longrightarrow> file_stopped t')" by blast
    next
      fix m t
      assume "m_cancelled m" "thread_at m k = Some t" "?P t" "th_queue t = []"
      then show "can cr em (Quit k) m" by (auto simp: file_opened_def file_stopped_def intro: can_quit)
    qed (use n(3) False stable_ends in auto)
  qed (use n in auto)
  with n(1) show ?thesis by (meson order_trans)
qed

lemma conn_ends:
  assumes "stopping cr em started w r ls" "thread_at (r i) k = Some t" "th_reader t = ConnReader j p"
  shows "\<exists>n\<ge>i. \<exists>t'. thread_at (r n) k = Some t' \<and> conn_over j t' \<and> th_queue t' = []"
proof -
  let ?R = "\<lambda>t. \<exists>p. th_reader t = ConnReader j p"
  have "\<exists>n\<ge>i. \<exists>t'. thread_at (r n) k = Some t' \<and> (conn_over j t' \<or> ?R t' \<and> th_closed t')"
  proof (cases "th_closed t")
    case False
    show ?thesis
    proof (rule leads_to [where P = "\<lambda>t. ?R t \<and> \<not> th_closed t" and a = "Close k", OF assms(1,2)])
      fix l m m' t t'
      assume s: "mgr_step cr em l m = Some m'" "thread_at m k = Some t" "?R t \<and> \<not> th_closed t" "thread_at m' k = Some t'"
      from s(1,2) show "((?R t' \<and> \<not> th_closed t') \<or> (conn_over j t' \<or> ?R t' \<and> th_closed t')) \<and>
          (own_activity m l = Some (Close k) \<longrightarrow> conn_over j t' \<or> ?R t' \<and> th_closed t')"
        by (cases rule: thread_moves) (use s in \<open>auto simp: own_activity_iff conn_over_def split: scan_end.splits\<close>)
    next
      fix n t
      assume "thread_at (r n) k = Some t" "?R t \<and> \<not> th_closed t"
      then have "can cr em (Close k) (r n)"
        using stopping_state [OF assms(1)] by (intro can_close) (auto simp: closable_def)
      then show "\<exists>n'\<ge>n. (\<exists>t'. thread_at (r n') k = Some t' \<and> (conn_over j t' \<or> ?R t' \<and> th_closed t')) \<or>
          can cr em (Close k) (r n')" by blast
    qed (use assms(3) False in auto)
  qed (use assms(2,3) in auto)
  then obtain n t1 where n: "i \<le> n" "thread_at (r n) k = Some t1" "conn_over j t1 \<or> ?R t1 \<and> th_closed t1" by blast
  have "\<exists>n'\<ge>n. \<exists>t'. thread_at (r n') k = Some t' \<and> conn_over j t'"
  proof (cases "conn_over j t1")
    case False
    show ?thesis
    proof (rule leads_to_idle [where P = "\<lambda>t. ?R t \<and> th_closed t" and a = "Unblock k", OF assms(1) n(2)])
      fix l m m' t t'
      assume s: "m_cancelled m" "mgr_step cr em l m = Some m'" "thread_at m k = Some t" "?R t \<and> th_closed t"
        "thread_at m' k = Some t'"
      from s(2,3) show "((?R t' \<and> th_closed t') \<or> conn_over j t') \<and>
          (own_activity m l = Some (Unblock k) \<longrightarrow> conn_over j t')"
      proof (cases rule: thread_moves)
        case (conn j' p rd ls r)
        then have "\<forall>q. r \<noteq> Reading q" using scan_closed [of socket_scan_buf p] s(4) by auto
        then show ?thesis using conn s by (cases r) (auto simp: conn_over_def)
      qed (use s in \<open>auto simp: own_activity_iff conn_over_def closable_def\<close>)
    next
      fix m t
      assume "thread_at m k = Some t" "?R t \<and> th_closed t" "th_queue t = []"
      then show "can cr em (Unblock k) m" by (intro can_unblock) auto
    qed (use n(3) False stable_ends in auto)
  qed (use n in auto)
  then obtain n' t2 where n': "n \<le> n'" "thread_at (r n') k = Some t2" "conn_over j t2" by blast
  from queue_drains [OF assms(1) stable_ends(3) n'(2,3)] n(1) n'(1) show ?thesis by (meson order_trans)
qed

text \<open>The connections of a listener that no longer accepts are over at some time, and stay over.\<close>

lemma not_parent_stable: "stable_at cr em x (\<lambda>t. parent t \<noteq> Some k)"
  unfolding stable_at_def
proof (intro allI impI)
  fix l m m' t t'
  assume s: "mgr_step cr em l m = Some m'" "thread_at m x = Some t" "parent t \<noteq> Some k" "thread_at m' x = Some t'"
  from s(1,2) show "parent t' \<noteq> Some k"
    by (cases rule: thread_moves) (use s in \<open>auto simp: parent_def split: scan_end.splits reader.splits\<close>)
qed

definition listener_quiet :: "thread \<Rightarrow> bool" where
  "listener_quiet t \<longleftrightarrow> th_reader t = Draining \<or> listener_over t"

lemma listener_quiet_stable: "stable_at cr em k listener_quiet"
  unfolding stable_at_def
proof (intro allI impI)
  fix l m m' t t'
  assume s: "mgr_step cr em l m = Some m'" "thread_at m k = Some t" "listener_quiet t" "thread_at m' k = Some t'"
  from s(1,2) show "listener_quiet t'"
    by (cases rule: thread_moves) (use s in \<open>auto simp: listener_quiet_def listener_over_def\<close>)
qed

lemma no_new_conns:
  assumes "stopping cr em started w r ls" "thread_at (r i) k = Some t" "listener_quiet t" "i \<le> j"
    and "length (m_threads (r i)) \<le> x" "thread_at (r j) x = Some tx"
  shows "parent tx \<noteq> Some k"
  using assms(4,6)
proof (induction j arbitrary: tx rule: dec_induct)
  case base
  then show ?case using assms(5) by (auto simp: thread_at_Some)
next
  case (step j)
  have "run_of cr em r ls" using assms(1) by (simp add: stopping_def)
  then show ?case
  proof (cases rule: run_step [of cr em r ls j])
    case (2 l)
    show ?thesis
    proof (cases "thread_at (r j) x")
      case None
      then obtain k' t' where "parent tx = Some k'" "thread_at (r j) k' = Some t'" "th_reader t' = Accepting"
        using added_thread [OF 2(2) step.prems] by (auto simp: thread_at_def split: if_splits)
      moreover obtain t1 where "thread_at (r j) k = Some t1" "listener_quiet t1"
        using stable_from [OF assms(1) listener_quiet_stable assms(2,3) step.hyps(1)] by blast
      ultimately show ?thesis by (auto simp: listener_quiet_def listener_over_def)
    next
      case (Some t')
      with step.IH step.prems 2(2) stopping_state [OF assms(1)] show ?thesis
        using not_parent_stable [of cr em x k] unfolding stable_at_def by blast
    qed
  qed (use step in auto)
qed

lemma conns_end:
  assumes "stopping cr em started w r ls" "thread_at (r i) k = Some t" "listener_quiet t"
  shows "eventually (\<lambda>j. list_all (conn_done k) (m_threads (r j))) sequentially"
proof -
  let ?N = "length (m_threads (r i))"
  have "eventually (\<lambda>j. \<exists>t. thread_at (r j) x = Some t \<and> conn_done k t) sequentially" if "x < ?N" for x
  proof -
    from that obtain tx where tx: "thread_at (r i) x = Some tx" by (simp add: thread_at_def)
    consider p where "th_reader tx = ConnReader k p" | "conn_over k tx" | "parent tx \<noteq> Some k"
      by (cases "th_reader tx") (auto simp: parent_def conn_over_def)
    then show ?thesis
    proof cases
      case 3
      have "eventually (\<lambda>j. \<exists>t. thread_at (r j) x = Some t \<and> parent t \<noteq> Some k) sequentially"
        by (rule stable_eventually [OF assms(1) not_parent_stable tx 3])
      then show ?thesis
        by (rule eventually_mono) (auto simp: parent_def conn_done_def split: reader.splits)
    next
      case 1
      from conn_ends [OF assms(1) tx this] obtain n t' where n: "thread_at (r n) x = Some t'"
        "conn_over k t' \<and> th_queue t' = []" by blast
      from stable_eventually [OF assms(1) stable_ends(4) n] show ?thesis
        by (rule eventually_mono) (auto simp: conn_over_def conn_done_def)
    next
      case 2
      from queue_drains [OF assms(1) stable_ends(3) tx 2] obtain n t' where n: "thread_at (r n) x = Some t'"
        "conn_over k t' \<and> th_queue t' = []" by blast
      from stable_eventually [OF assms(1) stable_ends(4) n] show ?thesis
        by (rule eventually_mono) (auto simp: conn_over_def conn_done_def)
    qed
  qed
  then have "eventually (\<lambda>j. \<forall>x\<in>{..<?N}. \<exists>t. thread_at (r j) x = Some t \<and> conn_done k t) sequentially"
    by (intro eventually_ball_finite) auto
  moreover have "eventually (\<lambda>j. i \<le> j) sequentially" by (rule eventually_ge_at_top)
  ultimately show ?thesis
  proof eventually_elim
    case (elim j)
    have "conn_done k (m_threads (r j) ! x)" if "x < length (m_threads (r j))" for x
    proof (cases "x < ?N")
      case True
      with elim(1) show ?thesis by (auto simp: thread_at_Some)
    next
      case False
      have "parent (m_threads (r j) ! x) \<noteq> Some k"
        using no_new_conns [OF assms elim(2)] False that by (simp add: thread_at_Some)
      then show ?thesis by (auto simp: parent_def conn_done_def split: reader.splits)
    qed
    then show ?case by (simp add: list_all_length)
  qed
qed

lemma listener_ends:
  assumes "stopping cr em started w r ls" "thread_at (r i) k = Some t"
    and "th_reader t = Binding \<or> th_reader t = Accepting \<or> listener_quiet t"
  shows "\<exists>n\<ge>i. \<exists>t'. thread_at (r n) k = Some t' \<and> listener_over t'"
proof -
  note st = stopping_state [OF assms(1)]
  let ?bound = "\<lambda>t. th_reader t = Accepting \<or> listener_quiet t"
  have bound: "\<exists>n\<ge>i. \<exists>t'. thread_at (r n) k = Some t' \<and> ?bound t'"
  proof (cases "?bound t")
    case False
    show ?thesis
    proof (rule leads_to [where P = "\<lambda>t. th_reader t = Binding" and a = "Bind k", OF assms(1,2)])
      fix l m m' t t'
      assume s: "mgr_step cr em l m = Some m'" "thread_at m k = Some t" "th_reader t = Binding" "thread_at m' k = Some t'"
      from s(1,2) show "(th_reader t' = Binding \<or> ?bound t') \<and> (own_activity m l = Some (Bind k) \<longrightarrow> ?bound t')"
        by (cases rule: thread_moves)
          (use s in \<open>auto simp: own_activity_iff listener_quiet_def listener_over_def closable_def\<close>)
    qed (use assms(3) False can_bind in blast)+
  qed (use assms(2) in auto)
  then obtain n t1 where n: "i \<le> n" "thread_at (r n) k = Some t1" "?bound t1" by blast
  let ?closed = "\<lambda>t. th_reader t = Accepting \<and> th_closed t \<or> listener_quiet t"
  have "\<exists>n'\<ge>n. \<exists>t'. thread_at (r n') k = Some t' \<and> ?closed t'"
  proof (cases "?closed t1")
    case False
    show ?thesis
    proof (rule leads_to [where P = "\<lambda>t. th_reader t = Accepting \<and> \<not> th_closed t" and a = "Close k", OF assms(1) n(2)])
      fix l m m' t t'
      assume s: "mgr_step cr em l m = Some m'" "thread_at m k = Some t" "th_reader t = Accepting \<and> \<not> th_closed t"
        "thread_at m' k = Some t'"
      from s(1,2) show "((th_reader t' = Accepting \<and> \<not> th_closed t') \<or> ?closed t') \<and>
          (own_activity m l = Some (Close k) \<longrightarrow> ?closed t')"
        by (cases rule: thread_moves) (use s in \<open>auto simp: own_activity_iff listener_quiet_def\<close>)
    next
      fix j t
      assume "thread_at (r j) k = Some t" "th_reader t = Accepting \<and> \<not> th_closed t"
      then have "can cr em (Close k) (r j)" using st by (intro can_close) (auto simp: closable_def)
      then show "\<exists>n'\<ge>j. (\<exists>t'. thread_at (r n') k = Some t' \<and> ?closed t') \<or> can cr em (Close k) (r n')" by blast
    qed (use n(3) False in blast)
  qed (use n in auto)
  then obtain n2 t2 where n2: "n \<le> n2" "thread_at (r n2) k = Some t2" "?closed t2" by blast
  have "\<exists>n'\<ge>n2. \<exists>t'. thread_at (r n') k = Some t' \<and> listener_quiet t'"
  proof (cases "listener_quiet t2")
    case False
    show ?thesis
    proof (rule leads_to [where P = "\<lambda>t. th_reader t = Accepting \<and> th_closed t" and a = "Unblock k", OF assms(1) n2(2)])
      fix l m m' t t'
      assume s: "m_cancelled m" "mgr_step cr em l m = Some m'" "thread_at m k = Some t"
        "th_reader t = Accepting \<and> th_closed t" "thread_at m' k = Some t'"
      from s(2,3) show "((th_reader t' = Accepting \<and> th_closed t') \<or> listener_quiet t') \<and>
          (own_activity m l = Some (Unblock k) \<longrightarrow> listener_quiet t')"
        by (cases rule: thread_moves) (use s in \<open>auto simp: own_activity_iff listener_quiet_def\<close>)
    next
      fix j t
      assume "thread_at (r j) k = Some t" "th_reader t = Accepting \<and> th_closed t"
      then have "can cr em (Unblock k) (r j)" by (intro can_unblock) auto
      then show "\<exists>n'\<ge>j. (\<exists>t'. thread_at (r n') k = Some t' \<and> listener_quiet t') \<or> can cr em (Unblock k) (r n')" by blast
    qed (use n2(3) False in blast)
  qed (use n2 in auto)
  then obtain n3 t3 where n3: "n2 \<le> n3" "thread_at (r n3) k = Some t3" "listener_quiet t3" by blast
  have "\<exists>n'\<ge>n3. \<exists>t'. thread_at (r n') k = Some t' \<and> listener_over t'"
  proof (cases "listener_over t3")
    case False
    show ?thesis
    proof (rule leads_to [where P = "\<lambda>t. th_reader t = Draining" and a = "Join k", OF assms(1) n3(2)])
      fix l m m' t t'
      assume s: "mgr_step cr em l m = Some m'" "thread_at m k = Some t" "th_reader t = Draining" "thread_at m' k = Some t'"
      from s(1,2) show "(th_reader t' = Draining \<or> listener_over t') \<and> (own_activity m l = Some (Join k) \<longrightarrow> listener_over t')"
        by (cases rule: thread_moves) (use s in \<open>auto simp: own_activity_iff listener_over_def closable_def\<close>)
    next
      fix j t
      assume j: "n3 \<le> j"
      from conns_end [OF assms(1) n3(2,3)] obtain n4 where "\<forall>j'\<ge>n4. list_all (conn_done k) (m_threads (r j'))"
        by (auto simp: eventually_sequentially)
      then have joined: "list_all (conn_done k) (m_threads (r (max j n4)))" by simp
      from j have "n3 \<le> max j n4" by simp
      from stable_from [OF assms(1) listener_quiet_stable n3(2,3) this] obtain t4 where
        "thread_at (r (max j n4)) k = Some t4" "listener_quiet t4" by blast
      then have "(\<exists>t'. thread_at (r (max j n4)) k = Some t' \<and> listener_over t') \<or> can cr em (Join k) (r (max j n4))"
        using joined by (auto simp: listener_quiet_def intro: can_join)
      then show "\<exists>n'\<ge>j. (\<exists>t'. thread_at (r n') k = Some t' \<and> listener_over t') \<or> can cr em (Join k) (r n')"
        using max.cobounded1 by blast
    qed (use n3(3) False in \<open>auto simp: listener_quiet_def\<close>)
  qed (use n3 in auto)
  with n(1) n2(1) n3(1) show ?thesis by (meson order_trans)
qed

lemma source_ends:
  assumes "stopping cr em started w r ls" "k < length started"
  shows "eventually (\<lambda>j. \<exists>t. thread_at (r j) k = Some t \<and> source_done t) sequentially"
proof -
  have "books cr em started w (r 0)"
    using reach_invariant stopping_state [OF assms(1), of 0] by blast
  then have b: "\<forall>k < length (m_threads (r 0)). is_conn (m_threads (r 0) ! k) \<longleftrightarrow> length started \<le> k"
    "length started \<le> length (m_threads (r 0))"
    using books_sources by (blast, auto simp: books_def dest: arg_cong [of _ _ length])
  with assms(2) obtain t where t: "thread_at (r 0) k = Some t" "\<not> is_conn t"
    by (auto simp: thread_at_def)
  consider st where "th_reader t = FileReader st" | "th_reader t = Binding \<or> th_reader t = Accepting \<or> listener_quiet t"
    using t(2) by (cases "th_reader t") (auto simp: is_conn_def listener_quiet_def listener_over_def)
  then show ?thesis
  proof cases
    case 1
    from file_ends [OF assms(1) t(1) this] obtain n t' where n: "thread_at (r n) k = Some t'" "file_stopped t'" by blast
    from stable_eventually [OF assms(1) stable_ends(2) n] show ?thesis
      by (rule eventually_mono) (auto simp: file_stopped_def source_done_def)
  next
    case 2
    from listener_ends [OF assms(1) t(1) this] obtain n t' where n: "thread_at (r n) k = Some t'" "listener_over t'" by blast
    from stable_eventually [OF assms(1) stable_ends(5) n] show ?thesis
      by (rule eventually_mono) (auto simp: listener_over_def source_done_def)
  qed
qed

lemma all_end:
  assumes "stopping cr em started w r ls"
  shows "eventually (\<lambda>j. list_all source_done (m_threads (r j))) sequentially"
proof -
  have "eventually (\<lambda>j. \<forall>k\<in>{..<length started}. \<exists>t. thread_at (r j) k = Some t \<and> source_done t) sequentially"
    using source_ends [OF assms] by (intro eventually_ball_finite) auto
  then show ?thesis
  proof (rule eventually_mono)
    fix j
    assume src: "\<forall>k\<in>{..<length started}. \<exists>t. thread_at (r j) k = Some t \<and> source_done t"
    have "books cr em started w (r j)" using reach_invariant stopping_state [OF assms, of j] by blast
    then have "is_conn (m_threads (r j) ! k)" if "k < length (m_threads (r j))" "length started \<le> k" for k
      using books_sources that by blast
    moreover have "is_conn t \<Longrightarrow> source_done t" for t by (simp add: source_done_iff)
    ultimately have "source_done (m_threads (r j) ! k)" if "k < length (m_threads (r j))" for k
      using src that by (cases "k < length started") (fastforce simp: thread_at_Some)+
    then show "list_all source_done (m_threads (r j))" by (simp add: list_all_length)
  qed
qed

subsection \<open>Properties\<close>

text \<open>C8: After a cancellation the manager stops: whatever it was doing, \<open>Run\<close> returns in every run that
  is fair to the steps the relay makes by itself, and stays returned with the same result and
  nothing left to post. Nobody else has to help: peers may keep their connections open and
  send, new ones may connect, no \<open>Accept\<close> has to fail and no file to appear or to rest. It is
  the goroutines that close the listener and the connections that unblock the readers.\<close>

theorem manager_stops:
  assumes "mgr_reach cr em (manager_start started w) (r 0)" "m_cancelled (r 0)"
    and "run_of cr em r ls" "fair cr em r ls"
  shows "\<exists>n er. \<forall>j\<ge>n. run_result (r j) = Some er \<and> length (m_finished (r j)) = length started \<and>
    list_all (\<lambda>t. th_queue t = []) (m_threads (r j))"
proof -
  have stop: "stopping cr em started w r ls" using assms by (simp add: stopping_def)
  obtain n where n: "\<And>j. n \<le> j \<Longrightarrow> list_all source_done (m_threads (r j))"
    using all_end [OF stop] by (auto simp: eventually_sequentially)
  have inv: "refines (r j)" "books cr em started w (r j)" "tidy (r j)" for j
    using reach_invariant tidy_reach stopping_state [OF stop, of j] by blast+
  have same: "m_finished (r j) = m_finished (r n)" if "n \<le> j" for j
    using that
  proof (induction j rule: dec_induct)
    case (step j)
    then show ?case
      by (cases rule: run_step [OF assms(3), of j]) (use returned_stays inv n in fastforce)+
  qed simp
  have "run_result (r j) = Some (first_error (m_finished (r n))) \<and> length (m_finished (r j)) = length started \<and>
      list_all (\<lambda>t. th_queue t = []) (m_threads (r j))" if "n \<le> j" for j
  proof -
    have res: "run_result (r j) = Some (first_error (m_finished (r n)))"
      using n [OF that] same [OF that] by (simp add: run_result_def)
    then show ?thesis
      using books_count [OF inv(2) [of j]] returned_idle [OF inv(1,3) n [OF that]] by (simp add: list_all_length)
  qed
  then show ?thesis by blast
qed

definition stop_labels :: "label list" where
  "stop_labels = [CloseFd 2, ConnInput 2 closed_read, ConnsDone 0]"

definition stop_run :: "nat \<Rightarrow> manager_state" where
  "stop_run i = the (mgr_run example_crypto example_emitter (take i stop_labels) example_state)"

lemma stop_run_end:
  "mgr_run example_crypto example_emitter stop_labels example_state = Some (stop_run 3)"
  "map th_reader (m_threads (stop_run 3)) = [ListenerDone None, ConnDone 0, ConnDone 0]"
  "map th_queue (m_threads (stop_run 3)) = [[], [], []]"
  "m_finished (stop_run 3) = [(''s'', None)]"
  by (simp_all add: stop_run_def stop_labels_def example_state_def example_labels_def machine_defs example_sc_def
      example_parse_def socket_scan_buf_def nl_def drop_cr_def line_events_def map_filter_simps closed_read_def)

lemma mgr_run_nth:
  "mgr_run cr em ls m = Some m' \<Longrightarrow> i < length ls \<Longrightarrow>
   mgr_step cr em (ls ! i) (the (mgr_run cr em (take i ls) m)) = Some (the (mgr_run cr em (take (Suc i) ls) m))"
proof (induction ls arbitrary: m i)
  case (Cons l ls)
  then obtain m1 where m1: "mgr_step cr em l m = Some m1" "mgr_run cr em ls m1 = Some m'"
    by (auto split: option.splits)
  then show ?case
  proof (cases i)
    case (Suc j)
    with Cons.IH [OF m1(2), of j] Cons.prems(2) m1(1) show ?thesis by simp
  qed simp
qed simp

lemma stop_run_step:
  "i < 3 \<Longrightarrow> mgr_step example_crypto example_emitter (stop_labels ! i) (stop_run i) = Some (stop_run (Suc i))"
  unfolding stop_run_def by (rule mgr_run_nth [OF stop_run_end(1)]) (simp add: stop_labels_def)

lemma idle_cannot:
  assumes "\<And>k t. thread_at m k = Some t \<Longrightarrow> th_queue t = [] \<and> (conn_over 0 t \<or> listener_over t)"
  shows "\<not> can cr em a m"
proof
  assume "can cr em a m"
  then obtain l m' where l: "own_activity m l = Some a" "mgr_step cr em l m = Some m'" by (auto simp: can_def)
  then obtain k where k: "label_thread l = Some k" "(\<forall>j. l \<noteq> AcceptConn j)" by (cases l) auto
  with l(2) obtain t where t: "thread_at m k = Some t" by (auto simp: mgr_step_def split: option.splits)
  with assms have "th_queue t = []" "conn_over 0 t \<or> listener_over t" by auto
  with l k t show False
    by (cases l) (auto simp: mgr_step_def post_event_def tail_input_def conn_input_def close_fd_def closable_def
        conn_over_def listener_over_def)
qed

theorem manager_stops_witness:
  "run_result (stop_run 3) = Some None \<and> length (m_finished (stop_run 3)) = 1"
proof -
  let ?ls = "\<lambda>i. if i < 3 then Some (stop_labels ! i) else None"
  let ?r = "\<lambda>i. stop_run (min i 3)"
  have "run_of example_crypto example_emitter ?r ?ls"
    unfolding run_of_def using stop_run_step by (auto simp: min_def)
  moreover have "fair example_crypto example_emitter ?r ?ls"
  proof -
    have "th_queue t = [] \<and> (conn_over 0 t \<or> listener_over t)" if "thread_at (stop_run 3) k = Some t" for k t
    proof -
      have "t \<in> set (m_threads (stop_run 3))" using that by (auto simp: thread_at_Some)
      then have "th_reader t \<in> set [ListenerDone None, ConnDone 0, ConnDone 0]" "th_queue t \<in> set [[], [], []]"
        unfolding stop_run_end(2,3) [symmetric] set_map by blast+
      then show ?thesis by (auto simp: conn_over_def listener_over_def)
    qed
    then have "\<not> can example_crypto example_emitter a (?r j)" if "3 \<le> j" for a j
      using idle_cannot [of "stop_run 3"] that by (simp add: min_def)
    then show ?thesis unfolding fair_def by blast
  qed
  moreover have "mgr_reach example_crypto example_emitter
      (manager_start [(example_sc, example_parse)] (example_world 200 [])) (?r 0)" "m_cancelled (?r 0)"
    using example_reach example_run(5) by (simp_all add: stop_run_def)
  ultimately obtain n er where "\<forall>j\<ge>n. run_result (?r j) = Some er \<and>
      length (m_finished (?r j)) = length [(example_sc, example_parse)] \<and>
      list_all (\<lambda>t. th_queue t = []) (m_threads (?r j))"
    using manager_stops [of example_crypto example_emitter "[(example_sc, example_parse)]" "example_world 200 []" ?r ?ls]
    by blast
  from this [THEN spec, of "n + 3"] have fin: "run_result (stop_run 3) = Some er" "length (m_finished (stop_run 3)) = 1"
    by (simp_all add: min_absorb2)
  have "er = None" using fin(1) stop_run_end(4) by (simp add: run_result_def split: if_splits)
  with fin show ?thesis by simp
qed

end
