(* ===== verification/Subscriber_Steps.thy ===== *)
theory Subscriber_Steps
  imports Subscriber
begin

text \<open>
  The reconnect loop of \<open>relay/subscriber.go\<close> at the grain at which other goroutines can come in
  between: one request, or one line of the stream, per step. The relation \<open>sub_step\<close> of
  Subscriber reads a whole stream in one step; the two have the same runs.
\<close>

subsection \<open>The subscriber in small steps\<close>

text \<open>\<open>readSSE\<close> up to its loop: the lines the scanner will deliver, if the stream opens.\<close>

definition open_sse :: "subscriber \<Rightarrow> ending \<Rightarrow> string \<Rightarrow> world \<Rightarrow> string list option \<times> world" where
  "open_sse sub fin i w =
     (case new_request w ''GET'' (sse_url sub i) [] of
        Inl er \<Rightarrow> (None, w)
      | Inr rq \<Rightarrow>
     (case http_do (set_header ''Cache-Control'' ''no-cache'' (set_header ''Accept'' ''text/event-stream'' rq)) w of
        (Inl er, w') \<Rightarrow> (None, w')
      | (Inr resp, w') \<Rightarrow>
          (if rs_status resp \<noteq> 200 then (None, w')
           else (Some (fst (scan_reads sse_scan_buf [] (sse_reads (rs_body resp) fin))), w'))))"

text \<open>In the reconnect loop, before \<open>readSSE\<close> with a stream ID, or in its loop with lines to come.\<close>

datatype sub_state = Phase sub_phase | Created string | Streaming "string list"

inductive sub_small :: "subscriber \<Rightarrow> string list \<Rightarrow> bool \<Rightarrow> sub_state \<times> world \<Rightarrow> sub_state \<times> world \<Rightarrow> bool"
  for sub types cancelled where
  cancel_idle: "cancelled \<Longrightarrow> sub_small sub types cancelled (Phase Idle, w) (Phase Done, w)"
| cancel_connect: "cancelled \<Longrightarrow> sub_small sub types cancelled (Phase (Connect b), w) (Phase Done, w)"
| cancel_wait: "cancelled \<Longrightarrow> sub_small sub types cancelled (Phase (Wait b), w) (Phase Done, w)"
| create_failed: "create_stream sub types w = (Inl er, w') \<Longrightarrow>
    sub_small sub types cancelled (Phase (Connect b), w) (Phase (Wait b), w')"
| created: "create_stream sub types w = (Inr i, w') \<Longrightarrow>
    sub_small sub types cancelled (Phase (Connect b), w) (Created i, w')"
| open_failed: "open_sse sub fin i w = (None, w') \<Longrightarrow>
    sub_small sub types cancelled (Created i, w) (Phase (Wait initial_backoff), w')"
| opened: "open_sse sub fin i w = (Some ls, w') \<Longrightarrow>
    sub_small sub types cancelled (Created i, w) (Streaming ls, w')"
| line: "sub_small sub types cancelled (Streaming (l # ls), w) (Streaming ls, sse_line (sub_router sub) l w)"
| line_cancelled: "cancelled \<Longrightarrow>
    sub_small sub types cancelled (Streaming (l # ls), w) (Phase (Wait initial_backoff), w)"
| stream_over: "sub_small sub types cancelled (Streaming [], w) (Phase (Wait initial_backoff), w)"
| wait_passed:
    "sub_small sub types cancelled (Phase (Wait b), w) (Phase (Connect (cap_duration (b * 2) max_backoff)), w)"

inductive_cases sub_phaseE: "sub_small sub types c (Phase p, w) st"
inductive_cases sub_createdE: "sub_small sub types c (Created i, w) st"
inductive_cases sub_streamingE: "sub_small sub types c (Streaming ls, w) st"

subsection \<open>Small steps make the big ones\<close>

lemma read_sse_world:
  "snd (read_sse sub fin seen i w) =
     (case open_sse sub fin i w of
        (None, w') \<Rightarrow> w'
      | (Some ls, w') \<Rightarrow> snd (sse_lines (sub_router sub) seen 0 ls w'))"
  by (auto simp: read_sse_def open_sse_def split: sum.split prod.split bool.split option.split)

lemma small_lines:
  assumes "\<forall>k. seen k \<longrightarrow> c"
  shows "(sub_small sub types c)\<^sup>*\<^sup>* (Streaming ls, w)
    (Phase (Wait initial_backoff), snd (sse_lines (sub_router sub) seen n ls w))"
proof (induction ls arbitrary: n w)
  case Nil
  show ?case using stream_over by auto
next
  case (Cons l ls)
  show ?case
  proof (cases "seen n")
    case True
    then show ?thesis using assms line_cancelled [of c] by auto
  next
    case False
    have "sub_small sub types c (Streaming (l # ls), w) (Streaming ls, sse_line (sub_router sub) l w)"
      by (rule line)
    with Cons.IH [of "sse_line (sub_router sub) l w" "Suc n"] False show ?thesis
      by (simp add: converse_rtranclp_into_rtranclp)
  qed
qed

text \<open>Every step of the reconnect loop is a run of small steps.\<close>

lemma sub_step_small:
  assumes "sub_step sub types (p, w) (p', w')"
  shows "(sub_small sub types True)\<^sup>*\<^sup>* (Phase p, w) (Phase p', w')"
  using assms
proof (cases rule: sub_step.cases)
  case (connect_streamed i w1 fin cancelled er b)
  have c: "sub_small sub types True (Phase (Connect b), w) (Created i, w1)"
    using connect_streamed by (auto intro: created)
  have "(sub_small sub types True)\<^sup>*\<^sup>* (Created i, w1) (Phase (Wait initial_backoff), snd (read_sse sub fin cancelled i w1))"
  proof (cases "open_sse sub fin i w1")
    case (Pair o1 w2)
    show ?thesis
    proof (cases o1)
      case None
      then show ?thesis using Pair open_failed [of sub fin i w1 w2] by (auto simp: read_sse_world)
    next
      case (Some ls)
      then have "sub_small sub types True (Created i, w1) (Streaming ls, w2)" using Pair by (auto intro: opened)
      with small_lines [of cancelled True sub types ls w2 0] Some Pair show ?thesis
        by (simp add: read_sse_world converse_rtranclp_into_rtranclp)
    qed
  qed
  with c connect_streamed show ?thesis by (simp add: converse_rtranclp_into_rtranclp)
qed (auto intro: sub_small.intros)

lemma sub_steps_small:
  assumes "(sub_step sub types)\<^sup>*\<^sup>* (p, w) (p', w')"
  shows "(sub_small sub types True)\<^sup>*\<^sup>* (Phase p, w) (Phase p', w')"
  using assms
proof (induction "(p', w')" arbitrary: p' w' rule: rtranclp_induct)
  case (step y)
  obtain p1 w1 where y: "y = (p1, w1)" by fastforce
  from step(3) [OF y] sub_step_small [of sub types p1 w1 p' w'] step(2) y show ?case
    by (meson rtranclp_trans)
qed simp

subsection \<open>and nothing else\<close>

lemma sse_lines_stop:
  "m = n + length pre \<Longrightarrow> sse_lines r (\<lambda>k. k = m) n (pre @ l # ls) w = (True, fold (sse_line r) pre w)"
  by (induction pre arbitrary: n w) auto

text \<open>Where the big-step loop is while the small one is between two of its states.\<close>

definition between :: "subscriber \<Rightarrow> string list \<Rightarrow> sub_phase \<times> world \<Rightarrow> sub_state \<times> world \<Rightarrow> bool" where
  "between sub types st sm \<longleftrightarrow>
     (case fst sm of
        Phase p \<Rightarrow> (sub_step sub types)\<^sup>*\<^sup>* st (p, snd sm)
      | Created i \<Rightarrow>
          (\<exists>b w0. (sub_step sub types)\<^sup>*\<^sup>* st (Connect b, w0) \<and> create_stream sub types w0 = (Inr i, snd sm))
      | Streaming ls \<Rightarrow>
          (\<exists>b w0 i w1 fin pre w2. (sub_step sub types)\<^sup>*\<^sup>* st (Connect b, w0) \<and>
             create_stream sub types w0 = (Inr i, w1) \<and> open_sse sub fin i w1 = (Some (pre @ ls), w2) \<and>
             snd sm = fold (sse_line (sub_router sub)) pre w2))"

lemma between_streaming:
  assumes "(sub_step sub types)\<^sup>*\<^sup>* st (Connect b, w0)" "create_stream sub types w0 = (Inr i, w1)"
    and "open_sse sub fin i w1 = (Some (pre @ ls), w2)" "v = fold (sse_line (sub_router sub)) pre w2"
  shows "between sub types st (Streaming ls, v)"
  unfolding between_def using assms by (simp only: fst_conv snd_conv sub_state.case) blast

lemma streamed:
  assumes "(sub_step sub types)\<^sup>*\<^sup>* st (Connect b, w0)" "create_stream sub types w0 = (Inr i, w1)"
    and "snd (read_sse sub fin seen i w1) = w2"
  shows "(sub_step sub types)\<^sup>*\<^sup>* st (Wait initial_backoff, w2)"
  using assms connect_streamed [OF assms(2), of fin seen "fst (read_sse sub fin seen i w1)" w2 b]
  by (auto simp: prod_eq_iff intro: rtranclp.rtrancl_into_rtrancl)

lemma between_step:
  assumes "sub_small sub types c sm sm'" "between sub types st sm"
  shows "between sub types st sm'"
  using assms
proof (cases rule: sub_small.cases)
  case (created w i w' b)
  then show ?thesis using assms(2) by (auto simp: between_def)
next
  case (open_failed fin i w w')
  with assms(2) obtain b w0 where "(sub_step sub types)\<^sup>*\<^sup>* st (Connect b, w0)" "create_stream sub types w0 = (Inr i, w)"
    by (auto simp: between_def)
  from streamed [OF this, of fin "\<lambda>_. False" w'] open_failed show ?thesis
    by (simp add: between_def read_sse_world)
next
  case (opened fin i w ls w')
  with assms(2) obtain b w0 where "(sub_step sub types)\<^sup>*\<^sup>* st (Connect b, w0)" "create_stream sub types w0 = (Inr i, w)"
    by (auto simp: between_def)
  from between_streaming [OF this, of fin "[]" ls w' w'] opened show ?thesis by simp
next
  case (line l ls w)
  with assms(2) obtain b w0 i w1 fin pre w2 where "(sub_step sub types)\<^sup>*\<^sup>* st (Connect b, w0)"
    "create_stream sub types w0 = (Inr i, w1)" "open_sse sub fin i w1 = (Some (pre @ l # ls), w2)"
    "w = fold (sse_line (sub_router sub)) pre w2" by (auto simp: between_def)
  from between_streaming [OF this(1,2), of fin "pre @ [l]" ls w2] this(3,4) line show ?thesis by simp
next
  case (line_cancelled l ls w)
  with assms(2) obtain b w0 i w1 fin pre w2 where s: "(sub_step sub types)\<^sup>*\<^sup>* st (Connect b, w0)"
    "create_stream sub types w0 = (Inr i, w1)" "open_sse sub fin i w1 = (Some (pre @ l # ls), w2)"
    "w = fold (sse_line (sub_router sub)) pre w2" by (auto simp: between_def)
  have "snd (read_sse sub fin (\<lambda>k. k = length pre) i w1) = w"
    by (simp add: read_sse_world s(3,4) sse_lines_stop)
  from streamed [OF s(1,2) this] line_cancelled show ?thesis by (simp add: between_def)
next
  case (stream_over w)
  with assms(2) obtain b w0 i w1 fin pre w2 where s: "(sub_step sub types)\<^sup>*\<^sup>* st (Connect b, w0)"
    "create_stream sub types w0 = (Inr i, w1)" "open_sse sub fin i w1 = (Some pre, w2)"
    "w = fold (sse_line (sub_router sub)) pre w2" by (auto simp: between_def)
  have "snd (read_sse sub fin (\<lambda>_. False) i w1) = w"
    by (simp add: read_sse_world s(3,4) sse_lines_live)
  from streamed [OF s(1,2) this] stream_over show ?thesis by (simp add: between_def)
qed (use assms(2) in \<open>auto simp: between_def intro: sub_step.intros rtranclp.rtrancl_into_rtrancl\<close>)

lemma small_between:
  assumes "(sub_small sub types c)\<^sup>*\<^sup>* (Phase p, w) sm"
  shows "between sub types (p, w) sm"
  using assms by (induction rule: rtranclp_induct) (auto simp: between_def [of _ _ _ "(Phase p, w)"] intro: between_step)

text \<open>The subscriber in small steps is the subscriber: between two states of its reconnect loop the
  machine that makes one request or dispatches one line at a time has exactly the runs of the
  loop that reads a stream in one go, wherever in a stream the cancellation is seen.\<close>

lemma subscriber_steps_equivalent:
  "(sub_small sub types True)\<^sup>*\<^sup>* (Phase p, w) (Phase p', w') \<longleftrightarrow>
   (sub_step sub types)\<^sup>*\<^sup>* (p, w) (p', w')"
  using small_between [of sub types True p w "(Phase p', w')"] sub_steps_small
  by (auto simp: between_def)

end
