(* ===== verification/Relay_Process.thy ===== *)
theory Relay_Process
  imports Relay_Main Manager_Stop Subscriber_Steps
begin

text \<open>
  The end of \<open>main\<close> (\<open>cmd/ssf-relay/main.go\<close>): the manager and the subscriber run concurrently,
  each sends its result to \<open>errCh\<close>, and the process leaves on the first error or after both.
  The subscriber moves in small steps (one request or one line of the stream at a time), so
  that its requests and those of the sources' goroutines interleave; each of the two parts
  runs as it would alone, in a network the other one uses too.
\<close>

subsection \<open>The process\<close>

text \<open>
  \<open>pr_results\<close> is what \<open>errCh\<close> has delivered, in that order; the flags say whose result it
  holds already. The context is the manager's; both share its world.
\<close>

record process =
  pr_manager :: manager_state
  pr_sub :: sub_state
  pr_results :: "err list"
  pr_manager_back :: bool
  pr_sub_back :: bool

text \<open>When a source cannot be built \<open>Run\<close> returns at once and leaves the started ones running.\<close>

definition process_start :: "'k manager \<Rightarrow> string list \<Rightarrow> world \<Rightarrow> process" where
  "process_start mg types w =
     (case start_sources (mg_build mg) (cfg_sources (mg_config mg)) of
        (started, er) \<Rightarrow>
          \<lparr>pr_manager = manager_start started w, pr_sub = Phase (sub_start types),
           pr_results = (case er of None \<Rightarrow> [] | Some e \<Rightarrow> [Some e]),
           pr_manager_back = (er \<noteq> None), pr_sub_back = False\<rparr>)"

inductive process_step :: "('k, 'j) crypto \<Rightarrow> 'k emitter \<Rightarrow> subscriber \<Rightarrow> string list \<Rightarrow> process \<Rightarrow> process \<Rightarrow> bool"
  for cr em sub types where
  manager: "mgr_step cr em l (pr_manager p) = Some m \<Longrightarrow> process_step cr em sub types p (p\<lparr>pr_manager := m\<rparr>)"
| manager_back: "run_result (pr_manager p) = Some er \<Longrightarrow> \<not> pr_manager_back p \<Longrightarrow>
    process_step cr em sub types p (p\<lparr>pr_results := pr_results p @ [er], pr_manager_back := True\<rparr>)"
| subscriber: "sub_small sub types (m_cancelled (pr_manager p)) (pr_sub p, m_world (pr_manager p)) (s, w) \<Longrightarrow>
    process_step cr em sub types p (p\<lparr>pr_manager := (pr_manager p)\<lparr>m_world := w\<rparr>, pr_sub := s\<rparr>)"
| sub_back: "pr_sub p = Phase Done \<Longrightarrow> \<not> pr_sub_back p \<Longrightarrow>
    process_step cr em sub types p (p\<lparr>pr_results := pr_results p @ [None], pr_sub_back := True\<rparr>)"

text \<open>The loop over \<open>errCh\<close>: status 1 at the first error, 0 after two results without one.\<close>

fun wait_results :: "nat \<Rightarrow> err list \<Rightarrow> int option" where
  "wait_results 0 rs = Some 0"
| "wait_results (Suc n) [] = None"
| "wait_results (Suc n) (Some er # rs) = Some 1"
| "wait_results (Suc n) (None # rs) = wait_results n rs"

definition exit_status :: "process \<Rightarrow> int option" where
  "exit_status p = wait_results 2 (pr_results p)"

abbreviation process_reach where
  "process_reach cr em sub types \<equiv> (process_step cr em sub types)\<^sup>*\<^sup>*"

subsection \<open>The manager in a shared network\<close>

lemma world_update [simp]:
  "thread_at (m\<lparr>m_world := w\<rparr>) k = thread_at m k"
  "set_thread k t (m\<lparr>m_world := w\<rparr>) = (set_thread k t m)\<lparr>m_world := w\<rparr>"
  "finish t er (m\<lparr>m_world := w\<rparr>) = (finish t er m)\<lparr>m_world := w\<rparr>"
  "run_result (m\<lparr>m_world := w\<rparr>) = run_result m"
  by (simp_all add: thread_at_def set_thread_def finish_def run_result_def)

text \<open>Another network changes nothing but the network.\<close>

lemma thread_step_world:
  assumes "thread_step cr em l k t m = Some m'"
  shows "\<exists>w'. thread_step cr em l k t (m\<lparr>m_world := w\<rparr>) = Some (m'\<lparr>m_world := w'\<rparr>)"
proof (cases l)
  case (Post j st)
  have comm: "x\<lparr>m_posted := ps, m_world := v\<rparr> = x\<lparr>m_world := v, m_posted := ps\<rparr>" for x ps v
    by (cases x) simp
  from Post assms show ?thesis by (auto simp: post_event_def comm split: list.splits)
next
  case (TailInput j ev)
  with assms show ?thesis
    by (fastforce simp: tail_input_def Let_def split: reader.splits tail_state.splits if_splits prod.splits)
next
  case (ListenResult j r)
  with assms show ?thesis
    by (auto simp: listen_result_def Let_def split: if_splits option.splits)
next
  case (ConnInput j rd)
  with assms show ?thesis
    by (auto simp: conn_input_def split: reader.splits if_splits prod.splits)
next
  case (AcceptFailed j)
  with assms show ?thesis by (cases "m_cancelled m") (auto split: if_splits)
next
  case (AcceptConn j)
  have comm: "x\<lparr>m_threads := ts, m_world := v\<rparr> = x\<lparr>m_world := v, m_threads := ts\<rparr>" for x ts v
    by (cases x) simp
  from AcceptConn assms show ?thesis by (auto simp: comm split: if_splits)
next
  case (CloseFd j)
  with assms show ?thesis by (auto simp: close_fd_def split: if_splits)
qed (use assms in \<open>auto split: if_splits\<close>)

lemma mgr_step_world:
  assumes "mgr_step cr em l m = Some m'"
  shows "\<exists>w'. mgr_step cr em l (m\<lparr>m_world := w\<rparr>) = Some (m'\<lparr>m_world := w'\<rparr>)"
proof (cases "label_thread l")
  case None
  have "m\<lparr>m_world := v, m_cancelled := True\<rparr> = m\<lparr>m_cancelled := True, m_world := v\<rparr>" for v
    by (cases m) simp
  with None assms show ?thesis by (auto simp: mgr_step_def)
next
  case (Some k)
  with assms show ?thesis
    using thread_step_world [of cr em l k _ m m' w] by (auto simp: mgr_step_def split: option.splits)
qed

lemma mgr_step_finished:
  assumes "mgr_step cr em l m = Some m'"
  shows "set (m_finished m) \<subseteq> set (m_finished m')"
  using assms by (cases rule: mgr_step_cases) (auto split: tail_state.splits)

subsection \<open>What holds of the process\<close>

definition process_ok :: "('k, 'j) crypto \<Rightarrow> 'k emitter \<Rightarrow> (source_config \<times> line_parser) list \<Rightarrow> err \<Rightarrow> world \<Rightarrow> process \<Rightarrow> bool" where
  "process_ok cr em started er0 w p \<longleftrightarrow>
     (\<exists>w'. mgr_reach cr em (manager_start started w) ((pr_manager p)\<lparr>m_world := w'\<rparr>)) \<and>
     (pr_sub p = Phase Done \<longrightarrow> m_cancelled (pr_manager p)) \<and>
     (pr_sub_back p \<longrightarrow> pr_sub p = Phase Done) \<and>
     (er0 \<noteq> None \<longrightarrow> pr_manager_back p) \<and>
     (pr_manager_back p \<and> er0 = None \<longrightarrow> list_all source_done (m_threads (pr_manager p))) \<and>
     (let mr = (if er0 = None then first_error (m_finished (pr_manager p)) else er0)
      in pr_results p \<in>
        (if pr_manager_back p then (if pr_sub_back p then {[mr, None], [None, mr]} else {[mr]})
         else (if pr_sub_back p then {[None]} else {[]})))"

lemma world_forget [simp]:
  "refines (m\<lparr>m_world := w\<rparr>) = refines m" "tidy (m\<lparr>m_world := w\<rparr>) = tidy m"
  by (simp_all add: refines_def tidy_def posted_by_def)

lemma process_manager_inv:
  assumes "process_ok cr em started er0 w p"
  shows "refines (pr_manager p)" "tidy (pr_manager p)" "length (m_finished (pr_manager p)) \<le> length started"
proof -
  obtain w' where r: "mgr_reach cr em (manager_start started w) ((pr_manager p)\<lparr>m_world := w'\<rparr>)"
    using assms by (auto simp: process_ok_def)
  show "refines (pr_manager p)" "tidy (pr_manager p)"
    using reach_invariant [OF r] tidy_reach [OF r] by simp_all
  show "length (m_finished (pr_manager p)) \<le> length started"
    using books_count reach_invariant [OF r] by fastforce
qed

lemma process_ok_step:
  assumes "process_step cr em sub types p p'" "process_ok cr em started er0 w p"
  shows "process_ok cr em started er0 w p'"
  using assms(1)
proof (cases rule: process_step.cases)
  case (manager l m)
  obtain w1 where r: "mgr_reach cr em (manager_start started w) ((pr_manager p)\<lparr>m_world := w1\<rparr>)"
    using assms(2) by (auto simp: process_ok_def)
  from mgr_step_world [OF manager(2), of w1] obtain w2 where
    "mgr_step cr em l ((pr_manager p)\<lparr>m_world := w1\<rparr>) = Some (m\<lparr>m_world := w2\<rparr>)" by blast
  with r have "mgr_reach cr em (manager_start started w) (m\<lparr>m_world := w2\<rparr>)" by (rule mgr_reach.step)
  moreover have "m_threads m = m_threads (pr_manager p) \<and> m_finished m = m_finished (pr_manager p)"
    if "list_all source_done (m_threads (pr_manager p))"
    using returned_stays [OF manager(2)] process_manager_inv [OF assms(2)] that by blast
  ultimately show ?thesis
    using assms(2) mgr_step_cancelled [OF manager(2)] manager(1)
    by (auto simp: process_ok_def Let_def split: if_splits)
next
  case (manager_back er)
  then show ?thesis
    using assms(2) by (auto simp: process_ok_def Let_def run_result_def split: if_splits)
next
  case (subscriber s w1)
  then have "s = Phase Done \<longrightarrow> pr_sub p = Phase Done \<or> m_cancelled (pr_manager p)"
    by (auto elim: sub_small.cases)
  moreover have "pr_sub p \<noteq> Phase Done" using subscriber(2) by (auto elim: sub_small.cases)
  ultimately show ?thesis
    using assms(2) subscriber(1) by (auto simp: process_ok_def Let_def split: if_splits)
next
  case sub_back
  then show ?thesis
    using assms(2) by (auto simp: process_ok_def Let_def split: if_splits)
qed

lemma process_ok_start:
  assumes "start_sources (mg_build mg) (cfg_sources (mg_config mg)) = (started, er0)"
  shows "process_ok cr em started er0 w (process_start mg types w)"
proof -
  have "mgr_reach cr em (manager_start started w) ((manager_start started w)\<lparr>m_world := w\<rparr>)"
    using mgr_reach.here by (simp add: manager_start_def)
  then show ?thesis
    using assms by (auto simp: process_ok_def process_start_def sub_start_def split: option.split)
qed

lemma process_ok_reach:
  assumes "start_sources (mg_build mg) (cfg_sources (mg_config mg)) = (started, er0)"
    and "process_reach cr em sub types (process_start mg types w) p"
  shows "process_ok cr em started er0 w p"
  using assms(2)
  by (induction rule: rtranclp_induct) (auto intro: process_ok_start [OF assms(1)] process_ok_step)

subsection \<open>Leaving\<close>

lemma process_mgr_run:
  "mgr_run cr em ls (pr_manager p) = Some m \<Longrightarrow> process_reach cr em sub types p (p\<lparr>pr_manager := m\<rparr>)"
proof (induction ls arbitrary: p)
  case (Cons l ls)
  then obtain m1 where m1: "mgr_step cr em l (pr_manager p) = Some m1" "mgr_run cr em ls m1 = Some m"
    by (auto split: option.splits)
  have "process_step cr em sub types p (p\<lparr>pr_manager := m1\<rparr>)" by (rule manager [OF m1(1)])
  moreover have "process_reach cr em sub types (p\<lparr>pr_manager := m1\<rparr>) (p\<lparr>pr_manager := m\<rparr>)"
    using Cons.IH [of "p\<lparr>pr_manager := m1\<rparr>"] m1(2) by simp
  ultimately show ?case by (rule converse_rtranclp_into_rtranclp)
next
  case Nil
  then have "p\<lparr>pr_manager := m\<rparr> = p" by (cases p) simp
  then show ?case by simp
qed

lemma process_small_steps:
  assumes "(sub_small sub types (m_cancelled (pr_manager p)))\<^sup>*\<^sup>* (pr_sub p, m_world (pr_manager p)) (s, w)"
  shows "process_reach cr em sub types p (p\<lparr>pr_manager := (pr_manager p)\<lparr>m_world := w\<rparr>, pr_sub := s\<rparr>)"
  using assms
proof (induction "(s, w)" arbitrary: s w rule: rtranclp_induct)
  case base
  then show ?case by simp
next
  case (step y)
  obtain s1 w1 where y: "y = (s1, w1)" by fastforce
  let ?p = "p\<lparr>pr_manager := (pr_manager p)\<lparr>m_world := w1\<rparr>, pr_sub := s1\<rparr>"
  from step(2) y have "process_step cr em sub types ?p
      (?p\<lparr>pr_manager := (pr_manager ?p)\<lparr>m_world := w\<rparr>, pr_sub := s\<rparr>)"
    by (intro subscriber) simp
  with step(3) [OF y] show ?case by (simp add: rtranclp.rtrancl_into_rtrancl)
qed

lemma sub_stops: "\<exists>w'. (sub_small sub types True)\<^sup>*\<^sup>* (s, w) (Phase Done, w')"
proof -
  have phase: "(sub_small sub types True)\<^sup>*\<^sup>* (Phase p, w) (Phase Done, w)" for p w
    by (cases p) (auto intro: sub_small.intros)
  have stream: "(sub_small sub types True)\<^sup>*\<^sup>* (Streaming ls, w) (Phase Done, w)" for ls w
  proof -
    have "sub_small sub types True (Streaming ls, w) (Phase (Wait initial_backoff), w)"
      by (cases ls) (auto intro: stream_over line_cancelled)
    with phase show ?thesis by (meson converse_rtranclp_into_rtranclp)
  qed
  show ?thesis
  proof (cases s)
    case (Created i)
    obtain o1 w1 where o: "open_sse sub Eof i w = (o1, w1)" by fastforce
    have "\<exists>s'. sub_small sub types True (Created i, w) (s', w1) \<and> (sub_small sub types True)\<^sup>*\<^sup>* (s', w1) (Phase Done, w1)"
      using o phase stream by (cases o1) (auto intro: open_failed opened)
    then show ?thesis using Created by (meson converse_rtranclp_into_rtranclp)
  qed (use phase stream in blast)+
qed

lemma process_reach_cancelled:
  assumes "process_reach cr em sub types p p'" "m_cancelled (pr_manager p)"
  shows "m_cancelled (pr_manager p')"
  using assms
proof (induction rule: rtranclp_induct)
  case (step y z)
  from step(2,3) step(4) show ?case
    by (cases rule: process_step.cases) (auto dest: mgr_step_cancelled)
qed simp

lemma process_reach_finished:
  assumes "process_reach cr em sub types p p'"
  shows "set (m_finished (pr_manager p)) \<subseteq> set (m_finished (pr_manager p'))"
  using assms
proof (induction rule: rtranclp_induct)
  case (step y z)
  have "set (m_finished (pr_manager y)) \<subseteq> set (m_finished (pr_manager z))"
    using step(2) by (cases rule: process_step.cases) (auto dest: mgr_step_finished)
  with step(3) show ?case by blast
qed simp

lemma two_results: "length rs = 2 \<Longrightarrow> wait_results 2 rs \<noteq> None"
  by (auto simp: numeral_2_eq_2 length_Suc_conv split: option.split) (metis option.exhaust wait_results.simps)+

lemma process_can_leave:
  assumes "process_ok cr em started er0 w p" "m_cancelled (pr_manager p)"
  shows "\<exists>p'. process_reach cr em sub types p p' \<and> exit_status p' \<noteq> None"
proof -
  obtain ls m where m: "mgr_run cr em ls (pr_manager p) = Some m" "list_all source_done (m_threads m)"
    using stop_schedule [OF assms(2)] by blast
  let ?p1 = "p\<lparr>pr_manager := m\<rparr>"
  have r1: "process_reach cr em sub types p ?p1" by (rule process_mgr_run [OF m(1)])
  have c1: "m_cancelled (pr_manager ?p1)" by (rule process_reach_cancelled [OF r1 assms(2)])
  obtain w2 where "(sub_small sub types True)\<^sup>*\<^sup>* (pr_sub ?p1, m_world (pr_manager ?p1)) (Phase Done, w2)"
    using sub_stops by blast
  with c1 have r2: "process_reach cr em sub types ?p1
      (?p1\<lparr>pr_manager := (pr_manager ?p1)\<lparr>m_world := w2\<rparr>, pr_sub := Phase Done\<rparr>)" (is "process_reach _ _ _ _ _ ?p2")
    by (intro process_small_steps) simp
  have run: "run_result (pr_manager ?p2) = Some (first_error (m_finished m))" using m(2) by (simp add: run_result_def)
  obtain p3 where r3: "process_reach cr em sub types ?p2 p3" and b3: "pr_manager_back p3" "pr_sub p3 = Phase Done"
  proof (cases "pr_manager_back ?p2")
    case True
    then show thesis by (intro that [of ?p2]) simp_all
  next
    case False
    from manager_back [OF run False] show thesis by (rule that [OF r_into_rtranclp]) simp_all
  qed
  obtain p4 where r4: "process_reach cr em sub types p3 p4" and b4: "pr_manager_back p4" "pr_sub_back p4"
  proof (cases "pr_sub_back p3")
    case True
    then show thesis using b3(1) by (intro that [of p3]) simp_all
  next
    case False
    from sub_back [OF b3(2) False] show thesis by (rule that [OF r_into_rtranclp]) (simp_all add: b3(1))
  qed
  have reach: "process_reach cr em sub types p p4" using r1 r2 r3 r4 by (meson rtranclp_trans)
  then have "process_ok cr em started er0 w p4"
    by (induction rule: rtranclp_induct) (use assms(1) process_ok_step in blast)+
  then have "length (pr_results p4) = 2" using b4 by (auto simp: process_ok_def Let_def)
  with reach two_results show ?thesis by (auto simp: exit_status_def)
qed

subsection \<open>The network they share\<close>

text \<open>The requests of all posted events, in the order in which they were posted.\<close>

definition post_requests :: "'k emitter \<Rightarrow> manager_state \<Rightarrow> request list" where
  "post_requests em m =
     map (\<lambda>(k, (now, uuid), e).
       emit_request em (marshal_set (build_set em now uuid (thread_name m k) e)) ''application/json'') (m_posted m)"

definition only_sends :: "router \<Rightarrow> bool" where
  "only_sends r \<longleftrightarrow> (\<forall>s w. \<exists>rqs. snd (handle r s w) = w\<lparr>sent := sent w @ rqs\<rparr>)"

lemma mgr_step_names:
  assumes "mgr_step cr em l m = Some m'" "i < length (m_threads m)"
  shows "thread_name m' i = thread_name m i"
  using assms(1)
proof (cases rule: mgr_step_cases)
  case (tail k t st ev st' evs)
  then show ?thesis by (cases "i = k"; cases st') (auto simp: thread_name_def thread_at_Some)
next
  case (post k t st e es)
  then show ?thesis by (cases "i = k") (auto simp: thread_name_def thread_at_Some)
next
  case (conn k t j p rd ls r)
  then show ?thesis by (cases "i = k") (auto simp: thread_name_def thread_at_Some)
next
  case (bound k t)
  then show ?thesis by (cases "i = k") (auto simp: thread_name_def thread_at_Some)
next
  case (unbound k t er)
  then show ?thesis by (cases "i = k") (auto simp: thread_name_def thread_at_Some)
next
  case (drain k t)
  then show ?thesis by (cases "i = k") (auto simp: thread_name_def thread_at_Some)
next
  case (drained k t)
  then show ?thesis by (cases "i = k") (auto simp: thread_name_def thread_at_Some)
next
  case (close k t)
  then show ?thesis by (cases "i = k") (auto simp: thread_name_def thread_at_Some)
next
  case (accept k t)
  then show ?thesis using assms(2) by (simp add: thread_name_def nth_append)
qed (simp_all add: thread_name_def)

lemma mgr_step_requests:
  assumes "mgr_step cr em l m = Some m'" "refines m" "em_signing_key em = None" "url_ok (m_world m) (em_receiver_url em)"
  shows "\<exists>rqs. m_world m' = (m_world m)\<lparr>sent := sent (m_world m) @ rqs\<rparr> \<and> post_requests em m' = post_requests em m @ rqs"
proof -
  have old: "map (\<lambda>(k, (now, uuid), e).
      emit_request em (marshal_set (build_set em now uuid (thread_name m' k) e)) ''application/json'') (m_posted m) =
      post_requests em m"
    unfolding post_requests_def using assms(2) mgr_step_names [OF assms(1)]
    by (intro map_cong) (auto simp: refines_def)
  show ?thesis
    using assms(1)
  proof (cases rule: mgr_step_cases)
    case (post k t st e es)
    obtain now uuid where st: "st = (now, uuid)" by fastforce
    have "thread_name m' k = src_name (th_source t)"
      using mgr_step_names [OF assms(1)] post(1) by (auto simp: thread_name_def thread_at_Some)
    then have "post_requests em m' = post_requests em m @
        [emit_request em (marshal_set (build_set em now uuid (src_name (th_source t)) e)) ''application/json'']"
      using old by (simp add: post_requests_def [of em m'] post(3) st)
        (simp add: post(3) [symmetric] post_requests_def)
    then show ?thesis using on_event_request [OF assms(3,4), of cr "src_name (th_source t)" st e] by (simp add: post(3) st)
  next
    case (tail k t st ev st' evs)
    then show ?thesis using old by (cases st') (auto simp: post_requests_def intro!: exI [of _ "[]"])
  qed (use old in \<open>auto simp: post_requests_def intro!: exI [of _ "[]"]\<close>)
qed

lemma create_stream_sends: "\<exists>rqs. snd (create_stream sub types w) = w\<lparr>sent := sent w @ rqs\<rparr>"
  by (auto simp: create_stream_def new_request_def http_do_def intro: exI [of _ "[]"]
      split: sum.split option.split)

lemma open_sse_sends: "\<exists>rqs. snd (open_sse sub fin i w) = w\<lparr>sent := sent w @ rqs\<rparr>"
  by (auto simp: open_sse_def new_request_def http_do_def intro: exI [of _ "[]"] split: sum.split)

lemma sse_line_sends: "only_sends r \<Longrightarrow> \<exists>rqs. sse_line r l w = w\<lparr>sent := sent w @ rqs\<rparr>"
  by (auto simp: sse_line_def only_sends_def intro: exI [of _ "[]"] split: option.split)

lemma sub_small_sends:
  assumes "sub_small sub types c (s, w) (s', w')" "only_sends (sub_router sub)"
  shows "\<exists>rqs. w' = w\<lparr>sent := sent w @ rqs\<rparr>"
  using assms(1)
proof (cases rule: sub_small.cases)
  case (create_failed er b)
  then show ?thesis using create_stream_sends [of sub types w] by simp
next
  case (created i b)
  then show ?thesis using create_stream_sends [of sub types w] by simp
next
  case (open_failed fin i)
  then show ?thesis using open_sse_sends [of sub fin i w] by simp
next
  case (opened fin i ls)
  then show ?thesis using open_sse_sends [of sub fin i w] by simp
next
  case (line l ls)
  then show ?thesis using sse_line_sends [OF assms(2)] by blast
qed (auto intro: exI [of _ "[]"])

definition all_sent :: "'k emitter \<Rightarrow> process \<Rightarrow> bool" where
  "all_sent em p \<longleftrightarrow> url_ok (m_world (pr_manager p)) (em_receiver_url em) \<and>
     subseq (post_requests em (pr_manager p)) (sent (m_world (pr_manager p)))"

lemma all_sent_step:
  assumes "process_step cr em sub types p p'" "refines (pr_manager p)" "all_sent em p"
    and "em_signing_key em = None" "only_sends (sub_router sub)"
  shows "all_sent em p'"
  using assms(1)
proof (cases rule: process_step.cases)
  case (manager l m)
  obtain rqs where "m_world m = (m_world (pr_manager p))\<lparr>sent := sent (m_world (pr_manager p)) @ rqs\<rparr>"
    "post_requests em m = post_requests em (pr_manager p) @ rqs"
    using mgr_step_requests [OF manager(2) assms(2,4)] assms(3) by (auto simp: all_sent_def)
  then show ?thesis using manager(1) assms(3) by (simp add: all_sent_def)
next
  case (subscriber s w)
  obtain rqs where "w = (m_world (pr_manager p))\<lparr>sent := sent (m_world (pr_manager p)) @ rqs\<rparr>"
    using sub_small_sends [OF subscriber(2) assms(5)] by blast
  then show ?thesis
    using subscriber(1) assms(3) by (simp add: all_sent_def post_requests_def thread_name_def list_emb_prefix)
qed (use assms(3) in \<open>simp_all add: all_sent_def\<close>)

lemma all_sent_reach:
  assumes "start_sources (mg_build mg) (cfg_sources (mg_config mg)) = (started, er0)"
    and "process_reach cr em sub types (process_start mg types w) p"
    and "em_signing_key em = None" "url_ok w (em_receiver_url em)" "only_sends (sub_router sub)"
  shows "all_sent em p"
  using assms(2)
proof (induction rule: rtranclp_induct)
  case base
  have "pr_manager (process_start mg types w) = manager_start started w"
    using assms(1) by (simp add: process_start_def)
  then show ?case using assms(4) by (simp add: all_sent_def manager_start_def post_requests_def)
next
  case (step y z)
  then show ?case
    using all_sent_step process_manager_inv(1) [OF process_ok_reach [OF assms(1) step(1)]] assms(3,5) by blast
qed

subsection \<open>Properties\<close>

definition example_manager :: "nat manager" where
  "example_manager = new_manager example_config example_emitter build_source"

lemma example_cancelled:
  "process_reach example_crypto example_emitter (new_subscriber ''http://r'' new_router) []
     (process_start example_manager [] w)
     ((process_start example_manager [] w)
        \<lparr>pr_manager := (manager_start [] w)\<lparr>m_cancelled := True\<rparr>\<rparr>)"
proof -
  have "mgr_step example_crypto example_emitter CancelCtx (pr_manager (process_start example_manager [] w)) =
      Some ((manager_start [] w)\<lparr>m_cancelled := True\<rparr>)"
    by (simp add: mgr_step_def process_start_def example_manager_def new_manager_def example_config_def)
  from manager [OF this] show ?thesis by blast
qed

lemma example_left:
  "\<exists>p. process_reach example_crypto example_emitter (new_subscriber ''http://r'' new_router) []
     (process_start example_manager [] w) p \<and> exit_status p = Some 0"
proof -
  let ?sub = "new_subscriber ''http://r'' new_router"
  let ?step = "process_step example_crypto example_emitter ?sub []"
  let ?p1 = "(process_start example_manager [] w)\<lparr>pr_manager := (manager_start [] w)\<lparr>m_cancelled := True\<rparr>\<rparr>"
  let ?p2 = "?p1\<lparr>pr_results := pr_results ?p1 @ [None], pr_manager_back := True\<rparr>"
  let ?p3 = "?p2\<lparr>pr_manager := (pr_manager ?p2)\<lparr>m_world := w\<rparr>, pr_sub := Phase Done\<rparr>"
  let ?p4 = "?p3\<lparr>pr_results := pr_results ?p3 @ [None], pr_sub_back := True\<rparr>"
  have p1: "pr_sub ?p1 = Phase Idle" "pr_results ?p1 = []" "\<not> pr_manager_back ?p1" "\<not> pr_sub_back ?p1"
    by (simp_all add: process_start_def example_manager_def new_manager_def example_config_def sub_start_def)
  have "?step ?p1 ?p2" using p1 by (intro manager_back) (simp_all add: run_result_def manager_start_def)
  moreover have "?step ?p2 ?p3"
    using p1 by (intro subscriber) (simp add: manager_start_def cancel_idle)
  moreover have "?step ?p3 ?p4" using p1 by (intro sub_back) simp_all
  ultimately have "?step\<^sup>*\<^sup>* ?p1 ?p4" by (meson rtranclp.rtrancl_refl rtranclp.rtrancl_into_rtrancl)
  with example_cancelled have "?step\<^sup>*\<^sup>* (process_start example_manager [] w) ?p4"
    by (rule rtranclp_trans)
  moreover have "exit_status ?p4 = Some 0" using p1 by (simp add: exit_status_def numeral_2_eq_2)
  ultimately show ?thesis by blast
qed

text \<open>What \<open>main\<close> runs after the start-up: \<open>main_start\<close> gives the relay, and this its process.\<close>

definition relay_process :: "'k relay \<Rightarrow> world \<Rightarrow> process" where
  "relay_process rl w =
     process_start (new_manager (rl_config rl) (rl_emitter rl) build_source)
       (event_types (sub_router (rl_subscriber rl))) w"

definition relay_reach :: "('k, 'j) crypto \<Rightarrow> 'k relay \<Rightarrow> world \<Rightarrow> process \<Rightarrow> bool" where
  "relay_reach cr rl w p =
     process_reach cr (rl_emitter rl) (rl_subscriber rl) (event_types (sub_router (rl_subscriber rl)))
       (relay_process rl w) p"

text \<open>C6: The exit status means what it says. The process leaves with 0 only after the context was
  cancelled, the subscriber returned and every source was built and its reader returned
  \<open>nil\<close>, and then every event that was read has been posted; with any other status it
  leaves with 1, and then a source could not be built or its reader returned an error. The
  subscriber never makes the process fail.\<close>

theorem process_exit:
  assumes "start_sources (mg_build mg) (cfg_sources (mg_config mg)) = (started, er0)"
    and "process_reach cr em sub types (process_start mg types w) p"
  shows "(exit_status p = Some 0 \<longrightarrow>
      er0 = None \<and> m_cancelled (pr_manager p) \<and> pr_sub p = Phase Done \<and>
      run_result (pr_manager p) = Some None \<and>
      (\<forall>r \<in> set (m_finished (pr_manager p)). snd r = None) \<and>
      (\<forall>k < length (m_threads (pr_manager p)). posted_by k (pr_manager p) = thread_out (m_threads (pr_manager p) ! k))) \<and>
    (\<forall>c. exit_status p = Some c \<and> c \<noteq> 0 \<longrightarrow>
      c = 1 \<and> (er0 \<noteq> None \<or> (\<exists>(name, er) \<in> set (m_finished (pr_manager p)). er \<noteq> None)))"
proof -
  let ?m = "pr_manager p"
  have ok: "process_ok cr em started er0 w p" by (rule process_ok_reach [OF assms])
  note inv = process_manager_inv [OF ok]
  have posted: "posted_by k ?m = thread_out (m_threads ?m ! k)"
    if "list_all source_done (m_threads ?m)" "k < length (m_threads ?m)" for k
    using returned_idle [OF inv(1,2) that] inv(1) that(2) by (auto simp: refines_def)
  have zero: "er0 = None \<and> pr_manager_back p \<and> pr_sub_back p \<and> first_error (m_finished ?m) = None"
    if "exit_status p = Some 0"
    using that ok
    by (cases er0; cases "first_error (m_finished ?m)")
      (auto simp: exit_status_def process_ok_def Let_def numeral_2_eq_2 split: if_splits)
  have other: "c = 1 \<and> (er0 \<noteq> None \<or> first_error (m_finished ?m) \<noteq> None)"
    if "exit_status p = Some c" "c \<noteq> 0" for c
    using that ok
    by (cases er0; cases "first_error (m_finished ?m)")
      (auto simp: exit_status_def process_ok_def Let_def numeral_2_eq_2 split: if_splits)
  show ?thesis
  proof (intro conjI impI allI)
    fix c
    assume "exit_status p = Some c \<and> c \<noteq> 0"
    then show "c = 1" "er0 \<noteq> None \<or> (\<exists>(name, er) \<in> set (m_finished ?m). er \<noteq> None)"
      using other [of c] unfolding first_error_None by fastforce+
  qed (use zero ok posted in \<open>auto simp: process_ok_def run_result_def first_error_None\<close>)
qed

theorem process_exit_witness:
  "\<exists>p. exit_status p = Some 0 \<and> m_cancelled (pr_manager p) \<and> run_result (pr_manager p) = Some None"
proof -
  obtain p where p: "process_reach example_crypto example_emitter (new_subscriber ''http://r'' new_router) []
      (process_start example_manager [] (example_world 200 [])) p" "exit_status p = Some 0"
    using example_left by blast
  have "start_sources (mg_build example_manager) (cfg_sources (mg_config example_manager)) = ([], None)"
    by (simp add: example_manager_def new_manager_def example_config_def)
  from process_exit [OF this p(1)] p(2) show ?thesis by blast
qed

text \<open>When the context is cancelled while a reader waits to retry an open, it may return the
  context's error, and then the process can only leave with 1.\<close>

lemma opening_fails:
  assumes "start_sources (mg_build mg) (cfg_sources (mg_config mg)) = (started, er0)"
    and "process_reach cr em sub types (process_start mg types w) p" "m_cancelled (pr_manager p)"
    and t: "thread_at (pr_manager p) k = Some t" "th_reader t = FileReader (Opening b)" "th_queue t = []"
  shows "\<exists>p1. process_step cr em sub types p p1 \<and>
    (\<forall>p2 c. process_reach cr em sub types p1 p2 \<longrightarrow> exit_status p2 = Some c \<longrightarrow> c = 1)"
proof -
  obtain m where m: "mgr_step cr em (TailInput k Cancel) (pr_manager p) = Some m"
    "(src_name (th_source t), Some ctx_error) \<in> set (m_finished m)"
    using t assms(3) by (auto simp: mgr_step_def tail_input_def Let_def)
  let ?p1 = "p\<lparr>pr_manager := m\<rparr>"
  have s: "process_step cr em sub types p ?p1" by (rule manager [OF m(1)])
  have "c = 1" if r: "process_reach cr em sub types ?p1 p2" and e: "exit_status p2 = Some c" for p2 c
  proof -
    have "(src_name (th_source t), Some ctx_error) \<in> set (m_finished (pr_manager p2))"
      using process_reach_finished [OF r] m(2) by auto
    then have f: "first_error (m_finished (pr_manager p2)) \<noteq> None"
      unfolding first_error_None by fastforce
    have "process_ok cr em started er0 w p2"
      by (rule process_ok_reach [OF assms(1) rtranclp_trans [OF assms(2) converse_rtranclp_into_rtranclp [OF s r]]])
    with f e show ?thesis
      by (cases er0; cases "first_error (m_finished (pr_manager p2))")
        (auto simp: exit_status_def process_ok_def Let_def numeral_2_eq_2 split: if_splits)
  qed
  with s show ?thesis by blast
qed

text \<open>The first attempt to open can fail.\<close>

lemma first_open_fails:
  assumes "thread_at (pr_manager p) k = Some t" "th_reader t = FileReader Unopened" "th_queue t = []"
  shows "\<exists>p1 t1. process_step cr em sub types p p1 \<and> m_cancelled (pr_manager p1) = m_cancelled (pr_manager p) \<and>
    thread_at (pr_manager p1) k = Some t1 \<and> th_reader t1 = FileReader (Opening True) \<and> th_queue t1 = []"
proof -
  let ?t = "t\<lparr>th_reader := FileReader (Opening True), th_queue := [], th_ticks := th_ticks t @ [Tick no_file]\<rparr>"
  have "mgr_step cr em (TailInput k (Tick no_file)) (pr_manager p) = Some (set_thread k ?t (pr_manager p))"
    using assms by (simp add: mgr_step_def tail_input_def try_open_def no_file_def)
  from manager [OF this] show ?thesis
    using thread_at_length [OF assms(1)]
    by (intro exI [of _ "p\<lparr>pr_manager := set_thread k ?t (pr_manager p)\<rparr>"] exI [of _ ?t]) simp
qed

text \<open>C21: The process can always leave: once the context is cancelled, whatever the goroutines and the
  subscriber were doing, some further steps lead to an exit status. But not always to 0: when
  at that moment a followed file has not been opened, its reader may return the error of the
  context, and after that the process can only leave with 1; a reader that waits to retry can
  do so at once, one that has not tried yet after its first attempt.\<close>

theorem process_leaves:
  assumes "start_sources (mg_build mg) (cfg_sources (mg_config mg)) = (started, er0)"
    and "process_reach cr em sub types (process_start mg types w) p" "m_cancelled (pr_manager p)"
  shows "(\<exists>p'. process_reach cr em sub types p p' \<and> exit_status p' \<noteq> None) \<and>
    (\<forall>k t b. thread_at (pr_manager p) k = Some t \<longrightarrow> th_reader t = FileReader (Opening b) \<longrightarrow> th_queue t = [] \<longrightarrow>
      (\<exists>p1. process_step cr em sub types p p1 \<and>
        (\<forall>p2 c. process_reach cr em sub types p1 p2 \<longrightarrow> exit_status p2 = Some c \<longrightarrow> c = 1))) \<and>
    (\<forall>k t. thread_at (pr_manager p) k = Some t \<longrightarrow> th_reader t = FileReader Unopened \<longrightarrow> th_queue t = [] \<longrightarrow>
      (\<exists>p0 p1. process_step cr em sub types p p0 \<and> process_step cr em sub types p0 p1 \<and>
        (\<forall>p2 c. process_reach cr em sub types p1 p2 \<longrightarrow> exit_status p2 = Some c \<longrightarrow> c = 1)))"
proof (intro conjI allI impI)
  have ok: "process_ok cr em started er0 w p" by (rule process_ok_reach [OF assms(1,2)])
  then show "\<exists>p'. process_reach cr em sub types p p' \<and> exit_status p' \<noteq> None"
    using assms(3) by (rule process_can_leave)
next
  fix k t b
  assume "thread_at (pr_manager p) k = Some t" "th_reader t = FileReader (Opening b)" "th_queue t = []"
  then show "\<exists>p1. process_step cr em sub types p p1 \<and>
      (\<forall>p2 c. process_reach cr em sub types p1 p2 \<longrightarrow> exit_status p2 = Some c \<longrightarrow> c = 1)"
    by (rule opening_fails [OF assms])
next
  fix k t
  assume t: "thread_at (pr_manager p) k = Some t" "th_reader t = FileReader Unopened" "th_queue t = []"
  from first_open_fails [OF t] obtain p0 t1 where p0: "process_step cr em sub types p p0"
    "m_cancelled (pr_manager p0)" "thread_at (pr_manager p0) k = Some t1" "th_reader t1 = FileReader (Opening True)"
    "th_queue t1 = []" using assms(3) by blast
  have "process_reach cr em sub types (process_start mg types w) p0"
    using assms(2) p0(1) by (rule rtranclp.rtrancl_into_rtrancl)
  from opening_fails [OF assms(1) this p0(2-5)] p0(1)
  show "\<exists>p0 p1. process_step cr em sub types p p0 \<and> process_step cr em sub types p0 p1 \<and>
      (\<forall>p2 c. process_reach cr em sub types p1 p2 \<longrightarrow> exit_status p2 = Some c \<longrightarrow> c = 1)" by blast
qed

theorem process_leaves_witness:
  "\<exists>p. process_reach example_crypto example_emitter (new_subscriber ''http://r'' new_router) []
     (process_start example_manager [] (example_world 200 [])) p \<and> exit_status p \<noteq> None"
proof -
  let ?p1 = "(process_start example_manager [] (example_world 200 []))
    \<lparr>pr_manager := (manager_start [] (example_world 200 []))\<lparr>m_cancelled := True\<rparr>\<rparr>"
  have s: "start_sources (mg_build example_manager) (cfg_sources (mg_config example_manager)) = ([], None)"
    by (simp add: example_manager_def new_manager_def example_config_def)
  have c: "m_cancelled (pr_manager ?p1)" by simp
  show ?thesis
    using process_leaves [OF s example_cancelled c] example_cancelled by (meson rtranclp_trans)
qed

end
