(* ===== verification/Jwks.thy ===== *)
theory Jwks
  imports Relay_Main
begin

text \<open>
  The JWKS endpoint of \<open>cmd/ssf-relay/main.go\<close>: the goroutine \<open>main\<close> starts when there is a key
  and an address, with a mux that knows one path. Requests whose path is not in canonical
  form, which the mux redirects, are left out. The property connects what a receiver fetches
  here with the tokens the emitter signs.
\<close>

record jwks_reply =
  jr_status :: int
  jr_content_type :: string
  jr_body :: string

text \<open>The handler registered for \<open>/jwks\<close>, whatever the method; other paths are not found.\<close>

definition jwks_mux :: "string \<Rightarrow> string \<Rightarrow> jwks_reply" where
  "jwks_mux body path =
     (if path = ''/jwks'' then \<lparr>jr_status = 200, jr_content_type = ''application/json'', jr_body = body\<rparr>
      else \<lparr>jr_status = 404, jr_content_type = ''text/plain; charset=utf-8'',
             jr_body = ''404 page not found'' @ [nl]\<rparr>)"

definition jwks_serve :: "'k relay \<Rightarrow> string \<Rightarrow> string \<Rightarrow> jwks_reply option" where
  "jwks_serve rl addr path =
     (case rl_jwks rl of
        None \<Rightarrow> None
      | Some (a, body) \<Rightarrow> (if a = addr then Some (jwks_mux body path) else None))"

lemma main_start_key:
  assumes "main_start ext cr yaml args w = Started rl" "em_signing_key (rl_emitter rl) = Some sk"
  shows "(\<exists>pem. load_signing_key cr pem = Inr sk) \<and>
    rl_jwks rl = jwks_endpoint (cfg_ssf (rl_config rl)) (Some sk)"
  using assms
  by (auto simp: main_start_def load_key_def new_emitter_def split: list.splits sum.splits startup.splits option.splits)

lemma loaded_jwk: "load_signing_key cr pem = Inr sk \<Longrightarrow> marshal_jwk cr (private_key sk) (kid sk) = Inr (public_jwk sk)"
  by (auto simp: load_signing_key_def split: option.splits sum.splits)

lemma jwks_body_marshal:
  "public_jwk sk = marshal (JObj ms) \<Longrightarrow> jwks_body sk = marshal (JObj [(''keys'', JArr [JObj ms])])"
  by (simp add: jwks_body_def quote_def esc_string.simps esc_byte_def is_ascii_def byte_def dquote_def bslash_def)

text \<open>C19: A receiver can find the key of a token: when the relay comes up with a signing key and an
  address for it, a GET of \<open>/jwks\<close> there is answered with a JSON document that holds exactly
  one key, whose \<open>kid\<close> is the one in the header of every token the emitter signs. That the
  JOSE library prints a public key as a JSON object with its key ID is the assumption.\<close>

theorem published_key:
  assumes "main_start ext cr yaml args w = Started rl" "em_signing_key (rl_emitter rl) = Some sk"
    and "jwks_addr (cfg_ssf (rl_config rl)) \<noteq> []"
    and jose: "\<And>t. marshal_jwk cr (private_key sk) (kid sk) = Inr t \<Longrightarrow>
      \<exists>ms. t = marshal (JObj ms) \<and> numbers_ok (JObj ms) \<and> depth (JObj ms) \<le> 10 \<and>
        map_of (canon_members ms) ''kid'' = Some (JStr (kid sk))"
  shows "\<exists>reply key. jwks_serve rl (jwks_addr (cfg_ssf (rl_config rl))) ''/jwks'' = Some reply \<and>
    jr_status reply = 200 \<and> jr_content_type reply = ''application/json'' \<and>
    json_parse (jr_body reply) = Some (JObj [(''keys'', JArr [JObj key])]) \<and>
    map_of key ''kid'' = Some (JStr (kid sk)) \<and> map_of (jose_header sk) ''kid'' = Some (kid sk)"
proof -
  obtain pem where pem: "load_signing_key cr pem = Inr sk"
    and ep: "rl_jwks rl = jwks_endpoint (cfg_ssf (rl_config rl)) (Some sk)"
    using main_start_key [OF assms(1,2)] by blast
  obtain ms where ms: "public_jwk sk = marshal (JObj ms)" "numbers_ok (JObj ms)" "depth (JObj ms) \<le> 10"
    "map_of (canon_members ms) ''kid'' = Some (JStr (kid sk))"
    using jose [OF loaded_jwk [OF pem]] by blast
  have "depth (JObj [(''keys'', JArr [JObj ms])]) \<le> max_depth"
    using ms(3) by (simp add: max_depth_def)
  then have "json_parse (jwks_body sk) = Some (canon (JObj [(''keys'', JArr [JObj ms])]))"
    using ms(2) unfolding jwks_body_marshal [OF ms(1)] by (intro json_parse_marshal) simp_all
  then show ?thesis
    using ep ms(4) assms(3)
    by (simp add: jwks_serve_def jwks_endpoint_def jwks_mux_def jose_header_def is_ascii_def byte_def)
qed

definition jwks_crypto :: "(nat, string) crypto" where
  "jwks_crypto = example_crypto
     \<lparr>pem_decode := Some, parse_ec_key := (\<lambda>_. Inr 0),
      marshal_jwk := (\<lambda>_ i. Inr (marshal (JObj [(''kid'', JStr i)])))\<rparr>"

definition jwks_config :: config where
  "jwks_config = example_config\<lparr>cfg_sinks := [], cfg_ssf := (cfg_ssf example_config)
     \<lparr>signing_key_pem := ''k'', jwks_addr := '':9''\<rparr>\<rparr>"

theorem published_key_witness:
  "\<exists>rl reply. main_start example_externs jwks_crypto (\<lambda>_. Inr jwks_config) [''ssf-relay'', ''token'']
      (example_world 200 []) = Started rl \<and>
    jwks_serve rl '':9'' ''/jwks'' = Some reply \<and> json_parse (jr_body reply) \<noteq> None"
proof -
  let ?start = "main_start example_externs jwks_crypto (\<lambda>_. Inr jwks_config) [''ssf-relay'', ''token''] (example_world 200 [])"
  let ?sk = "\<lparr>private_key = 0, kid = b64url ''thumb'', public_jwk = marshal (JObj [(''kid'', JStr (b64url ''thumb''))])\<rparr>"
  obtain rl where rl: "?start = Started rl" "em_signing_key (rl_emitter rl) = Some ?sk"
    "rl_config rl = jwks_config\<lparr>cfg_ssf := (cfg_ssf jwks_config)\<lparr>timeout_secs := 5\<rparr>\<rparr>"
    by (simp add: main_start_def load_config_def load_key_def resolve_pem_def jwks_config_def example_config_def
        example_world_def load_signing_key_def jwks_crypto_def example_crypto_def new_emitter_def del: b64url.simps)
  have addr: "jwks_addr (cfg_ssf (rl_config rl)) = '':9''" by (simp add: rl(3) jwks_config_def example_config_def)
  have "\<exists>ms. t = marshal (JObj ms) \<and> numbers_ok (JObj ms) \<and> depth (JObj ms) \<le> 10 \<and>
      map_of (canon_members ms) ''kid'' = Some (JStr (kid ?sk))"
    if "marshal_jwk jwks_crypto (private_key ?sk) (kid ?sk) = Inr t" for t
    using that
    by (intro exI [of _ "[(''kid'', JStr (b64url ''thumb''))]"])
      (simp add: jwks_crypto_def is_ascii_def byte_def b64_char_def)
  from published_key [OF rl(1,2) _ this] addr rl(1) show ?thesis by auto
qed

end
