(* ===== verification/ValidText.thy ===== *)
theory ValidText
  imports GoValue
begin

text \<open>
  The strings \<open>encoding/json\<close> delivers are valid UTF-8, whatever bytes it reads: unquoting makes
  valid text of any checked literal, so every string and key of a parsed value is valid, and
  decoding into structs, slices and maps keeps that. The collection \<open>valid_dec\<close> holds the
  rules for decoders, \<open>valid_text\<close> the facts on strings.
\<close>

named_theorems valid_dec \<open>decoders that store valid text\<close>
named_theorems valid_text \<open>strings that are valid UTF-8\<close>

subsection \<open>Valid text is a sequence of runes\<close>

definition is_rune :: "string \<Rightarrow> bool" where
  "is_rune t \<longleftrightarrow> t \<noteq> [] \<and> valid_head t \<and> snd (decode_rune t) = length t"

lemma to_valid_rune:
  assumes "is_rune t"
  shows "to_valid (t @ s) = t @ to_valid s"
proof -
  obtain c cs where t: "t = c # cs" using assms by (cases t) (auto simp: is_rune_def)
  have "decode_rune (t @ s) = decode_rune t" using assms by (intro decode_rune_append) (auto simp: is_rune_def)
  then show ?thesis
    using assms to_valid_valid [of c "cs @ s"] by (simp add: t is_rune_def valid_head_def)
qed

lemma valid_utf8_Nil [simp, valid_text]: "valid_utf8 []"
  by (simp add: valid_utf8_def)

lemma valid_utf8_rune: "is_rune t \<Longrightarrow> valid_utf8 (t @ s) = valid_utf8 s"
  by (simp add: valid_utf8_def to_valid_rune)

lemma length_to_valid: "length s \<le> length (to_valid s)"
proof (induction s rule: to_valid.induct)
  case (2 c cs)
  have "1 \<le> length (encode_rune rune_error)" by (simp add: encode_rune_def rune_error_def)
  with 2 decode_rune_width [of "c # cs"] show ?case
    by (cases "valid_head (c # cs)") (auto simp: to_valid.simps(2) trans_le_add2)
qed simp

lemma valid_utf8_split:
  assumes "valid_utf8 s" "s \<noteq> []"
  obtains t r where "s = t @ r" "is_rune t" "valid_utf8 r"
proof -
  let ?w = "snd (decode_rune s)"
  have h: "valid_head s"
  proof (rule ccontr)
    assume "\<not> valid_head s"
    then have "length (to_valid s) = 3 + length (to_valid (tl s))"
      using assms(2) by (cases s) (simp_all add: to_valid.simps(2) encode_rune_def rune_error_def)
    with length_to_valid [of "tl s"] assms show False by (simp add: valid_utf8_def)
  qed
  have "is_rune (take ?w s)"
    using h assms(2) decode_rune_take [OF h assms(2)] decode_rune_width [OF assms(2)]
    by (auto simp: is_rune_def valid_head_def)
  moreover from this have "valid_utf8 (drop ?w s)"
    using assms(1) valid_utf8_rune [of "take ?w s" "drop ?w s"] by simp
  ultimately show ?thesis using that [of "take ?w s" "drop ?w s"] by simp
qed

lemma valid_utf8_induct [consumes 1, case_names Nil rune]:
  assumes "valid_utf8 s" "P []" "\<And>t r. is_rune t \<Longrightarrow> valid_utf8 r \<Longrightarrow> P r \<Longrightarrow> P (t @ r)"
  shows "P s"
  using assms(1)
proof (induction s rule: length_induct)
  case (1 s)
  show ?case
  proof (cases "s = []")
    case False
    with 1(2) obtain t r where s: "s = t @ r" "is_rune t" "valid_utf8 r" by (rule valid_utf8_split)
    then have "length r < length s" by (auto simp: is_rune_def)
    with 1(1) s show ?thesis using assms(3) by blast
  qed (simp add: assms(2))
qed

lemma valid_utf8_append [valid_text]: "valid_utf8 s \<Longrightarrow> valid_utf8 u \<Longrightarrow> valid_utf8 (s @ u)"
  by (induction s rule: valid_utf8_induct) (simp_all add: valid_utf8_rune)

lemma is_rune_ascii: "is_ascii c \<Longrightarrow> is_rune [c]"
  by (simp add: is_rune_def)

lemma valid_utf8_ascii_Cons [simp]: "is_ascii c \<Longrightarrow> valid_utf8 (c # s) = valid_utf8 s"
  using valid_utf8_rune [OF is_rune_ascii, of c s] by simp

lemma byte_char_of [simp]: "byte (char_of n) = n mod 256"
  by (simp add: byte_def)

lemma is_rune_encode: "is_rune (encode_rune r)"
proof -
  consider "r < 128" | "128 \<le> r" "r < 2048" | "55296 \<le> r \<and> r \<le> 57343 \<or> 1114111 < r"
    | "2048 \<le> r" "r < 65536" "\<not> (55296 \<le> r \<and> r \<le> 57343)"
    | "65536 \<le> r" "r \<le> 1114111" by linarith
  then show ?thesis
  proof cases
    case 1
    then show ?thesis by (simp add: encode_rune_def is_rune_ascii is_ascii_def)
  next
    case 2
    then have "2 \<le> r div 64" "r div 64 < 32" by auto
    with 2 show ?thesis
      by (simp add: encode_rune_def is_rune_def valid_head_def decode_rune_2 in_range_def is_cont_def)
  next
    case 3
    then have "encode_rune r = [CHR 0xEF, CHR 0xBF, CHR 0xBD]" by (auto simp: encode_rune_def)
    then show ?thesis
      by (simp add: is_rune_def valid_head_def decode_rune_3 in_range_def is_cont_def second_ok_def byte_def)
  next
    case 4
    define a b c where "a = r div 4096" and "b = r div 64 mod 64" and "c = r mod 64"
    have "a = 0 \<Longrightarrow> 32 \<le> b" using 4(1) by (auto simp: a_def b_def)
    moreover have "b < 32" if "a = 13"
    proof -
      have "r < 55296" using that 4(3) by (auto simp: a_def)
      then have "r div 64 < 864" by (simp add: less_mult_imp_div_less)
      moreover have "r div 64 div 64 = 13" using that by (simp add: a_def div_mult2_eq [symmetric])
      ultimately show ?thesis using minus_div_mult_eq_mod [of "r div 64" 64] by (simp add: b_def)
    qed
    moreover have "a < 16" using 4(2) by (auto simp: a_def)
    moreover have "encode_rune r = [char_of (224 + a), char_of (128 + b), char_of (128 + c)]"
      using 4 by (auto simp: encode_rune_def a_def b_def c_def)
    moreover have "b < 64" "c < 64" by (simp_all add: b_def c_def)
    ultimately have "in_range 224 239 (char_of (224 + a))" "second_ok (char_of (224 + a)) (char_of (128 + b))"
      "is_cont (char_of (128 + c))" "encode_rune r = [char_of (224 + a), char_of (128 + b), char_of (128 + c)]"
      by (auto simp: in_range_def is_cont_def second_ok_def)
    then show ?thesis by (simp add: is_rune_def valid_head_def decode_rune_3)
  next
    case 5
    define a b c d where "a = r div 262144" and "b = r div 4096 mod 64" and "c = r div 64 mod 64" and "d = r mod 64"
    have "a = 0 \<Longrightarrow> 16 \<le> b" using 5(1) by (auto simp: a_def b_def)
    moreover have "b < 16" if "a = 4"
    proof -
      have "r div 4096 < 272" using 5(2) by (simp add: less_mult_imp_div_less)
      moreover have "r div 4096 div 64 = 4" using that by (simp add: a_def div_mult2_eq [symmetric])
      ultimately show ?thesis using minus_div_mult_eq_mod [of "r div 4096" 64] by (simp add: b_def)
    qed
    moreover have "a < 5" using 5(2) by (auto simp: a_def)
    moreover have "encode_rune r = [char_of (240 + a), char_of (128 + b), char_of (128 + c), char_of (128 + d)]"
      using 5 by (simp add: encode_rune_def a_def b_def c_def d_def)
    moreover have "b < 64" "c < 64" "d < 64" by (simp_all add: b_def c_def d_def)
    ultimately have "in_range 240 244 (char_of (240 + a))" "second_ok (char_of (240 + a)) (char_of (128 + b))"
      "is_cont (char_of (128 + c))" "is_cont (char_of (128 + d))"
      "encode_rune r = [char_of (240 + a), char_of (128 + b), char_of (128 + c), char_of (128 + d)]"
      by (auto simp: in_range_def is_cont_def second_ok_def)
    then show ?thesis by (simp add: is_rune_def valid_head_def decode_rune_4)
  qed
qed

lemma valid_utf8_encode [valid_text]: "valid_utf8 (encode_rune r)"
  using valid_utf8_rune [OF is_rune_encode, of r "[]"] by simp

lemma valid_utf8_to_valid [valid_text]: "valid_utf8 (to_valid s)"
proof (induction s rule: to_valid.induct)
  case (2 c cs)
  show ?case
  proof (cases "valid_head (c # cs)")
    case True
    have "is_rune (take (snd (decode_rune (c # cs))) (c # cs))"
      using True decode_rune_take [OF True] decode_rune_width [of "c # cs"]
      by (auto simp: is_rune_def valid_head_def)
    with True 2(1) show ?thesis by (simp only: to_valid_valid valid_utf8_rune)
  next
    case False
    with 2(2) show ?thesis by (simp add: to_valid.simps(2) valid_utf8_append valid_utf8_encode)
  qed
qed simp

text \<open>Valid text can be cut at an ASCII byte.\<close>

lemma rune_no_ascii:
  assumes "is_rune t" "c \<in> set t" "is_ascii c"
  shows "t = [c]"
proof (cases "is_ascii (hd t)")
  case True
  then show ?thesis using assms by (cases t) (auto simp: is_rune_def)
next
  case False
  then show ?thesis
    using assms rune_bytes_high [of t c] by (auto simp: is_rune_def is_ascii_def)
qed

lemma valid_utf8_cut:
  assumes "valid_utf8 s" "s = a @ c # b" "is_ascii c"
  shows "valid_utf8 b"
  using assms
proof (induction s arbitrary: a rule: valid_utf8_induct)
  case (rune t r)
  show ?case
  proof (cases "length t \<le> length a")
    case True
    with rune.prems(1) have "r = drop (length t) a @ c # b"
      by (metis append_eq_append_conv_if append_eq_conv_conj)
    with rune.IH rune.prems(2) show ?thesis by blast
  next
    case False
    then have "t ! length a = c"
      using arg_cong [OF rune.prems(1), of "\<lambda>s. s ! length a"] by (simp add: nth_append)
    with False have "c \<in> set t" by (metis not_le nth_mem)
    then have "t = [c]" using rune_no_ascii rune.hyps(1) rune.prems(2) by blast
    moreover from this False have "a = []" by (cases a) simp_all
    ultimately show ?thesis using rune.prems(1) rune.hyps(2) by simp
  qed
qed simp

subsection \<open>Unquoting makes valid text\<close>

text \<open>What the scanner guarantees of a literal: an ASCII byte follows every backslash.\<close>

fun escapes_ok :: "string \<Rightarrow> bool" where
  "escapes_ok [] = True"
| "escapes_ok [c] = (c \<noteq> bslash)"
| "escapes_ok (c # e # r) = (if c = bslash then is_ascii e \<and> escapes_ok r else escapes_ok (e # r))"

lemma escapes_ok_plain: "c \<noteq> bslash \<Longrightarrow> escapes_ok (c # s) = escapes_ok s"
  by (cases s) auto

lemma escapes_ok_snoc: "escapes_ok s \<Longrightarrow> c \<noteq> bslash \<Longrightarrow> escapes_ok (s @ [c])"
  by (induction s rule: escapes_ok.induct) (auto split: if_splits)

lemma escapes_ok_escape: "escapes_ok s \<Longrightarrow> is_ascii e \<Longrightarrow> escapes_ok (s @ [bslash, e])"
  by (induction s rule: escapes_ok.induct) (auto split: if_splits)

lemma escapes_ok_skip: "\<forall>c \<in> set t. c \<noteq> bslash \<Longrightarrow> escapes_ok (t @ s) = escapes_ok s"
  by (induction t) (auto simp: escapes_ok_plain)

lemma hex_not_bslash: "hex_val h = Some x \<Longrightarrow> h \<noteq> bslash"
  by (auto simp: hex_val_def in_range_def bslash_def byte_def split: if_splits)

lemma escapes_ok_tail: "escapes_ok (bslash # e # t) \<Longrightarrow> is_ascii e \<and> escapes_ok t"
  by simp

text \<open>Behind a \<open>\uXXXX\<close> escape the text is fine again.\<close>

lemma escapes_ok_getu4:
  assumes "getu4 s = Some rr" "escapes_ok s"
  shows "escapes_ok (drop 6 s)"
proof -
  from assms(1) obtain h1 h2 h3 h4 r where s: "s = bslash # CHR ''u'' # h1 # h2 # h3 # h4 # r"
    and h: "\<forall>h \<in> {h1, h2, h3, h4}. h \<noteq> bslash"
    by (auto simp: getu4_def dest: hex_not_bslash split: list.splits if_splits option.splits)
  have "escapes_ok (h1 # h2 # h3 # h4 # r)" using escapes_ok_tail [OF assms(2) [unfolded s]] by blast
  with h have "escapes_ok r" by (simp add: escapes_ok_plain del: escapes_ok.simps)
  then show ?thesis by (simp add: s numeral_eq_Suc)
qed

lemma unescape_ascii: "is_ascii e \<Longrightarrow> is_ascii (unescape e)"
  by (auto simp: unescape_def is_ascii_def byte_def)

lemma valid_unquote: "escapes_ok s \<Longrightarrow> valid_utf8 (unquote s)"
proof (induction s rule: unquote.induct)
  case (2 c cs)
  show ?case
  proof (cases "c = bslash")
    case True
    show ?thesis
    proof (cases "getu4 (c # cs)")
      case None
      show ?thesis
      proof (cases cs)
        case Nil
        with 2(7) True show ?thesis by simp
      next
        case (Cons e r)
        with 2(7) True have "is_ascii e" "escapes_ok r" by simp_all
        with 2(1) [OF True None Cons] True None Cons show ?thesis
          by (simp add: unquote.simps(2) unescape_ascii)
      qed
    next
      case (Some rr)
      have ok5: "escapes_ok (drop 5 cs)"
        using escapes_ok_getu4 [OF Some 2(7)] by (simp add: numeral_eq_Suc)
      show ?thesis
      proof (cases "is_surrogate rr")
        case False
        with True Some 2(4) ok5 show ?thesis
          by (simp add: unquote.simps(2) valid_utf8_append valid_utf8_encode)
      next
        case sur: True
        show ?thesis
        proof (cases "utf16_pair rr (getu4 (drop 5 cs))")
          case None
          with True Some sur 2(2) ok5 show ?thesis
            by (simp add: unquote.simps(2) valid_utf8_append valid_utf8_encode)
        next
          case (Some dec)
          then obtain r2 where "getu4 (drop 5 cs) = Some r2" by (auto simp: utf16_pair_def split: option.splits)
          from escapes_ok_getu4 [OF this ok5] have "escapes_ok (drop 11 cs)" by simp
          with True \<open>getu4 (c # cs) = Some rr\<close> sur Some 2(3) show ?thesis
            by (simp add: unquote.simps(2) valid_utf8_append valid_utf8_encode)
        qed
      qed
    qed
  next
    case nb: False
    show ?thesis
    proof (cases "valid_head (c # cs)")
      case False
      with nb 2(6,7) show ?thesis
        by (simp add: unquote.simps(2) escapes_ok_plain valid_utf8_append valid_utf8_encode)
    next
      case True
      let ?w = "snd (decode_rune (c # cs))"
      let ?t = "take ?w (c # cs)"
      have t: "is_rune ?t"
        using True decode_rune_take [OF True] decode_rune_width [of "c # cs"]
        by (auto simp: is_rune_def valid_head_def)
      have "hd ?t = c" by (cases ?w) (use decode_rune_width_pos [of c cs] in auto)
      then have "\<forall>x \<in> set ?t. x \<noteq> bslash"
        using nb rune_no_ascii [OF t _ bslash_ascii] by fastforce
      then have "escapes_ok (drop ?w (c # cs))"
        using 2(7) escapes_ok_skip [of ?t "drop ?w (c # cs)"] by simp
      with nb True 2(5) t show ?thesis
        by (simp only: unquote.simps(2) drop_width if_True if_False valid_utf8_rune simp_thms)
    qed
  qed
qed simp

subsection \<open>Every parsed value holds valid text\<close>

fun json_valid :: "json \<Rightarrow> bool" and json_valid_elems :: "json list \<Rightarrow> bool"
  and json_valid_members :: "(string \<times> json) list \<Rightarrow> bool" where
  "json_valid (JStr s) = valid_utf8 s"
| "json_valid (JArr vs) = json_valid_elems vs"
| "json_valid (JObj ms) = json_valid_members ms"
| "json_valid JNull = True"
| "json_valid (JBool b) = True"
| "json_valid (JNum t) = True"
| "json_valid_elems [] = True"
| "json_valid_elems (v # vs) = (json_valid v \<and> json_valid_elems vs)"
| "json_valid_members [] = True"
| "json_valid_members ((k, v) # ms) = (valid_utf8 k \<and> json_valid v \<and> json_valid_members ms)"

lemma json_valid_elems_iff: "json_valid_elems vs \<longleftrightarrow> (\<forall>v \<in> set vs. json_valid v)"
  by (induction vs) auto

lemma json_valid_members_iff: "json_valid_members ms \<longleftrightarrow> (\<forall>(k, v) \<in> set ms. valid_utf8 k \<and> json_valid v)"
  by (induction ms) auto

fun frame_valid :: "frame \<Rightarrow> bool" where
  "frame_valid (FArr vs) = json_valid_elems vs"
| "frame_valid (FObj ms) = json_valid_members ms"
| "frame_valid (FKey ms) = json_valid_members ms"
| "frame_valid (FVal ms k) = (json_valid_members ms \<and> valid_utf8 k)"

fun mode_valid :: "mode \<Rightarrow> bool" where
  "mode_valid (MStr SBody raw) = escapes_ok (rev raw)"
| "mode_valid (MStr SEsc raw) = (raw \<noteq> [] \<and> hd raw = bslash \<and> escapes_ok (rev (tl raw)))"
| "mode_valid (MStr (SHex n) raw) = escapes_ok (rev raw)"
| "mode_valid (MLit rest v) = json_valid v"
| "mode_valid (MDone v) = json_valid v"
| "mode_valid m = True"

definition state_valid :: "jstate \<Rightarrow> bool" where
  "state_valid s \<longleftrightarrow> list_all frame_valid (fst s) \<and> mode_valid (snd s)"

lemma close_value_valid:
  "json_valid v \<Longrightarrow> list_all frame_valid st \<Longrightarrow> close_value v st = Some s \<Longrightarrow> state_valid s"
  by (induction v st rule: close_value.induct) (auto simp: state_valid_def)

lemma close_string_valid:
  assumes "escapes_ok raw" "list_all frame_valid st" "close_string raw st = Some s"
  shows "state_valid s"
proof -
  have u: "valid_utf8 (unquote raw)" using assms(1) by (rule valid_unquote)
  have v: "json_valid (JStr (unquote raw))" using u by simp
  show ?thesis
    using assms(3)
  proof (cases "(raw, st)" rule: close_string.cases)
    case (1 raw' ms st')
    with assms u show ?thesis by (auto simp: state_valid_def)
  qed (use close_value_valid [OF v assms(2)] assms(3) in auto)
qed

lemma begin_value_valid: "list_all frame_valid st \<Longrightarrow> begin_value st c = Some s \<Longrightarrow> state_valid s"
  by (auto simp: begin_value_def push_frame_def state_valid_def split: if_splits)

lemma end_step_valid:
  assumes "list_all frame_valid st" "end_step st c = Some s"
  shows "state_valid s"
proof (cases "(st, c)" rule: end_step.cases)
  case (1 vs st' c')
  then have "json_valid (JArr (rev vs))" "list_all frame_valid st'"
    using assms(1) by (simp_all add: json_valid_elems_iff)
  with 1 assms show ?thesis by (auto simp: state_valid_def [of "(_ # _, _)"] dest: close_value_valid [rotated 2] split: if_splits)
next
  case (2 ms st' c')
  then have "json_valid (JObj (rev ms))" "list_all frame_valid st'"
    using assms(1) by (simp_all add: json_valid_members_iff)
  with 2 assms show ?thesis by (auto simp: state_valid_def [of "(_ # _, _)"] dest: close_value_valid [rotated 2] split: if_splits)
qed (use assms in auto)

lemma ascii_escapes:
  "is_ascii CHR ''u''" "e \<in> set [CHR ''b'', CHR ''f'', CHR ''n'', CHR ''r'', CHR ''t'', bslash, CHR ''/'', dquote] \<Longrightarrow> is_ascii e"
  by (auto simp: is_ascii_def byte_def bslash_def dquote_def)

lemma str_step_valid:
  assumes "list_all frame_valid st" "mode_valid (MStr ss raw)" "str_step st ss raw c = Some s"
  shows "state_valid s"
proof (cases ss)
  case SBody
  then have e: "escapes_ok (rev raw)" using assms(2) by simp
  show ?thesis
  proof (cases "c = dquote")
    case True
    with SBody assms(3) close_string_valid [OF e assms(1)] show ?thesis by (simp add: str_step_def)
  next
    case False
    with SBody assms(1,3) e show ?thesis
      by (auto simp: str_step_def state_valid_def escapes_ok_snoc split: if_splits)
  qed
next
  case SEsc
  then obtain raw' where raw: "raw = bslash # raw'" "escapes_ok (rev raw')"
    using assms(2) by (cases raw) auto
  have "escapes_ok (rev (c # raw))" if "is_ascii c"
    using escapes_ok_escape [OF raw(2) that] raw(1) by simp
  moreover from SEsc assms(3) have "is_ascii c" "\<exists>ss'. s = (st, MStr ss' (c # raw)) \<and> ss' \<noteq> SEsc"
    using ascii_escapes(1) ascii_escapes(2) [of c] by (auto simp: str_step_def split: if_splits)
  ultimately obtain ss' where "s = (st, MStr ss' (c # raw))" "ss' \<noteq> SEsc" "escapes_ok (rev (c # raw))" by blast
  with assms(1) show ?thesis by (cases ss') (simp_all add: state_valid_def)
next
  case (SHex n)
  with assms show ?thesis
    by (auto simp: str_step_def state_valid_def escapes_ok_snoc split: if_splits dest: hex_not_bslash)
qed

lemma jstep_valid:
  assumes "state_valid s" "jstep s c = Some s'"
  shows "state_valid s'"
proof -
  obtain st m where s: "s = (st, m)" by fastforce
  with assms(1) have v: "list_all frame_valid st" "mode_valid m" by (auto simp: state_valid_def)
  show ?thesis
  proof (cases m)
    case (MNum ns lit)
    show ?thesis
    proof (cases "num_step ns c")
      case (Some ns')
      with MNum assms(2) s v show ?thesis by (auto simp: state_valid_def)
    next
      case None
      with MNum assms(2) s obtain st1 m1 where c1: "close_value (JNum (rev lit)) st = Some (st1, m1)"
        by (cases "close_value (JNum (rev lit)) st") (auto split: if_splits)
      have s': "s' = (st1, m1) \<or> end_step st1 c = Some s'"
        using MNum None assms(2) s c1 by (cases m1) (auto split: if_splits)
      have "state_valid (st1, m1)" using close_value_valid [OF _ v(1) c1] by simp
      with s' show ?thesis using end_step_valid [of st1 c s'] by (auto simp: state_valid_def)
    qed
  next
    case (MStr ss raw)
    then show ?thesis using assms(2) s v str_step_valid by simp
  next
    case (MLit rest w)
    then show ?thesis
      using assms(2) s v close_value_valid [of w st] by (auto simp: state_valid_def split: list.splits if_splits)
  next
    case MKeyOrEnd
    have "list_all frame_valid (tl st)" using v(1) by (cases st) auto
    with MKeyOrEnd show ?thesis
      using assms(2) s v close_value_valid [of "JObj []" "tl st"] by (auto simp: state_valid_def split: if_splits)
  next
    case MValue
    then show ?thesis
      using assms(2) s v begin_value_valid [of st c s'] by (auto simp: state_valid_def split: if_splits)
  next
    case MValueOrEnd
    then show ?thesis
      using assms(2) s v begin_value_valid [of st c s'] end_step_valid [of st c s']
      by (auto simp: state_valid_def split: if_splits)
  next
    case MEnd
    then show ?thesis
      using assms(2) s v end_step_valid [of st c s'] by (auto simp: state_valid_def split: if_splits)
  qed (use assms(2) s v in \<open>auto simp: state_valid_def split: if_splits\<close>)
qed

lemma jrun_valid: "state_valid s \<Longrightarrow> jrun s cs = Some s' \<Longrightarrow> state_valid s'"
  by (induction s cs rule: jrun.induct) (auto dest: jstep_valid split: option.splits)

lemma jfinish_valid: "state_valid s \<Longrightarrow> jfinish s = Some v \<Longrightarrow> json_valid v"
  by (cases s rule: jfinish.cases) (auto simp: state_valid_def split: if_splits)

lemma json_parse_valid: "json_parse t = Some v \<Longrightarrow> json_valid v"
proof -
  assume "json_parse t = Some v"
  then obtain s where s: "jrun ([], MValue) t = Some s" "jfinish s = Some v"
    by (auto simp: json_parse_def split: option.splits)
  have "state_valid ([], MValue)" by (simp add: state_valid_def)
  from jfinish_valid [OF jrun_valid [OF this s(1)] s(2)] show ?thesis .
qed

subsection \<open>Decoders\<close>

text \<open>A decoder that stores valid values keeps what \<open>P\<close> says of the variable.\<close>

definition stores_valid :: "('a \<Rightarrow> bool) \<Rightarrow> 'a decoder \<Rightarrow> bool" where
  "stores_valid P d \<longleftrightarrow> (\<forall>j x y. json_valid j \<longrightarrow> P x \<longrightarrow> d j x = Some y \<longrightarrow> P y)"

lemma stores_string [valid_dec]: "stores_valid valid_utf8 dec_string"
  by (auto simp: stores_valid_def dec_string_def split: json.splits)

lemma stores_int [valid_dec]: "stores_valid (\<lambda>_. True) dec_int"
  by (simp add: stores_valid_def)

lemma stores_field:
  assumes "stores_valid Q d" "\<And>r. P r \<Longrightarrow> Q (sel r)" "\<And>r x. P r \<Longrightarrow> Q x \<Longrightarrow> P (upd (\<lambda>_. x) r)"
  shows "stores_valid P (dec_field sel upd d)"
  using assms unfolding stores_valid_def dec_field_def by (auto split: option.splits) blast

lemma field_decoder_mem: "field_decoder fs k = Some d \<Longrightarrow> d \<in> snd ` set fs"
  by (induction fs k rule: field_decoder.induct) (auto split: if_splits)

lemma stores_struct:
  assumes "\<And>d. d \<in> snd ` set fs \<Longrightarrow> stores_valid P d"
  shows "stores_valid P (dec_struct fs)"
proof -
  have "P y" if "json_valid_members ms" "P x" "dec_members fs ms x = Some y" for ms x y
    using that assms
  proof (induction fs ms x rule: dec_members.induct)
    case (2 fs k v ms r)
    show ?case
    proof (cases "field_decoder fs k")
      case None
      with 2 show ?thesis by simp
    next
      case (Some d)
      with 2(5) obtain r' where r': "d v r = Some r'" "dec_members fs ms r' = Some y" by (auto split: option.splits)
      have "stores_valid P d" using field_decoder_mem [OF Some] by (rule 2(6))
      then have "P r'" using 2(3,4) r'(1) by (auto simp: stores_valid_def)
      with 2(2) [OF Some r'(1)] 2(3,6) r'(2) show ?thesis by simp
    qed
  qed simp
  then show ?thesis by (auto simp: stores_valid_def dec_struct_def split: json.splits)
qed

lemma stores_elems:
  assumes "stores_valid P d" "P zero" "json_valid_elems vs" "list_all P olds" "dec_elems d zero vs olds = Some xs"
  shows "list_all P xs"
  using assms(3-5)
proof (induction vs arbitrary: olds xs)
  case (Cons v vs)
  let ?old = "case olds of [] \<Rightarrow> zero | x # _ \<Rightarrow> x"
  from Cons.prems(3) obtain x ys where x: "d v ?old = Some x" "dec_elems d zero vs (drop 1 olds) = Some ys" "xs = x # ys"
    by (auto split: option.splits)
  have "P ?old" using assms(2) Cons.prems(2) by (cases olds) simp_all
  then have "P x" using assms(1) Cons.prems(1) x(1) by (auto simp: stores_valid_def)
  moreover have "list_all P (drop 1 olds)" using Cons.prems(2) by (cases olds) simp_all
  ultimately show ?case using Cons.IH [of "drop 1 olds" ys] Cons.prems(1) x by simp
qed simp

lemma stores_list: "stores_valid P d \<Longrightarrow> P zero \<Longrightarrow> stores_valid (list_all P) (dec_list d zero)"
  using stores_elems [of P d zero] unfolding stores_valid_def dec_list_def
  by (auto simp del: dec_elems.simps split: json.splits)

lemma stores_map_members:
  assumes "stores_valid P d" "P zero" "json_valid_members ms" "list_all (\<lambda>(k, v). valid_utf8 k \<and> P v) m"
    and "dec_map_members d zero ms m = Some m'"
  shows "list_all (\<lambda>(k, v). valid_utf8 k \<and> P v) m'"
  using assms
proof (induction d zero ms m rule: dec_map_members.induct)
  case (2 d zero k v ms m)
  then obtain x where x: "d v zero = Some x" "dec_map_members d zero ms (map_set k x m) = Some m'"
    by (auto split: option.splits)
  have "P x" using 2(2,3,4) x(1) by (auto simp: stores_valid_def)
  then have "list_all (\<lambda>(k, v). valid_utf8 k \<and> P v) (map_set k x m)"
    using 2(4,5) list_all_map_set [of "\<lambda>(k, v). valid_utf8 k \<and> P v" k x m] by simp
  with 2(1) [OF x(1)] 2(2,3,4) x(2) show ?case by simp
qed simp

lemma stores_map:
  "stores_valid P d \<Longrightarrow> P zero \<Longrightarrow> stores_valid (list_all (\<lambda>(k, v). valid_utf8 k \<and> P v)) (dec_map d zero)"
  using stores_map_members [of P d zero] unfolding stores_valid_def dec_map_def
  by (auto split: json.splits)

lemma unmarshal_stores:
  assumes "stores_valid P d" "P zero" "unmarshal d zero t = Some x"
  shows "P x"
  using assms json_parse_valid [of t] by (auto simp: unmarshal_def stores_valid_def split: option.splits)

lemma remarshal_stores:
  "stores_valid P d \<Longrightarrow> P zero \<Longrightarrow> remarshal d zero v = Decoded x \<Longrightarrow> P x"
  by (auto simp: remarshal_def split: option.splits intro: unmarshal_stores)

end
