(* ===== verification/Source_Types.thy ===== *)
theory Source_Types
  imports ValidText Registry Emitter
begin

text \<open>
  The type of what a source emits: whatever bytes a log line holds and whatever a source is
  configured with, all strings of an event are valid UTF-8 and its metadata is in canonical
  form (\<open>event_ok\<close>). That is what the round trips of the emitter ask of an event, so with it
  they hold for every line of every log.
\<close>

named_theorems entry_valid \<open>the strings of a decoded entry\<close>

subsection \<open>Vault\<close>

definition auth_valid :: "vault_auth \<Rightarrow> bool" where
  "auth_valid a \<longleftrightarrow> list_all valid_utf8 [token_accessor a, display_name a, auth_entity_id a]"

definition request_valid :: "vault_request \<Rightarrow> bool" where
  "request_valid r \<longleftrightarrow> list_all valid_utf8 [req_id r, req_path r, req_operation r, req_entity_id r, req_remote_address r]"

definition secret_valid :: "vault_secret \<Rightarrow> bool" where
  "secret_valid s \<longleftrightarrow> valid_utf8 (lease_id s)"

definition vault_entry_valid :: "vault_entry \<Rightarrow> bool" where
  "vault_entry_valid en \<longleftrightarrow> auth_valid (entry_auth en) \<and> request_valid (entry_request en) \<and>
     secret_valid (entry_secret en) \<and> valid_utf8 (entry_error en) \<and> valid_utf8 (entry_type en)"

lemmas vault_valid_defs = auth_valid_def request_valid_def secret_valid_def vault_entry_valid_def

lemma stores_auth: "stores_valid auth_valid dec_auth"
  unfolding dec_auth_def by (rule stores_struct) (auto intro!: stores_field [OF stores_string] simp: auth_valid_def)

lemma stores_request: "stores_valid request_valid dec_request"
  unfolding dec_request_def
  by (rule stores_struct) (auto intro!: stores_field [OF stores_string] simp: request_valid_def)

lemma stores_secret: "stores_valid secret_valid dec_secret"
  unfolding dec_secret_def
  by (rule stores_struct)
    (auto intro!: stores_field [OF stores_string] stores_field [OF stores_int] simp: secret_valid_def)

lemma stores_response: "stores_valid secret_valid dec_response"
  unfolding dec_response_def by (rule stores_struct) (auto simp: stores_secret)

lemma stores_vault_entry: "stores_valid vault_entry_valid dec_vault_entry"
  unfolding dec_vault_entry_def
  by (rule stores_struct)
    (auto intro!: stores_field [OF stores_string] stores_field [OF stores_auth] stores_field [OF stores_request]
      stores_field [OF stores_response] simp: vault_entry_valid_def)

definition rule_valid :: "mount_rule \<Rightarrow> bool" where
  "rule_valid r \<longleftrightarrow> list_all valid_utf8 [rule_prefix r, rule_engine r, rule_event r]"

lemma stores_rule: "stores_valid rule_valid dec_rule"
  unfolding dec_rule_def by (rule stores_struct) (auto intro!: stores_field [OF stores_string] simp: rule_valid_def)

lemma new_vault_source_valid: "new_vault_source cfg = Inr s \<Longrightarrow> list_all rule_valid (mount_rules s)"
  using remarshal_stores [OF stores_list [OF stores_rule, of zero_rule], of "[]"]
  by (auto simp: new_vault_source_def vault_mount_rules_def rule_valid_def zero_rule_def
      split: sum.splits option.splits remarshalled.splits)

lemma match_rule_valid: "list_all rule_valid rs \<Longrightarrow> match_rule rs path = Some r \<Longrightarrow> rule_valid r"
  by (induction rs path rule: match_rule.induct) (auto split: if_splits)

lemma valid_ascii: "list_all is_ascii s \<Longrightarrow> valid_utf8 s"
  by (induction s) auto

lemma valid_itoa [valid_text]: "valid_utf8 (itoa i)"
proof -
  have "list_all is_ascii (show_nat n)" for n
    using show_nat_digits [of n] by (auto simp: list_all_iff is_ascii_def is_digit_def byte_def)
  then show ?thesis by (simp add: itoa_def valid_ascii is_ascii_def byte_def)
qed

lemma valid_metadata:
  "list_all (\<lambda>(k, v). valid_utf8 k \<and> valid_utf8 v) kvs \<Longrightarrow> valid_string_map (map_lit kvs)"
  by (simp add: valid_string_map_def map_lit_def list_all_map_sets)

lemma valid_map_set:
  "valid_utf8 k \<Longrightarrow> valid_utf8 v \<Longrightarrow> valid_string_map m \<Longrightarrow> valid_string_map (map_set k v m)"
  by (simp add: valid_string_map_def list_all_map_set)

lemma vault_event_ok:
  assumes "vault_entry_valid en" "valid_utf8 uri" "valid_utf8 engine"
  shows "event_ok (vault_build_event en uri engine)"
proof -
  have "valid_string_map (vault_metadata en engine)"
    using assms unfolding vault_metadata_def Let_def
    by (auto intro!: valid_map_set valid_metadata
        simp: vault_valid_defs valid_itoa is_ascii_def byte_def)
  then show ?thesis using assms by (auto simp: event_ok_def vault_build_event_def vault_valid_defs)
qed

lemma vault_events:
  assumes "new_vault_source cfg = Inr s" "vault_parse s l = Some e"
  shows "event_ok e"
proof -
  from assms(2) obtain en where en: "unmarshal dec_vault_entry zero_entry l = Some en" "vault_classify s en = Some e"
    by (auto simp: vault_parse_def split: option.splits)
  have v: "vault_entry_valid en"
    by (rule unmarshal_stores [OF stores_vault_entry _ en(1)]) (simp add: vault_valid_defs zero_entry_def)
  have u: "valid_utf8 uri_revoked" "valid_utf8 uri_denied" "valid_utf8 uri_auth"
    by (simp_all add: uri_revoked_def uri_denied_def uri_auth_def is_ascii_def byte_def)
  have "rule_valid r" if "match_rule (mount_rules s) p = Some r" for p r
    using match_rule_valid [OF new_vault_source_valid [OF assms(1)] that] .
  then show ?thesis
    using en(2) u vault_event_ok [OF v]
    by (auto simp: vault_classify_def rule_valid_def split: if_splits option.splits)
qed

subsection \<open>Kubernetes\<close>

definition user_valid :: "k8s_user \<Rightarrow> bool" where
  "user_valid u \<longleftrightarrow> valid_utf8 (username u) \<and> valid_utf8 (uid u)"

definition ref_valid :: "k8s_object_ref \<Rightarrow> bool" where
  "ref_valid r \<longleftrightarrow> list_all valid_utf8 [ref_resource r, ref_namespace r, ref_name r, ref_api_version r]"

definition k8s_entry_valid :: "k8s_entry \<Rightarrow> bool" where
  "k8s_entry_valid en \<longleftrightarrow>
     list_all valid_utf8 [audit_id en, audit_stage en, request_uri en, audit_verb en] \<and>
     user_valid (audit_user en) \<and> list_all valid_utf8 (source_ips en) \<and> ref_valid (object_ref en)"

lemma stores_user: "stores_valid user_valid dec_user"
  unfolding dec_user_def by (rule stores_struct) (auto intro!: stores_field [OF stores_string] simp: user_valid_def)

lemma stores_ref: "stores_valid ref_valid dec_object_ref"
  unfolding dec_object_ref_def
  by (rule stores_struct) (auto intro!: stores_field [OF stores_string] simp: ref_valid_def)

lemma stores_code: "stores_valid (\<lambda>_. True) (dec_struct [(''code'', dec_int)])"
  by (rule stores_struct) (auto intro: stores_int)

lemma stores_k8s_entry: "stores_valid k8s_entry_valid dec_k8s_entry"
  unfolding dec_k8s_entry_def
  by (rule stores_struct)
    (auto intro!: stores_field [OF stores_string] stores_field [OF stores_user] stores_field [OF stores_ref]
      stores_field [OF stores_code] stores_field [OF stores_list [OF stores_string]] simp: k8s_entry_valid_def)

lemma valid_prefix_ascii: "list_all is_ascii p \<Longrightarrow> valid_utf8 (p @ s) = valid_utf8 s"
  by (induction p) auto

lemma entity_name_valid:
  assumes "valid_utf8 user"
  shows "valid_utf8 (entity_name_of user)"
proof (cases "has_prefix user service_account_prefix")
  case True
  then obtain r where r: "user = service_account_prefix @ r" by (auto simp: has_prefix_iff)
  show ?thesis
  proof (cases "CHR '':'' \<in> set r")
    case False
    with r assms show ?thesis by (simp add: entity_name_of_def split_n2_absent)
  next
    case True
    then obtain a b where ab: "r = a @ CHR '':'' # b" "CHR '':'' \<notin> set a" by (meson split_list_first)
    have "valid_utf8 b"
      using valid_utf8_cut [OF assms, of "service_account_prefix @ a" "CHR '':''" b]
      by (simp add: r ab(1) is_ascii_def byte_def)
    with r ab show ?thesis by (simp add: entity_name_of_def split_n2_present)
  qed
qed (simp add: entity_name_of_def assms)

lemma k8s_events:
  assumes "k8s_parse s l = Some e"
  shows "event_ok e"
proof -
  from assms obtain en uri where en: "unmarshal dec_k8s_entry zero_k8s l = Some en"
    "k8s_event_type en = Some uri" "e = k8s_build_event en uri"
    by (auto simp: k8s_parse_def k8s_classify_def split: option.splits if_splits)
  have v: "k8s_entry_valid en"
    by (rule unmarshal_stores [OF stores_k8s_entry _ en(1)]) (simp add: k8s_entry_valid_def user_valid_def ref_valid_def zero_k8s_def)
  then have ip: "valid_utf8 (case source_ips en of [] \<Rightarrow> [] | ip # _ \<Rightarrow> ip)"
    by (auto simp: k8s_entry_valid_def split: list.split)
  have "valid_utf8 uri"
    using en(2) by (auto simp: k8s_event_type_def k8s_uri_def Let_def is_ascii_def byte_def split: if_splits)
  moreover have "valid_string_map (ev_metadata e)"
    unfolding en(3) k8s_build_event_def event.simps using v ip
    by (intro valid_metadata) (simp add: k8s_entry_valid_def ref_valid_def valid_itoa is_ascii_def byte_def)
  ultimately show ?thesis
    using v by (auto simp: event_ok_def en(3) k8s_build_event_def k8s_entry_valid_def user_valid_def entity_name_valid)
qed

subsection \<open>OPA\<close>

definition decision_valid :: "opa_decision \<Rightarrow> bool" where
  "decision_valid d \<longleftrightarrow> valid_utf8 (decision_id d) \<and> valid_utf8 (decision_path d) \<and>
     list_all (\<lambda>(k, v). valid_utf8 k \<and> valid_utf8 v) (decision_labels d)"

lemma stores_anything: "stores_valid (\<lambda>_. True) d"
  by (simp add: stores_valid_def)

lemma stores_decision: "stores_valid decision_valid dec_opa_decision"
proof -
  have other: "stores_valid decision_valid (dec_field decision_result decision_result_update dec_any)"
    "stores_valid decision_valid (dec_field decision_input decision_input_update (dec_map dec_any JNull))"
    by (rule stores_field [OF stores_anything]; simp add: decision_valid_def)+
  then show ?thesis
    unfolding dec_opa_decision_def
    by (intro stores_struct)
      (auto intro!: stores_field [OF stores_string] stores_field [OF stores_map [OF stores_string]] simp: decision_valid_def)
qed

lemma map_get_valid: "list_all (\<lambda>(k, v). valid_utf8 k \<and> valid_utf8 v) m \<Longrightarrow> valid_utf8 (map_get m k)"
  by (auto simp: map_get_def list_all_iff split: option.split dest: map_of_SomeD)

lemma opa_events:
  assumes "opa_parse s l = Some e"
  shows "event_ok e"
proof -
  from assms obtain d uri where d: "unmarshal dec_opa_decision zero_decision l = Some d" "e = opa_build_event d uri"
    "uri = opa_uri ''policy-denied'' \<or> uri = opa_uri ''policy-allowed''"
    by (auto simp: opa_parse_def opa_classify_def split: option.splits if_splits)
  have v: "decision_valid d"
    by (rule unmarshal_stores [OF stores_decision _ d(1)]) (simp add: decision_valid_def zero_decision_def)
  then have "valid_utf8 (map_get (decision_labels d) k)" for k by (simp add: decision_valid_def map_get_valid)
  moreover have "valid_utf8 uri" using d(3) by (auto simp: opa_uri_def is_ascii_def byte_def)
  moreover have "valid_string_map (ev_metadata e)"
    unfolding d(2) opa_build_event_def event.simps using v
    by (intro valid_metadata) (simp add: decision_valid_def map_get_valid is_ascii_def byte_def)
  ultimately show ?thesis
    using v by (auto simp: event_ok_def d(2) opa_build_event_def decision_valid_def)
qed

lemma built_event_ok:
  assumes "build_source ty cfg = Inr parse" "parse l = Some e"
  shows "event_ok e"
  using assms(1)
proof (cases rule: build_source_cases)
  case (k8s s)
  then show ?thesis using assms(2) k8s_events by simp
next
  case (opa s)
  then show ?thesis using assms(2) opa_events by simp
next
  case (vault s)
  then show ?thesis using assms(2) vault_events by simp
qed

subsection \<open>Properties\<close>

text \<open>C12: Every event is well typed: for every source that can be built, whatever its configuration and
  whatever bytes a line consists of, the event made of the line has valid UTF-8 strings and
  metadata in canonical form with distinct keys.\<close>

theorem source_event_type:
  assumes "build_source ty cfg = Inr parse" "parse l = Some e"
  shows "event_ok e"
  using assms by (rule built_event_ok)

lemma opa_empty_object:
  "\<exists>s. build_source ''opa-decision'' [] = Inr (opa_parse s) \<and>
     opa_parse s ''{}'' = Some (opa_build_event zero_decision (opa_uri ''policy-denied''))"
proof -
  have "new_opa_source [] = Inr \<lparr>emit_allow = False, drop_paths = {}\<rparr>"
    by (simp add: new_opa_source_def opa_emit_allow_def opa_drop_paths_def)
  then obtain s where b: "build_source ''opa-decision'' [] = Inr (opa_parse s)" "drop_paths s = {}"
    by (simp add: build_source_def registry_build_def source_registry_started(2) source_inits_def map_result_def)
  have "json_parse ''{}'' = Some (JObj [])"
    by (simp add: json_parse_def begin_value_def push_frame_def is_ws_def dquote_def max_depth_def)
  then have "opa_parse s ''{}'' = Some (opa_build_event zero_decision (opa_uri ''policy-denied''))"
    using b(2) by (simp add: opa_parse_def unmarshal_def dec_opa_decision_def dec_struct_def opa_classify_def)
      (simp add: zero_decision_def)
  with b(1) show ?thesis by blast
qed

theorem source_event_type_witness:
  "\<exists>parse e. build_source ''opa-decision'' [] = Inr parse \<and> parse ''{}'' = Some e \<and> event_ok e"
proof -
  obtain s where "build_source ''opa-decision'' [] = Inr (opa_parse s)"
    "opa_parse s ''{}'' = Some (opa_build_event zero_decision (opa_uri ''policy-denied''))"
    using opa_empty_object by blast
  with source_event_type [OF this] show ?thesis by blast
qed

end
