(* ===== verification/Spec2Isabelle.thy ===== *)
theory Spec2Isabelle
  imports Relay_Process Jwks Source_Types
begin

text \<open>
  ssf-relay: a process that turns the audit logs of Vault, Kubernetes and OPA into Security
  Event Tokens (SETs) it posts to a receiver, and turns the SETs a receiver streams back
  into actions on Vault, Kubernetes, OPA or a webhook. This library models the Go program
  under \<^verbatim>\<open>src/\<close> and proves what makes its parts correct.

  \<^bold>\<open>The program.\<close> \<^verbatim>\<open>cmd/ssf-relay/main.go\<close> loads \<^verbatim>\<open>config/config.go\<close>, the signing key, builds an
  emitter, a manager and a subscriber. Outbound, \<^verbatim>\<open>relay/manager.go\<close> builds one source per
  entry (\<^verbatim>\<open>sources/registry.go\<close> and the three packages below it) and reads its lines with
  \<^verbatim>\<open>relay/tailer.go\<close> or \<^verbatim>\<open>relay/socket_listener.go\<close>; every event goes to \<^verbatim>\<open>relay/emitter.go\<close>,
  which builds a SET, signs it (\<^verbatim>\<open>relay/signing.go\<close>) and posts it. Inbound,
  \<^verbatim>\<open>relay/subscriber.go\<close> reads a server-sent-event stream and hands each SET to
  \<^verbatim>\<open>relay/router.go\<close>, which calls the adapters (\<^verbatim>\<open>actions/registry.go\<close> and the four packages
  below it) registered for its type.

  \<^bold>\<open>Foundations.\<close> Prelude: Go strings as byte lists, errors as values (the format and the
  arguments, wrapped errors inside), Go maps with string keys as association lists in key
  order, decimal numbers. Runes: UTF-8. Json, JsonText, JsonDecode, JsonLine:
  \<^verbatim>\<open>encoding/json\<close> as the relay uses it: the character automaton of its scanner, quoting,
  printing, decoding into structs, maps and slices, with the round trip of printing and
  reading and the fact that printed JSON is one line. GoValue: the values of a component's
  configuration block. Http: the outside world (a server that answers from the history of
  requests, environment, files) and the requests made so far; \<^verbatim>\<open>sent\<close> counts the requests
  handed to the HTTP client, redirects and retries being the server's business.

  \<^bold>\<open>Components and interfaces.\<close> Source holds the event type and the locale \<open>log_source\<close>, the
  contract of \<^verbatim>\<open>relay.Source\<close>; Vault_Source, K8s_Source and Opa_Source (\<^verbatim>\<open>NewSource\<close>, \<^verbatim>\<open>Parse\<close>,
  event building) interpret it. Signing and Emitter are the SET, key loading, \<^verbatim>\<open>SignSET\<close> and
  \<^verbatim>\<open>Emit\<close>. Lines is line splitting and \<^verbatim>\<open>bufio.Scanner\<close>; Socket_Listener and Tailer are the two
  readers, each listener and connection with the goroutine that closes it on cancellation
  (\<open>io_results\<close>), the tailer a machine over ticks and file-system snapshots. Action holds the
  inbound SET and the locale \<open>action_adapter\<close>; Vault_Action, K8s_Cordon, Opa_Policy and
  Webhook interpret it. Router is registration and fan-out, Subscriber the stream and the
  reconnect loop (the inductive relation \<open>sub_step\<close>), Registry both registries with the
  locales \<open>source_builder\<close> and \<open>action_builder\<close> the manager and the start-up rely on, Config
  the configuration, Manager the building of sources and the posting of events, Relay_Main
  the start-up, Jwks the endpoint that publishes the key.

  \<^bold>\<open>Concurrency.\<close> Four theories put the parts together as they run. Manager_Run is the machine
  of the goroutines of \<^verbatim>\<open>Manager.Run\<close>, one per source and one per socket connection, that post
  through one network in any order (\<open>mgr_step\<close>, labels say who moves and what the system
  hands it), with the closing of listeners and connections as a step of its own (\<open>close_fd\<close>);
  Manager_Stop shows that it ends after a cancellation; Subscriber_Steps cuts the reconnect loop into single requests and lines;
  Relay_Process runs both, as \<^verbatim>\<open>main\<close> does after the start-up, up to the exit status. The
  specification of a goroutine is its sequential reader: every interleaving refines
  \<open>tail_file\<close> and \<open>handle_conn\<close> on the inputs it consumed, so what is proved of those holds in
  the running process.

  \<^bold>\<open>Types.\<close> ValidText shows that the strings \<^verbatim>\<open>encoding/json\<close> delivers are valid UTF-8, and
  Source_Types that every event of every source is well typed (\<open>event_ok\<close>), which is what the
  round trips of the emitter ask of an event.

  \<^bold>\<open>What is shown.\<close> For each source: reading a printed audit line gives its classification,
  and the decision table. For the emitter: what a delivery does, and that an unsigned body
  decodes to the event's payload; for signing, that a token verifies to the SET it was made
  from. For the readers: framing independent of how bytes arrive, exactly-once delivery from
  a growing file, catching up, and what rotation and oversized lines lose. For the adapters:
  the requests made and when the result is nil; that a recovered signal removes what a
  compromised one injected. For the router and the subscriber: fan-out, dispatch, the SETs
  of a stream, the back-off. For the manager: that in every run that is fair to the steps the relay makes by
  itself (posting, closing, the calls that fail on what was closed, \<open>ctx.Done\<close>, \<open>wg.Wait\<close>)
  \<open>Run\<close> returns after a cancellation, with peers, files and clock left free; fairness is a
  hypothesis on scheduler and \<open>select\<close>, and that a request comes back. For the process: what it has posted in any reachable state, what
  each exit status means, that no send blocks, that after a cancellation it can always leave
  and has then posted all it read. Below, properties follow a log file to the receiver, the
  whole process back to its logs, and a stream to the adapters.

  \<^bold>\<open>Bounds.\<close> The scanner's buffers are the code's (1 MiB on sockets, 64 KiB and an 8 MiB limit
  on the stream), a tick of the tailer reads at most 4096 bytes; no fuel is used: every
  function recurses on its input, and endless loops are functions of the events that
  happen. The rank of a goroutine, queued events plus at most four steps, bounds the shortest
  way to its end. Durations are 64-bit words, so that the overflow of a large timeout shows.

  \<^bold>\<open>What is a parameter.\<close> PEM, X.509 and JOSE (record \<open>crypto\<close>), YAML decoding, the check that a
  CA bundle holds a certificate, template syntax beyond plain fields, the decimal text of a
  float64, the iteration order of Go maps, the clock and UUIDs, URL parsing. What is left
  out: logging with \<^verbatim>\<open>hclogAdapter\<close>, the HTTP transport (TLS, timeouts, redirects; a body of
  which only a part arrives is that part), the path cleaning and failures of the JWKS server, the mutexes
  of the registries. A request and its answer are one step, and so is one read with the
  parsing of what it brought.
\<close>

subsection \<open>From a log file to the receiver\<close>

text \<open>C1: A log file reaches the receiver: for any source the registry builds, when the file only
  grows and then stays quiet long enough, the events are exactly those the source makes of
  the added complete lines, in order; the payload of each carries its identity, correlation
  ID and metadata; and unsigned delivery posts each of them in one request, in that order,
  whatever the receiver answers.\<close>

theorem log_file_to_receiver:
  assumes "build_source ty cfg = Inr parse"
    and "open_path fs path = Some i" "seek_ok fs i"
    and "growing path i (content fs i) (fss @ quiet)"
    and "final_content i (content fs i) fss = content fs i @ unlines ls @ rest"
    and "\<forall>q \<in> set quiet. content q i = content fs i @ unlines ls @ rest"
    and "list_all (\<lambda>l. nl \<notin> set l) ls" "nl \<notin> set rest"
    and "length (unlines ls @ rest) \<le> tail_buf_size * length quiet"
    and "em_signing_key em = None" "url_ok w (em_receiver_url em)"
  shows "\<exists>t evs. tail_file parse path (Tick fs # map Tick (fss @ quiet)) = (Tailing t, evs) \<and>
    evs = List.map_filter parse ls \<and>
    (\<forall>e \<in> set evs. payload_faithful e \<and>
      (\<forall>now uuid. valid_utf8 (em_issuer em) \<and> valid_utf8 name \<and> valid_utf8 (''set-'' @ uuid) \<and>
         - (2 ^ 63) \<le> now \<and> now < 2 ^ 63 \<longrightarrow>
         unmarshal dec_set zero_set (marshal_set (build_set em now uuid name e)) = Some (build_set em now uuid name e))) \<and>
    (\<forall>stamps. on_events cr em name (zip stamps evs) w = w\<lparr>sent := sent w @
       map (\<lambda>((now, uuid), e). emit_request em (marshal_set (build_set em now uuid name e)) ''application/json'')
         (zip stamps evs)\<rparr>)"
proof -
  have src: "log_source parse" using assms(1) by (rule sources.built)
  obtain t where "tail_file parse path (Tick fs # map Tick (fss @ quiet)) = (Tailing t, line_events parse ls)"
    using tail_caught_up [OF assms(2-9), of parse] by blast
  moreover have "line_events parse ls = List.map_filter parse ls"
    by (rule log_source.line_events_all [OF src])
  moreover have "payload_faithful e" "event_ok e" if "e \<in> set (line_events parse ls)" for e
    using that log_source.line_events_sound [OF src] log_source.payload_is_faithful [OF src]
      built_event_ok [OF assms(1)] by blast+
  moreover have "unmarshal dec_set zero_set (marshal_set (build_set em now uuid name e)) = Some (build_set em now uuid name e)"
    if "event_ok e" "valid_utf8 (em_issuer em) \<and> valid_utf8 name \<and> valid_utf8 (''set-'' @ uuid) \<and>
      - (2 ^ 63) \<le> now \<and> now < 2 ^ 63" for e now uuid
    using that by (intro unmarshal_set build_set_ok) auto
  ultimately show ?thesis
    using on_events_posted [OF assms(10,11)] by auto
qed

theorem log_file_to_receiver_witness:
  "\<exists>parse t e. build_source ''opa-decision'' [] = Inr parse \<and>
    tail_file parse ''log'' (Tick (example_fs 1 (\<lambda>_. [])) # map Tick
      ([example_fs 1 (\<lambda>_. ''{}'' @ [nl])] @ [example_fs 1 (\<lambda>_. ''{}'' @ [nl])])) = (Tailing t, [e]) \<and>
    payload_faithful e \<and>
    length (sent (on_events example_crypto (new_emitter ''http://r'' ''i'' 5 None) ''n'' [((1, ''u''), e)]
      (example_world 500 []))) = 1"
proof -
  let ?fs = "example_fs 1 (\<lambda>_. [])" and ?q = "example_fs 1 (\<lambda>_. ''{}'' @ [nl])"
  let ?em = "new_emitter ''http://r'' ''i'' 5 None :: nat emitter" and ?w = "example_world 500 []"
  let ?e = "opa_build_event zero_decision (opa_uri ''policy-denied'')"
  obtain s where s: "build_source ''opa-decision'' [] = Inr (opa_parse s)" "opa_parse s ''{}'' = Some ?e"
    using opa_empty_object by blast
  have em: "em_signing_key ?em = None" "url_ok ?w (em_receiver_url ?em)"
    by (simp_all add: new_emitter_def example_world_def)
  have fs: "open_path ?fs ''log'' = Some 1" "seek_ok ?fs 1" "growing ''log'' 1 (content ?fs 1) ([?q] @ [?q])"
    "final_content 1 (content ?fs 1) [?q] = content ?fs 1 @ unlines [''{}''] @ []"
    "\<forall>q \<in> set [?q]. content q 1 = content ?fs 1 @ unlines [''{}''] @ []"
    "list_all (\<lambda>l. nl \<notin> set l) [''{}'']" "nl \<notin> set []"
    "length (unlines [''{}''] @ []) \<le> tail_buf_size * length [?q]"
    by (simp_all add: example_fs_def nl_def tail_buf_size_def)
  have "List.map_filter (opa_parse s) [''{}''] = [?e]" by (simp add: map_filter_simps s(2))
  with log_file_to_receiver [OF s(1) fs em, of "''n''" example_crypto] obtain t where
    t: "tail_file (opa_parse s) ''log'' (Tick ?fs # map Tick ([?q] @ [?q])) = (Tailing t, [?e])" "payload_faithful ?e"
    and out: "\<forall>stamps. sent (on_events example_crypto ?em ''n'' (zip stamps [?e]) ?w) = sent ?w @
       map (\<lambda>((now, uuid), e). emit_request ?em (marshal_set (build_set ?em now uuid ''n'' e)) ''application/json'')
         (zip stamps [?e])"
    by auto
  have "length (sent (on_events example_crypto ?em ''n'' [((1, ''u''), ?e)] ?w)) = 1"
    using out [THEN spec, of "[(1, ''u'')]"] by (simp add: example_world_def)
  with t s(1) show ?thesis by blast
qed

subsection \<open>The whole process\<close>

lemma main_start_router:
  assumes "main_start ext cr yaml args w0 = Started rl"
  shows "only_sends (sub_router (rl_subscriber rl))"
proof -
  obtain r where "add_sinks (build_action ext w0) [] (cfg_sinks (rl_config rl)) new_router = Inr r"
    "sub_router (rl_subscriber rl) = r"
    using assms by (auto simp: main_start_def new_subscriber_def split: list.splits sum.splits startup.splits)
  then show ?thesis using actions.sinks_dispatch unfolding only_sends_def by blast
qed

text \<open>What a goroutine of the process posts its source made of a line.\<close>

lemma posted_from_log:
  assumes "relay_reach cr rl w p" "(k, st, e) \<in> set (m_posted (pr_manager p))"
  shows "\<exists>sc parse l. sc \<in> set (cfg_sources (rl_config rl)) \<and> thread_name (pr_manager p) k = src_name sc \<and>
    build_source (src_type sc) (src_options sc) = Inr parse \<and> parse l = Some e \<and> event_ok e \<and> payload_faithful e"
proof -
  let ?mg = "new_manager (rl_config rl) (rl_emitter rl) build_source" and ?m = "pr_manager p"
  obtain started er0 where s: "start_sources (mg_build ?mg) (cfg_sources (mg_config ?mg)) = (started, er0)" by fastforce
  have ok: "process_ok cr (rl_emitter rl) started er0 w p"
    by (rule process_ok_reach [OF s assms(1) [unfolded relay_reach_def relay_process_def]])
  then obtain w' where reach: "mgr_reach cr (rl_emitter rl) (manager_start started w) (?m\<lparr>m_world := w'\<rparr>)"
    by (auto simp: process_ok_def)
  have inv: "refines ?m" "books cr (rl_emitter rl) started w (?m\<lparr>m_world := w'\<rparr>)"
    using process_manager_inv [OF ok] reach_invariant [OF reach] by blast+
  let ?t = "m_threads ?m ! k"
  have k: "k < length (m_threads ?m)" using inv(1) assms(2) by (auto simp: refines_def)
  then have "identity ?t \<in> set started" using books_identity [OF inv(2)] by simp
  then have st: "(th_source ?t, th_parse ?t) \<in> set started" by (simp add: identity_def)
  have built: "build_source (src_type (th_source ?t)) (src_options (th_source ?t)) = Inr (th_parse ?t)"
    "th_source ?t \<in> set (cfg_sources (rl_config rl))"
    using start_sources_mem [of "th_source ?t" "th_parse ?t" build_source "cfg_sources (rl_config rl)"] s st
    by (auto simp: new_manager_def)
  have src: "log_source (th_parse ?t)" using built(1) by (rule sources.built)
  obtain l where "th_parse ?t l = Some e" using posted_sound [OF inv(1) assms(2) src] by blast
  then show ?thesis
    using built built_event_ok [OF built(1)] log_source.payload_is_faithful [OF src]
    by (auto simp: thread_name_def)
qed

text \<open>C2: The running relay posts its logs and nothing else: in every state the process can reach
  after a successful start-up, whatever goroutines, files, connections, receiver and stream
  did, each event that was posted was posted under the name of a configured source that was
  built, was made by that source from one line, is well typed, and its payload carries its
  identity, correlation ID and metadata; and without a signing key the network has seen one
  request per posted event, in the order of posting, between those of the subscriber and
  its adapters.\<close>

theorem relay_posts_log_events:
  assumes "main_start ext cr yaml args w0 = Started rl" "relay_reach cr rl w p"
  shows "(\<forall>(k, st, e) \<in> set (m_posted (pr_manager p)).
      \<exists>sc parse l. sc \<in> set (cfg_sources (rl_config rl)) \<and> thread_name (pr_manager p) k = src_name sc \<and>
        build_source (src_type sc) (src_options sc) = Inr parse \<and> parse l = Some e \<and> event_ok e \<and> payload_faithful e) \<and>
    (em_signing_key (rl_emitter rl) = None \<longrightarrow> url_ok w (em_receiver_url (rl_emitter rl)) \<longrightarrow>
      subseq (map (\<lambda>(k, (now, uuid), e).
          emit_request (rl_emitter rl)
            (marshal_set (build_set (rl_emitter rl) now uuid (thread_name (pr_manager p) k) e)) ''application/json'')
          (m_posted (pr_manager p)))
        (sent (m_world (pr_manager p))))"
proof -
  let ?mg = "new_manager (rl_config rl) (rl_emitter rl) build_source"
  obtain started er0 where s: "start_sources (mg_build ?mg) (cfg_sources (mg_config ?mg)) = (started, er0)" by fastforce
  have "all_sent (rl_emitter rl) p"
    if "em_signing_key (rl_emitter rl) = None" "url_ok w (em_receiver_url (rl_emitter rl))"
    by (rule all_sent_reach [OF s assms(2) [unfolded relay_reach_def relay_process_def] that main_start_router [OF assms(1)]])
  then show ?thesis
    using posted_from_log [OF assms(2)] by (auto simp: all_sent_def post_requests_def)
qed

definition opa_config :: config where
  "opa_config = example_config\<lparr>cfg_sinks := [], cfg_sources :=
     [\<lparr>src_name = ''s'', src_type = ''opa-decision'', src_transport = [], src_path = ''log'', src_options = []\<rparr>]\<rparr>"

definition opa_labels :: "label list" where
  "opa_labels = [TailInput 0 (Tick (example_fs 1 (\<lambda>_. []))),
     TailInput 0 (Tick (example_fs 1 (\<lambda>_. ''{}'' @ [nl]))), Post 0 (1, ''u'')]"

theorem relay_posts_log_events_witness:
  "\<exists>rl p e. main_start example_externs example_crypto (\<lambda>_. Inr opa_config) [''ssf-relay'', ''token'']
      (example_world 200 []) = Started rl \<and>
    relay_reach example_crypto rl (example_world 200 []) p \<and>
    (0, (1, ''u''), e) \<in> set (m_posted (pr_manager p)) \<and> event_ok e \<and> payload_faithful e"
proof -
  let ?w = "example_world 200 []"
  let ?e = "opa_build_event zero_decision (opa_uri ''policy-denied'')"
  obtain rl where rl: "main_start example_externs example_crypto (\<lambda>_. Inr opa_config) [''ssf-relay'', ''token''] ?w = Started rl"
    "cfg_sources (rl_config rl) = cfg_sources opa_config"
    by (simp add: main_start_def load_config_def load_key_def resolve_pem_def opa_config_def example_config_def
        example_world_def)
  obtain s where s: "build_source ''opa-decision'' [] = Inr (opa_parse s)" "opa_parse s ''{}'' = Some ?e"
    using opa_empty_object by blast
  obtain m where m: "mgr_run example_crypto (rl_emitter rl) opa_labels (pr_manager (relay_process rl ?w)) = Some m"
    "m_posted m = [(0, (1, ''u''), ?e)]"
    using s by (simp add: relay_process_def process_start_def new_manager_def rl(2) opa_config_def opa_labels_def
        machine_defs try_open_def example_fs_def tail_tick_def is_rotated_def is_truncated_def read_bytes_def
        tail_buf_size_def line_events_def map_filter_simps nl_def)
  let ?p = "(relay_process rl ?w)\<lparr>pr_manager := m\<rparr>"
  have reach: "relay_reach example_crypto rl ?w ?p"
    unfolding relay_reach_def by (rule process_mgr_run [OF m(1)])
  have posted: "(0, (1, ''u''), ?e) \<in> set (m_posted (pr_manager ?p))" by (simp add: m(2))
  from relay_posts_log_events [OF rl(1) reach, THEN conjunct1] rl(1) reach posted show ?thesis by blast
qed

subsection \<open>From a stream to the adapters\<close>

lemma handle_all:
  assumes "add_sinks (build_action ext w0) [] sinks new_router = Inr r"
  shows "\<exists>rqs. fold (\<lambda>s w. snd (handle r s w)) ss w = w\<lparr>sent := sent w @ rqs\<rparr> \<and>
    length rqs \<le> sum_list (map (\<lambda>s. 2 * length (route r (in_event_type s))) ss)"
proof (induction ss arbitrary: w)
  case Nil
  show ?case by (intro exI [of _ "[]"]) simp
next
  case (Cons s ss)
  obtain r1 where r1: "snd (handle r s w) = w\<lparr>sent := sent w @ r1\<rparr>"
    "length r1 \<le> 2 * length (route r (in_event_type s))"
    using actions.sinks_dispatch [OF assms, of s w] by blast
  obtain r2 where r2: "fold (\<lambda>s w. snd (handle r s w)) ss (snd (handle r s w)) =
      (snd (handle r s w))\<lparr>sent := sent (snd (handle r s w)) @ r2\<rparr>"
    "length r2 \<le> sum_list (map (\<lambda>s. 2 * length (route r (in_event_type s))) ss)"
    using Cons [of "snd (handle r s w)"] by blast
  from r1 r2 show ?case by (intro exI [of _ "r1 @ r2"]) simp
qed

text \<open>C32: A stream reaches the adapters and nothing else: whatever sinks the relay was built from,
  reading a stream of SETs makes the one request that opens it and then at most two per SET
  and registered adapter, and changes nothing but the requests made; SETs of a type no
  adapter declares cause none.\<close>

theorem stream_to_adapters:
  assumes "add_sinks (build_action ext w0) [] sinks new_router = Inr r"
    and "url_ok w (sse_url (new_subscriber url r) i)"
    and "server w (sent w) (sse_request (new_subscriber url r) i) =
      Inr \<lparr>rs_status = 200, rs_body = sse_body items\<rparr>"
    and "list_all item_ok items" "length (sse_body items) \<le> sse_limit"
  shows "\<exists>rqs. snd (read_sse (new_subscriber url r) Eof (\<lambda>_. False) i w) =
      w\<lparr>sent := sent w @ sse_request (new_subscriber url r) i # rqs\<rparr> \<and>
    length rqs \<le> sum_list (map (\<lambda>s. 2 * length (route r (in_event_type s))) (item_sets items)) \<and>
    ((\<forall>s \<in> set (item_sets items). in_event_type s \<notin> set (event_types r)) \<longrightarrow> rqs = [])"
proof -
  have r: "sub_router (new_subscriber url r) = r" by (simp add: new_subscriber_def)
  let ?w = "w\<lparr>sent := sent w @ [sse_request (new_subscriber url r) i]\<rparr>"
  have out: "snd (read_sse (new_subscriber url r) Eof (\<lambda>_. False) i w) =
      fold (\<lambda>s w. snd (handle r s w)) (item_sets items) ?w"
    using read_sse_items [OF assms(2-5)] by (simp add: r)
  obtain rqs where rqs: "fold (\<lambda>s w. snd (handle r s w)) (item_sets items) ?w = ?w\<lparr>sent := sent ?w @ rqs\<rparr>"
    "length rqs \<le> sum_list (map (\<lambda>s. 2 * length (route r (in_event_type s))) (item_sets items))"
    using handle_all [OF assms(1)] by blast
  have ok: "router_ok r"
    using assms(1) registered_router [OF router_ok_new] by (auto simp: add_sinks_Inr)
  have "rqs = []" if "\<forall>s \<in> set (item_sets items). in_event_type s \<notin> set (event_types r)"
  proof -
    have "map (\<lambda>s. 2 * length (route r (in_event_type s))) (item_sets items) = map (\<lambda>_. 0) (item_sets items)"
      using that route_empty_iff [OF ok] by (intro map_cong) auto
    with rqs(2) show ?thesis by (simp only:) simp
  qed
  with out rqs show ?thesis by (intro exI [of _ rqs]) simp
qed

theorem stream_to_adapters_witness:
  "\<exists>r rqs. add_sinks (build_action example_externs (example_world 200 [])) [] (cfg_sinks example_config) new_router = Inr r \<and>
    sent (snd (read_sse (new_subscriber ''http://r'' r) Eof (\<lambda>_. False) ''i''
      (example_world 200 (sse_body [KeepAlive [], Data (zero_inbound\<lparr>in_event_type := event_compromised\<rparr>)]))))
      = sse_request (new_subscriber ''http://r'' r) ''i'' # rqs \<and>
    length rqs \<le> 2 * length (route r event_compromised)"
proof -
  let ?s = "zero_inbound\<lparr>in_event_type := event_compromised\<rparr>"
  let ?items = "[KeepAlive [], Data ?s]"
  let ?w = "example_world 200 (sse_body ?items)"
  have "build_action example_externs (example_world 200 []) ''vault'' [] = Inr (vault_adapter (new_vault_action []))"
    by (simp add: build_action_def registry_build_def action_registry_started(2) action_inits_def)
  then obtain r where r: "add_sinks (build_action example_externs (example_world 200 [])) []
      (cfg_sinks example_config) new_router = Inr r"
    by (simp add: example_config_def)
  have line: "item_line (Data ?s) =
      ''data: {\"event_type\":\"https://schemas.openid.net/secevent/caep/event-type/source-compromised\"}''"
    by code_simp
  have ok: "inbound_ok ?s"
    by (simp add: inbound_ok_def zero_inbound_def event_compromised_def caep_def valid_utf8_def is_ascii_def byte_def
        max_depth_def)
  have "list_all item_ok ?items"
    by (simp add: item_ok_def fits_def sse_scan_buf_def nl_def ok line del: item_line.simps(2))
  moreover have "length (sse_body ?items) \<le> sse_limit"
    by (simp add: sse_body_def sse_limit_def line del: item_line.simps(2))
  moreover have "url_ok ?w (sse_url (new_subscriber ''http://r'' r) ''i'')" "sent ?w = []"
    "server ?w (sent ?w) (sse_request (new_subscriber ''http://r'' r) ''i'') =
      Inr \<lparr>rs_status = 200, rs_body = sse_body ?items\<rparr>"
    by (simp_all add: example_world_def sse_url_def)
  moreover have "item_sets ?items = [?s]" by (simp add: item_sets_def map_filter_simps)
  ultimately show ?thesis
    using stream_to_adapters [OF r, of ?w "''http://r''" "''i''" ?items] r by auto
qed

end
